(* ===== verification/Base.thy ===== *)
theory Base
  imports Main "HOL-Library.Word"
begin

text \<open>
  The prelude of the xv6 development.

  It fixes the machine integers of \<^verbatim>\<open>kernel/types.h\<close>, the value a kernel routine
  produces (a result, a call of \<^verbatim>\<open>panic\<close>, or a wait on a channel), little-endian
  encodings, and the byte-addressed memory that the allocator, the page tables and the
  string routines share.  The generic lemmas here are collected in \<open>res_simps\<close>
  (propagation of panics and waits) and \<open>mem_simps\<close> (reads after writes), which the
  component theories hand to the simplifier.
\<close>

unbundle bit_operations_syntax

named_theorems res_simps "propagation of panics and waits"
named_theorems mem_simps "reads after writes in memory"

section \<open>Machine integers\<close>

type_synonym uchar = "8 word"
type_synonym ushort = "16 word"
type_synonym uint = "32 word"
type_synonym uint64 = "64 word"

lemma unat_of_nat_small:
  assumes "n < 2 ^ LENGTH('a::len)"
  shows "unat (of_nat n :: 'a word) = n"
  using assms by (simp add: take_bit_nat_eq_self unsigned_of_nat)

lemma unat64_bound: "unat (a :: uint64) < 18446744073709551616"
  using unsigned_less [of a, where 'a = nat] by simp

lemma unat32_bound: "unat (a :: uint) < 4294967296"
  using unsigned_less [of a, where 'a = nat] by simp

lemma uint32_bound: "uint (a :: uint) < 4294967296"
  using unsigned_less [of a, where 'a = int] by simp

lemma unat_of_nat64 [simp]: "n < 18446744073709551616 \<Longrightarrow> unat (of_nat n :: uint64) = n"
  by (rule unat_of_nat_small) simp

lemma unat_of_nat32 [simp]: "n < 4294967296 \<Longrightarrow> unat (of_nat n :: uint) = n"
  by (rule unat_of_nat_small) simp

lemma unat_minus_1_64: "unat (- 1 :: uint64) = 18446744073709551615"
  by (simp add: unsigned_minus_1_eq_mask mask_eq_exp_minus_1)

lemma uint_inject [simp]: "uint (a :: uchar) = uint b \<longleftrightarrow> a = b"
  by (simp add: word_uint_eq_iff)

lemma uint_eq_0 [simp]: "uint (a :: uchar) = 0 \<longleftrightarrow> a = 0"
  by (simp add: word_uint_eq_iff)

lemma unat_ucast_32_64 [simp]: "unat (ucast (n :: uint) :: uint64) = unat n"
  using unat32_bound [of n] by (simp add: unsigned_ucast_eq take_bit_nat_eq_self)

lemma unat_eq_imp: "unat (x :: uint64) = n \<Longrightarrow> x = of_nat n"
  by auto

lemma of_nat64_eq_iff:
  "i < 18446744073709551616 \<Longrightarrow> j < 18446744073709551616 \<Longrightarrow>
    (of_nat i :: uint64) = of_nat j \<longleftrightarrow> i = j"
  by (metis unat_of_nat64)

section \<open>Results of kernel routines\<close>

text \<open>
  A channel is what \<^verbatim>\<open>sleep\<close> and \<^verbatim>\<open>wakeup\<close> of \<^verbatim>\<open>kernel/proc.c\<close>
  take as their \<^verbatim>\<open>void *chan\<close>: the address of a kernel object.  Kernel objects in
  static tables are named by their table and index, objects in allocated pages by their
  physical address.
\<close>

datatype chan =
    ChProc nat          \<comment> \<open>\<^verbatim>\<open>p\<close>, in \<^verbatim>\<open>wait\<close>\<close>
  | ChBufLock nat       \<comment> \<open>\<^verbatim>\<open>&b->lock\<close>\<close>
  | ChInodeLock nat     \<comment> \<open>\<^verbatim>\<open>&ip->lock\<close>\<close>
  | ChLog               \<comment> \<open>\<^verbatim>\<open>&log\<close>\<close>
  | ChPipeRead uint64   \<comment> \<open>\<^verbatim>\<open>&pi->nread\<close>\<close>
  | ChPipeWrite uint64  \<comment> \<open>\<^verbatim>\<open>&pi->nwrite\<close>\<close>
  | ChSock uint64       \<comment> \<open>\<^verbatim>\<open>&si->rxq\<close>\<close>
  | ChTicks             \<comment> \<open>\<^verbatim>\<open>&ticks\<close>\<close>
  | ChCons              \<comment> \<open>\<^verbatim>\<open>&cons.r\<close>\<close>
  | ChUart              \<comment> \<open>\<^verbatim>\<open>&uart_tx_r\<close>\<close>
  | ChDiskFree          \<comment> \<open>\<^verbatim>\<open>&disk.free[0]\<close>\<close>
  | ChBuf nat           \<comment> \<open>\<^verbatim>\<open>b\<close>, in \<^verbatim>\<open>virtio_disk_rw\<close>\<close>

text \<open>
  A routine returns, panics with a message (and the machine stops), reaches a point where the
  calling process has to sleep on a channel, or does not return at all (\<open>Diverge\<close>: a loop over
  a linked structure that is not well formed and that the model cut off by its fuel).
\<close>

datatype 'a res = Ok 'a | Panic string | Block chan | Diverge

primrec bindr :: "'a res \<Rightarrow> ('a \<Rightarrow> 'b res) \<Rightarrow> 'b res" where
  "bindr (Ok x) f = f x"
| "bindr (Panic e) f = Panic e"
| "bindr (Block c) f = Block c"
| "bindr Diverge f = Diverge"

lemma bindr_Ok [res_simps]:
  "bindr m f = Ok y \<longleftrightarrow> (\<exists>x. m = Ok x \<and> f x = Ok y)"
  by (cases m) auto

lemma bindr_assoc: "bindr (bindr m f) g = bindr m (\<lambda>x. bindr (f x) g)"
  by (cases m) auto

lemma bindr_cong [fundef_cong]:
  "m = m' \<Longrightarrow> (\<And>x. m' = Ok x \<Longrightarrow> f x = f' x) \<Longrightarrow> bindr m f = bindr m' f'"
  by (cases m') auto

text \<open>A counting loop whose body may panic, wait or not return.\<close>

primrec foreach :: "('i \<Rightarrow> 's \<Rightarrow> 's res) \<Rightarrow> 'i list \<Rightarrow> 's \<Rightarrow> 's res" where
  "foreach f [] s = Ok s"
| "foreach f (i # is) s = bindr (f i s) (foreach f is)"

lemma foreach_append: "foreach f (xs @ ys) s = bindr (foreach f xs s) (foreach f ys)"
  by (induction xs arbitrary: s) (auto simp: bindr_assoc intro!: bindr_cong)

section \<open>Little-endian encodings\<close>

text \<open>
  RISC-V stores the least significant byte first.  \<open>le_bytes n w\<close> is the \<open>n\<close>-byte image of
  \<open>w\<close> in memory and \<open>of_le\<close> reads such an image back.
\<close>

definition le_bytes :: "nat \<Rightarrow> 'a::len word \<Rightarrow> uchar list" where
  "le_bytes n w = map (\<lambda>i. ucast (drop_bit (8 * i) w)) [0..<n]"

primrec of_le :: "uchar list \<Rightarrow> 'a::len word" where
  "of_le [] = 0"
| "of_le (b # bs) = ucast b OR push_bit 8 (of_le bs)"

lemma length_le_bytes [simp]: "length (le_bytes n w) = n"
  by (simp add: le_bytes_def)

lemma nth_le_bytes: "i < n \<Longrightarrow> le_bytes n w ! i = ucast (drop_bit (8 * i) w)"
  by (simp add: le_bytes_def)

lemma bit_of_le:
  "bit (of_le bs :: 'a::len word) k \<longleftrightarrow>
    k < LENGTH('a) \<and> k div 8 < length bs \<and> bit (bs ! (k div 8)) (k mod 8)"
proof (induction bs arbitrary: k)
  case Nil
  then show ?case by simp
next
  case (Cons b bs)
  show ?case
  proof (cases "k < 8")
    case True
    then show ?thesis by (auto simp: bit_simps)
  next
    case False
    then obtain j where k: "k = j + 8" by (metis add.commute le_Suc_ex not_less)
    have "\<not> bit b (j + 8)" using bit_imp_le_length [of b "j + 8"] by auto
    moreover have "(j + 8) div 8 = Suc (j div 8)" by simp
    ultimately show ?thesis using Cons.IH [of j] by (auto simp: k bit_simps)
  qed
qed

theorem of_le_le_bytes:
  assumes "LENGTH('a) \<le> 8 * n"
  shows "of_le (le_bytes n w) = (w :: 'a::len word)"
proof (rule bit_word_eqI)
  fix k assume "k < LENGTH('a)"
  moreover from this assms have "k div 8 < n" by auto
  ultimately show "bit (of_le (le_bytes n w) :: 'a word) k \<longleftrightarrow> bit w k"
    by (simp add: bit_of_le nth_le_bytes bit_simps)
qed

theorem le_bytes_of_le:
  assumes "length bs = n" and "8 * n \<le> LENGTH('a)"
  shows "le_bytes n (of_le bs :: 'a::len word) = bs"
proof (rule nth_equalityI)
  show "length (le_bytes n (of_le bs :: 'a word)) = length bs" using assms by simp
next
  fix i assume "i < length (le_bytes n (of_le bs :: 'a word))"
  then have i: "i < n" by simp
  show "le_bytes n (of_le bs :: 'a word) ! i = bs ! i"
  proof (rule bit_word_eqI)
    fix k assume k: "k < LENGTH(8)"
    then have "(8 * i + k) div 8 = i" and "(8 * i + k) mod 8 = k" by auto
    moreover have "8 * i + k < LENGTH('a)" using i k assms by auto
    ultimately show "bit (le_bytes n (of_le bs :: 'a word) ! i) k \<longleftrightarrow> bit (bs ! i) k"
      using i k assms by (simp add: nth_le_bytes bit_simps bit_of_le)
  qed
qed

lemma of_le_le_bytes16 [simp]: "of_le (le_bytes 2 (w :: ushort)) = w"
  by (rule of_le_le_bytes) simp

lemma of_le_le_bytes32 [simp]: "of_le (le_bytes 4 (w :: uint)) = w"
  by (rule of_le_le_bytes) simp

lemma of_le_le_bytes64 [simp]: "of_le (le_bytes 8 (w :: uint64)) = w"
  by (rule of_le_le_bytes) simp

section \<open>Byte-addressed memory\<close>

type_synonym mem = "uint64 \<Rightarrow> uchar"

definition mread :: "mem \<Rightarrow> uint64 \<Rightarrow> nat \<Rightarrow> uchar list" where
  "mread m a n = map (\<lambda>i. m (a + of_nat i)) [0..<n]"

primrec mwrite :: "mem \<Rightarrow> uint64 \<Rightarrow> uchar list \<Rightarrow> mem" where
  "mwrite m a [] = m"
| "mwrite m a (b # bs) = mwrite (m(a := b)) (a + 1) bs"

definition load64 :: "mem \<Rightarrow> uint64 \<Rightarrow> uint64" where
  "load64 m a = of_le (mread m a 8)"

definition store64 :: "mem \<Rightarrow> uint64 \<Rightarrow> uint64 \<Rightarrow> mem" where
  "store64 m a v = mwrite m a (le_bytes 8 v)"

text \<open>
  \<open>x\<close> lies in the \<open>n\<close> bytes from \<open>a\<close> exactly if \<open>unat (x - a) < n\<close>; the subtraction wraps, so
  the statement needs no bound on \<open>a\<close>.
\<close>

lemma length_mread [simp]: "length (mread m a n) = n"
  by (simp add: mread_def)

lemma nth_mread [simp]: "i < n \<Longrightarrow> mread m a n ! i = m (a + of_nat i)"
  by (simp add: mread_def)

lemma mread_0 [simp]: "mread m a 0 = []"
  by (simp add: mread_def)

lemma mread_Suc: "mread m a (Suc n) = m a # mread m (a + 1) n"
  by (rule nth_equalityI) (auto simp: nth_Cons' of_nat_diff)

lemma mread_cong:
  "(\<And>i. i < n \<Longrightarrow> m (a + of_nat i) = m' (a + of_nat i)) \<Longrightarrow> mread m a n = mread m' a n"
  by (simp add: mread_def)

lemma mwrite_apply:
  assumes "length bs \<le> 18446744073709551616"
  shows "mwrite m a bs x = (if unat (x - a) < length bs then bs ! unat (x - a) else m x)"
  using assms
proof (induction bs arbitrary: m a)
  case Nil
  then show ?case by simp
next
  case (Cons b bs)
  show ?case
  proof (cases "x = a")
    case True
    with Cons show ?thesis by (simp add: unat_minus_1_64)
  next
    case False
    then have "x - a \<noteq> 0" by simp
    then have u: "unat (x - (a + 1)) = unat (x - a) - 1" and "0 < unat (x - a)"
      using unat_minus_one [of "x - a"]
      by (simp_all add: algebra_simps unat_gt_0)
    with False Cons show ?thesis by (auto simp: nth_Cons')
  qed
qed

lemma mread_mwrite_same [mem_simps]:
  assumes "length bs \<le> 18446744073709551616"
  shows "mread (mwrite m a bs) a (length bs) = bs"
proof (rule nth_equalityI)
  fix i assume "i < length (mread (mwrite m a bs) a (length bs))"
  then show "mread (mwrite m a bs) a (length bs) ! i = bs ! i"
    using assms by (simp add: mwrite_apply)
qed simp

lemma load64_store64_same [simp, mem_simps]: "load64 (store64 m a v) a = v"
  using mread_mwrite_same [of "le_bytes 8 v" m a] by (simp add: load64_def store64_def)

lemma store64_apply:
  "store64 m a v x = (if unat (x - a) < 8 then le_bytes 8 v ! unat (x - a) else m x)"
  by (simp add: store64_def mwrite_apply)

end
