(* ===== verification/Riscv.thy ===== *)
theory Riscv
  imports Base
begin

text \<open>
  The paging macros of \<^verbatim>\<open>kernel/riscv.h\<close> and the memory layout of
  \<^verbatim>\<open>kernel/memlayout.h\<close>, on 64-bit words, with what they compute: rounding to
  pages, packing a physical address and flags into a page-table entry and taking them out
  again, and the fact that the three 9-bit indices of an address determine its page.
\<close>

section \<open>Macros\<close>

definition PGSIZE :: uint64 where "PGSIZE = 4096"
definition PGSHIFT :: nat where "PGSHIFT = 12"

definition PGROUNDUP :: "uint64 \<Rightarrow> uint64" where
  "PGROUNDUP sz = (sz + PGSIZE - 1) AND NOT (PGSIZE - 1)"

definition PGROUNDDOWN :: "uint64 \<Rightarrow> uint64" where
  "PGROUNDDOWN a = a AND NOT (PGSIZE - 1)"

definition PTE_V :: uint64 where "PTE_V = push_bit 0 1"
definition PTE_R :: uint64 where "PTE_R = push_bit 1 1"
definition PTE_W :: uint64 where "PTE_W = push_bit 2 1"
definition PTE_X :: uint64 where "PTE_X = push_bit 3 1"
definition PTE_U :: uint64 where "PTE_U = push_bit 4 1"

definition PA2PTE :: "uint64 \<Rightarrow> uint64" where
  "PA2PTE pa = push_bit 10 (drop_bit 12 pa)"

definition PTE2PA :: "uint64 \<Rightarrow> uint64" where
  "PTE2PA pte = push_bit 12 (drop_bit 10 pte)"

definition PTE_FLAGS :: "uint64 \<Rightarrow> uint64" where
  "PTE_FLAGS pte = pte AND 0x3FF"

definition PXMASK :: uint64 where "PXMASK = 0x1FF"

definition PXSHIFT :: "nat \<Rightarrow> nat" where
  "PXSHIFT level = PGSHIFT + 9 * level"

definition PX :: "nat \<Rightarrow> uint64 \<Rightarrow> uint64" where
  "PX level va = drop_bit (PXSHIFT level) va AND PXMASK"

definition MAXVA :: uint64 where "MAXVA = push_bit (9 + 9 + 9 + 12 - 1) 1"

definition KERNBASE :: uint64 where "KERNBASE = 0x80000000"
definition PHYSTOP :: uint64 where "PHYSTOP = KERNBASE + 128 * 1024 * 1024"
definition UART0 :: uint64 where "UART0 = 0x10000000"
definition VIRTIO0 :: uint64 where "VIRTIO0 = 0x10001000"
definition PLIC :: uint64 where "PLIC = 0x0c000000"
definition TRAMPOLINE :: uint64 where "TRAMPOLINE = MAXVA - PGSIZE"
definition KSTACK :: "nat \<Rightarrow> uint64" where
  "KSTACK p = TRAMPOLINE - (of_nat p + 1) * 2 * PGSIZE"
definition TRAPFRAME :: uint64 where "TRAPFRAME = TRAMPOLINE - PGSIZE"
definition NPROC :: nat where "NPROC = 64"

lemma mask12: "(4095 :: uint64) = mask 12"
  by (simp add: mask_eq_exp_minus_1)


lemma PGROUNDDOWN_div: "PGROUNDDOWN a = a div 4096 * 4096"
proof -
  have "PGROUNDDOWN a = push_bit 12 (drop_bit 12 a)"
    by (rule bit_word_eqI) (auto simp: PGROUNDDOWN_def PGSIZE_def mask12 bit_simps)
  then show ?thesis
    by (simp add: push_bit_eq_mult drop_bit_eq_div)
qed

lemma unat_PGROUNDDOWN: "unat (PGROUNDDOWN a) = unat a div 4096 * 4096"
proof -
  have "unat a div 4096 * 4096 < 18446744073709551616"
    using unat64_bound [of a] div_times_less_eq_dividend [of "unat a" 4096] by (simp add: order_le_less_trans)
  then show ?thesis
    by (simp add: PGROUNDDOWN_div unat_word_ariths unat_div)
qed

definition page_aligned :: "uint64 \<Rightarrow> bool" where
  "page_aligned a \<longleftrightarrow> a mod PGSIZE = 0"

lemma aligned_unat: "page_aligned a \<longleftrightarrow> unat a mod 4096 = 0"
  by (simp add: page_aligned_def PGSIZE_def word_unat_eq_iff unat_mod)

lemma aligned_multiple: "page_aligned a \<Longrightarrow> \<exists>k. unat a = 4096 * k"
  by (auto simp: aligned_unat mod_eq_0_iff_dvd)

lemma unat_sub_cases:
  "unat (x - p :: uint64) =
    (if unat p \<le> unat x then unat x - unat p else unat x + 18446744073709551616 - unat p)"
  by (simp add: unat_sub_if' word_le_nat_alt)

lemma div4096_mult_iff: "(x :: nat) div 4096 * 4096 = p \<longleftrightarrow> p mod 4096 = 0 \<and> p \<le> x \<and> x < p + 4096"
proof
  assume "x div 4096 * 4096 = p"
  then show "p mod 4096 = 0 \<and> p \<le> x \<and> x < p + 4096"
    using div_times_less_eq_dividend [of x 4096] dividend_less_div_times [of 4096 x] by auto
next
  assume p: "p mod 4096 = 0 \<and> p \<le> x \<and> x < p + 4096"
  then obtain k where k: "p = 4096 * k" by (auto simp: mod_eq_0_iff_dvd)
  with p have "x div 4096 = k" by (intro div_nat_eqI) auto
  with k show "x div 4096 * 4096 = p" by simp
qed

lemma in_page_iff:
  assumes "page_aligned p"
  shows "unat (x - p) < 4096 \<longleftrightarrow> PGROUNDDOWN x = p"
proof -
  from assms have "unat p mod 4096 = 0" by (simp add: aligned_unat)
  then obtain k where k: "unat p = 4096 * k" by (auto simp: mod_eq_0_iff_dvd)
  have "unat x < 18446744073709551616" and "unat p < 18446744073709551616"
    by (rule unat64_bound)+
  then have "unat (x - p) < 4096 \<longleftrightarrow> unat p \<le> unat x \<and> unat x < unat p + 4096"
    by (auto simp: unat_sub_cases k)
  also have "\<dots> \<longleftrightarrow> unat x div 4096 * 4096 = unat p"
    by (simp add: div4096_mult_iff k)
  also have "\<dots> \<longleftrightarrow> PGROUNDDOWN x = p"
    by (auto simp: word_unat_eq_iff unat_PGROUNDDOWN)
  finally show ?thesis .
qed

section \<open>Page-table entries and indices\<close>

lemma mask10: "(1023 :: uint64) = mask 10"
  by (simp add: mask_eq_exp_minus_1)

lemma mask9: "(511 :: uint64) = mask 9"
  by (simp add: mask_eq_exp_minus_1)

lemma bit_push_1: "bit (push_bit n 1 :: uint64) k \<longleftrightarrow> k = n \<and> n < 64"
  by (auto simp: bit_exp_iff possible_bit_word)

lemma PTE_bit: "bit PTE_V k = (k = 0)" "bit PTE_R k = (k = 1)" "bit PTE_W k = (k = 2)"
  "bit PTE_X k = (k = 3)" "bit PTE_U k = (k = 4)"
  unfolding PTE_V_def PTE_R_def PTE_W_def PTE_X_def PTE_U_def bit_push_1 by auto

lemma aligned_bit: "page_aligned p \<longleftrightarrow> (\<forall>k < 12. \<not> bit p k)"
proof -
  have "page_aligned p \<longleftrightarrow> take_bit 12 p = 0"
    by (simp add: page_aligned_def PGSIZE_def take_bit_eq_mod)
  also have "\<dots> \<longleftrightarrow> (\<forall>k < 12. \<not> bit p k)"
    by (auto simp: bit_eq_iff bit_simps)
  finally show ?thesis .
qed

lemma PTE_roundtrip:
  assumes "page_aligned p" and "PTE_FLAGS fl = fl"
  shows "PTE2PA (PA2PTE p OR fl) = p" and "PTE_FLAGS (PA2PTE p OR fl) = fl"
proof -
  have fl: "bit fl k \<Longrightarrow> k < 10" for k
    using assms(2) by (metis PTE_FLAGS_def mask10 bit_and_iff bit_mask_iff)
  have p: "bit p k \<Longrightarrow> 12 \<le> k" for k
    using assms(1) aligned_bit not_less by blast
  show "PTE2PA (PA2PTE p OR fl) = p"
  proof (rule bit_word_eqI)
    fix n assume "n < LENGTH(64)"
    then show "bit (PTE2PA (PA2PTE p OR fl)) n = bit p n"
      using fl [of "10 + (n - 12)"] p [of n]
      by (cases "12 \<le> n") (auto simp: PTE2PA_def PA2PTE_def bit_simps)
  qed
  show "PTE_FLAGS (PA2PTE p OR fl) = fl"
    by (rule bit_word_eqI) (auto simp: PTE_FLAGS_def PA2PTE_def bit_simps mask10 dest: fl)
qed

lemma PTE2PA_aligned: "page_aligned (PTE2PA e)"
  by (simp add: aligned_bit PTE2PA_def bit_simps)

lemma PX_bound: "unat (PX l va) < 512"
proof -
  have "PX l va = take_bit 9 (drop_bit (PXSHIFT l) va)"
    by (simp add: PX_def PXMASK_def mask9 take_bit_eq_mask)
  then show ?thesis
    using take_bit_nat_less_exp [of 9 "unat (drop_bit (PXSHIFT l) va)"]
    by (simp add: unsigned_take_bit_eq)
qed

lemma PX_inj:
  assumes "va < MAXVA" and "va' < MAXVA" and "\<And>l. l \<le> 2 \<Longrightarrow> PX l va = PX l va'"
  shows "PGROUNDDOWN va = PGROUNDDOWN va'"
proof (rule bit_word_eqI)
  fix n assume n: "n < LENGTH(64)"
  have hi: "\<not> bit x n" if "x < MAXVA" "38 \<le> n" for x
  proof -
    from that(1) have "take_bit 38 x = x"
      by (simp add: MAXVA_def take_bit_eq_mod mod_word_less)
    then show ?thesis using that(2) by (metis bit_take_bit_iff not_less)
  qed
  have px: "bit (PX l x) j \<longleftrightarrow> j < 9 \<and> bit x (12 + 9 * l + j)" for l j x
    by (auto simp: PX_def PXMASK_def mask9 PXSHIFT_def PGSHIFT_def bit_simps)
  have "bit va n = bit va' n" if "12 \<le> n" "n < 39"
  proof -
    have "n = 12 + 9 * ((n - 12) div 9) + (n - 12) mod 9" and "(n - 12) div 9 \<le> 2"
      using that by auto
    then show ?thesis
      using px [of "(n - 12) div 9" va "(n - 12) mod 9"] px [of "(n - 12) div 9" va' "(n - 12) mod 9"]
        assms(3) [of "(n - 12) div 9"] by simp
  qed
  then show "bit (PGROUNDDOWN va) n = bit (PGROUNDDOWN va') n"
    using n hi [of va] hi [of va'] assms(1,2)
    by (cases "38 \<le> n") (auto simp: PGROUNDDOWN_def PGSIZE_def mask12 bit_simps)
qed

end
