(* ===== verification/Kstring.thy ===== *)
theory Kstring
  imports Base
begin

text \<open>
  The routines of \<^verbatim>\<open>kernel/string.c\<close>, over the byte-addressed memory of the prelude.
  A pointer is an address, a loop is a recursion on the number of bytes left, and a routine
  that writes returns the new memory.  \<^verbatim>\<open>strlen\<close> runs until it meets a zero byte, so
  it is a partial function.
\<close>

section \<open>The routines\<close>

fun memset_loop :: "uint64 \<Rightarrow> uchar \<Rightarrow> nat \<Rightarrow> mem \<Rightarrow> mem" where
  "memset_loop cdst c 0 m = m"
| "memset_loop cdst c (Suc n) m = memset_loop (cdst + 1) c n (m(cdst := c))"

definition memset :: "uint64 \<Rightarrow> uint \<Rightarrow> uint \<Rightarrow> mem \<Rightarrow> mem" where
  "memset dst c n m = memset_loop dst (ucast c) (unat n) m"

fun memcmp_loop :: "mem \<Rightarrow> uint64 \<Rightarrow> uint64 \<Rightarrow> nat \<Rightarrow> int" where
  "memcmp_loop m s1 s2 0 = 0"
| "memcmp_loop m s1 s2 (Suc n) =
    (if m s1 \<noteq> m s2 then uint (m s1) - uint (m s2) else memcmp_loop m (s1 + 1) (s2 + 1) n)"

definition memcmp :: "mem \<Rightarrow> uint64 \<Rightarrow> uint64 \<Rightarrow> uint \<Rightarrow> int" where
  "memcmp m v1 v2 n = memcmp_loop m v1 v2 (unat n)"

fun copy_down :: "uint64 \<Rightarrow> uint64 \<Rightarrow> nat \<Rightarrow> mem \<Rightarrow> mem" where
  "copy_down d s 0 m = m"
| "copy_down d s (Suc n) m = copy_down (d - 1) (s - 1) n (m(d - 1 := m (s - 1)))"

fun copy_up :: "uint64 \<Rightarrow> uint64 \<Rightarrow> nat \<Rightarrow> mem \<Rightarrow> mem" where
  "copy_up d s 0 m = m"
| "copy_up d s (Suc n) m = copy_up (d + 1) (s + 1) n (m(d := m s))"

definition memmove :: "uint64 \<Rightarrow> uint64 \<Rightarrow> uint \<Rightarrow> mem \<Rightarrow> mem" where
  "memmove dst src n m =
    (if src < dst \<and> src + ucast n > dst
     then copy_down (dst + ucast n) (src + ucast n) (unat n) m
     else copy_up dst src (unat n) m)"

definition memcpy :: "uint64 \<Rightarrow> uint64 \<Rightarrow> uint \<Rightarrow> mem \<Rightarrow> mem" where
  "memcpy dst src n m = memmove dst src n m"

fun strncmp_loop :: "mem \<Rightarrow> uint64 \<Rightarrow> uint64 \<Rightarrow> nat \<Rightarrow> int" where
  "strncmp_loop m p q 0 = 0"
| "strncmp_loop m p q (Suc n) =
    (if m p \<noteq> 0 \<and> m p = m q then strncmp_loop m (p + 1) (q + 1) n
     else uint (m p) - uint (m q))"

definition strncmp :: "mem \<Rightarrow> uint64 \<Rightarrow> uint64 \<Rightarrow> uint \<Rightarrow> int" where
  "strncmp m p q n = strncmp_loop m p q (unat n)"

text \<open>
  The two loops of \<^verbatim>\<open>strncpy\<close>: the first copies up to and including a zero byte and
  leaves the number of bytes still to be written, the second pads with zeros.
\<close>

fun strncpy_copy :: "uint64 \<Rightarrow> uint64 \<Rightarrow> nat \<Rightarrow> mem \<Rightarrow> mem \<times> uint64 \<times> nat" where
  "strncpy_copy s t 0 m = (m, s, 0)"
| "strncpy_copy s t (Suc n) m =
    (if m t \<noteq> 0 then strncpy_copy (s + 1) (t + 1) n (m(s := m t))
     else (m(s := m t), s + 1, n))"

fun strncpy_pad :: "uint64 \<Rightarrow> nat \<Rightarrow> mem \<Rightarrow> mem" where
  "strncpy_pad s 0 m = m"
| "strncpy_pad s (Suc n) m = strncpy_pad (s + 1) n (m(s := 0))"

definition strncpy :: "uint64 \<Rightarrow> uint64 \<Rightarrow> int \<Rightarrow> mem \<Rightarrow> mem" where
  "strncpy s t n m =
    (case strncpy_copy s t (nat n) m of (m', s', n') \<Rightarrow> strncpy_pad s' n' m')"

text \<open>
  \<^verbatim>\<open>safestrcpy\<close> tests \<^verbatim>\<open>--n > 0\<close>, so at most \<open>n - 1\<close> bytes are copied; the pointer
  \<open>s\<close> at the end of the loop is where the terminating zero goes.
\<close>

fun safestrcpy_copy :: "uint64 \<Rightarrow> uint64 \<Rightarrow> nat \<Rightarrow> mem \<Rightarrow> mem \<times> uint64" where
  "safestrcpy_copy s t 0 m = (m, s)"
| "safestrcpy_copy s t (Suc n) m =
    (if m t \<noteq> 0 then safestrcpy_copy (s + 1) (t + 1) n (m(s := m t))
     else (m(s := m t), s + 1))"

definition safestrcpy :: "uint64 \<Rightarrow> uint64 \<Rightarrow> int \<Rightarrow> mem \<Rightarrow> mem" where
  "safestrcpy s t n m =
    (if n \<le> 0 then m
     else let r = safestrcpy_copy s t (nat n - 1) m in (fst r)(snd r := 0))"

partial_function (option) strlen_loop :: "mem \<Rightarrow> uint64 \<Rightarrow> nat \<Rightarrow> nat option" where
  "strlen_loop m s n = (if m (s + of_nat n) \<noteq> 0 then strlen_loop m s (Suc n) else Some n)"

definition strlen :: "mem \<Rightarrow> uint64 \<Rightarrow> nat option" where
  "strlen m s = strlen_loop m s 0"

section \<open>Filling and comparing\<close>

lemma memset_loop_mwrite: "memset_loop a c n m = mwrite m a (replicate n c)"
  by (induction n arbitrary: a m) auto

lemma memset_apply [mem_simps]:
  "memset dst c n m x = (if unat (x - dst) < unat n then ucast c else m x)"
  using unat32_bound [of n] by (simp add: memset_def memset_loop_mwrite mwrite_apply)

lemma memcmp_loop_zero: "memcmp_loop m s1 s2 n = 0 \<longleftrightarrow> mread m s1 n = mread m s2 n"
  by (induction m s1 s2 n rule: memcmp_loop.induct) (auto simp: mread_Suc)

lemma strncmp_loop_zero:
  "strncmp_loop m p q n = 0 \<longleftrightarrow>
    takeWhile (\<lambda>c. c \<noteq> 0) (mread m p n) = takeWhile (\<lambda>c. c \<noteq> 0) (mread m q n)"
  by (induction m p q n rule: strncmp_loop.induct) (auto simp: mread_Suc)

section \<open>Copying\<close>

text \<open>
  Copying upwards is right unless the destination starts inside the source, copying
  downwards unless the source starts inside the destination; \<^verbatim>\<open>memmove\<close> chooses.
\<close>

lemma copy_up_apply:
  assumes "d = s \<or> n \<le> unat (d - s)" and "n \<le> 4294967296"
  shows "copy_up d s n m x = (if unat (x - d) < n then m (s + (x - d)) else m x)"
  using assms
proof (induction n arbitrary: d s m)
  case 0
  then show ?case by simp
next
  case (Suc n)
  have IH: "copy_up (d + 1) (s + 1) n (m(d := m s)) x =
      (if unat (x - (d + 1)) < n then (m(d := m s)) (s + 1 + (x - (d + 1))) else (m(d := m s)) x)"
    using Suc.prems by (intro Suc.IH) (auto simp: algebra_simps)
  show ?case
  proof (cases "x = d")
    case True
    then show ?thesis using IH Suc.prems by (simp add: unat_minus_1_64)
  next
    case False
    then have "x - d \<noteq> 0" by simp
    then have u: "unat (x - (d + 1)) = unat (x - d) - 1" and pos: "0 < unat (x - d)"
      using unat_minus_one [of "x - d"] by (simp_all add: algebra_simps unat_gt_0)
    have ne: "unat (x - d) < Suc n \<Longrightarrow> s + (x - d) \<noteq> d"
    proof
      assume "unat (x - d) < Suc n" and "s + (x - d) = d"
      then have "x - d = d - s" by (simp add: algebra_simps)
      with \<open>unat (x - d) < Suc n\<close> pos Suc.prems show False by auto
    qed
    have "s + 1 + (x - (d + 1)) = s + (x - d)" by (simp add: algebra_simps)
    then show ?thesis using False IH u pos ne by auto
  qed
qed

lemma copy_down_apply:
  assumes "d = s \<or> n \<le> unat (s - d)" and "n \<le> 4294967296"
  shows "copy_down (d + of_nat n) (s + of_nat n) n m x =
    (if unat (x - d) < n then m (s + (x - d)) else m x)"
  using assms
proof (induction n arbitrary: m)
  case 0
  then show ?case by simp
next
  case (Suc n)
  let ?m = "m(d + of_nat n := m (s + of_nat n))"
  have IH: "copy_down (d + of_nat n) (s + of_nat n) n ?m x =
      (if unat (x - d) < n then ?m (s + (x - d)) else ?m x)"
    using Suc.prems by (intro Suc.IH) auto
  have eq: "x = d + of_nat n \<longleftrightarrow> unat (x - d) = n"
    using Suc.prems by (auto dest!: unat_eq_imp simp: algebra_simps)
  have ne: "unat (x - d) < n \<Longrightarrow> s + (x - d) \<noteq> d + of_nat n"
  proof
    assume lt: "unat (x - d) < n" and "s + (x - d) = d + of_nat n"
    then have "s - d = of_nat n - (x - d)" by (simp add: algebra_simps)
    then have "s - d = of_nat (n - unat (x - d))"
      using lt by (simp add: of_nat_diff)
    then have "unat (s - d) = n - unat (x - d)"
      using Suc.prems by simp
    with lt Suc.prems show False by auto
  qed
  show ?case using IH eq ne by (auto simp: algebra_simps)
qed

lemma memmove_apply:
  assumes "unat src + unat n \<le> 18446744073709551616"
    and "unat dst + unat n \<le> 18446744073709551616"
  shows "memmove dst src n m x = (if unat (x - dst) < unat n then m (src + (x - dst)) else m x)"
proof -
  have n: "unat n \<le> 4294967296" using unat32_bound [of n] by simp
  show ?thesis
  proof (cases "src < dst \<and> src + ucast n > dst")
    case True
    then have "unat n \<le> unat (src - dst)"
      using assms by (auto simp: unat_sub_if' word_le_nat_alt word_less_nat_alt)
    with copy_down_apply [of dst src "unat n" m x] n True show ?thesis
      by (simp add: memmove_def)
  next
    case False
    have "dst = src \<or> unat n \<le> unat (dst - src)"
    proof (cases "src < dst")
      case True
      with False have "src + ucast n \<le> dst" by simp
      moreover have "unat (src + ucast n) = unat src + unat n"
        using True assms by (simp add: unat_word_ariths word_less_nat_alt)
      ultimately show ?thesis using True
        by (auto simp: unat_sub_if' word_le_nat_alt word_less_nat_alt)
    next
      case False
      then show ?thesis using assms
        by (auto simp: unat_sub_if' word_le_nat_alt word_less_nat_alt word_unat_eq_iff)
    qed
    with copy_up_apply [of dst src "unat n" m x] n False show ?thesis
      unfolding memmove_def by (simp only: if_False)
  qed
qed

section \<open>Strings\<close>

text \<open>What \<^verbatim>\<open>strncpy\<close> leaves in an \<open>n\<close>-byte field: the string, padded with zeros.\<close>

definition cstr :: "uchar list \<Rightarrow> uchar list" where
  "cstr bs = takeWhile (\<lambda>c. c \<noteq> 0) bs"

definition padded :: "nat \<Rightarrow> uchar list \<Rightarrow> uchar list" where
  "padded n bs = (let u = cstr (take n bs) in u @ replicate (n - length u) 0)"

lemma cstr_Nil [simp]: "cstr [] = []"
  by (simp add: cstr_def)

lemma length_cstr: "length (cstr bs) \<le> length bs"
  by (simp add: cstr_def length_takeWhile_le)

lemma length_padded [simp]: "length (padded n bs) = n"
  using length_cstr [of "take n bs"] by (simp add: padded_def Let_def)

lemma cstr_append_zero: "0 \<notin> set u \<Longrightarrow> cstr (u @ replicate k 0) = u"
  by (cases k) (auto simp: cstr_def takeWhile_eq_all_conv intro!: takeWhile_append2 [THEN trans])

lemma cstr_snoc_zero: "cstr (u @ [0]) = cstr u"
  by (induction u) (auto simp: cstr_def)

lemma cstr_padded: "cstr (padded n bs) = cstr (take n bs)"
  unfolding padded_def Let_def
  by (rule cstr_append_zero) (auto simp: cstr_def dest: set_takeWhileD)

lemma strncpy_pad_mwrite: "strncpy_pad s n m = mwrite m s (replicate n 0)"
  by (induction n arbitrary: s m) auto

lemma padded_Cons: "padded (Suc n) (b # bs) =
    (if b \<noteq> 0 then b # padded n bs else replicate (Suc n) 0)"
  by (auto simp: padded_def cstr_def Let_def)

lemma mread_upd_outside:
  assumes "Suc n \<le> unat (s - t)" and "Suc n \<le> 4294967296"
  shows "mread (m(s := v)) (t + 1) n = mread m (t + 1) n"
proof (rule mread_cong)
  fix i assume i: "i < n"
  have "t + 1 + of_nat i \<noteq> s"
  proof
    assume "t + 1 + of_nat i = s"
    then have "s - t = of_nat (Suc i)" by auto
    then have "unat (s - t) = Suc i" using i assms by (simp del: of_nat_Suc)
    with i assms show False by simp
  qed
  then show "(m(s := v)) (t + 1 + of_nat i) = m (t + 1 + of_nat i)" by simp
qed

lemma strncpy_loops:
  assumes "n \<le> unat (s - t)" and "n \<le> 4294967296"
  shows "(case strncpy_copy s t n m of (m', s', n') \<Rightarrow> strncpy_pad s' n' m') =
    mwrite m s (padded n (mread m t n))"
  using assms
proof (induction n arbitrary: s t m)
  case 0
  then show ?case by (simp add: padded_def Let_def)
next
  case (Suc n)
  have "mread (m(s := m t)) (t + 1) n = mread m (t + 1) n"
    using Suc.prems by (rule mread_upd_outside)
  then show ?case using Suc by (simp add: mread_Suc padded_Cons strncpy_pad_mwrite)
qed

lemma strncpy_pads:
  assumes "nat n \<le> unat (s - t)" and "n \<le> 4294967296"
  shows "strncpy s t n m = mwrite m s (padded (nat n) (mread m t (nat n)))"
  unfolding strncpy_def using assms by (intro strncpy_loops) auto

text \<open>
  \<^verbatim>\<open>safestrcpy\<close> leaves the same string cut to \<open>n - 1\<close> bytes and always terminates it
  within the \<open>n\<close> bytes of the destination.
\<close>

lemma safestrcpy_loops:
  assumes "Suc n \<le> unat (s - t)" and "Suc n \<le> 4294967296"
  shows "\<exists>u. (fst (safestrcpy_copy s t n m))(snd (safestrcpy_copy s t n m) := 0) =
      mwrite m s (u @ [0]) \<and>
    length u \<le> n \<and> cstr u = cstr (mread m t n)"
  using assms
proof (induction n arbitrary: s t m)
  case 0
  then show ?case by (intro exI [of _ "[]"]) simp
next
  case (Suc n)
  have r: "mread (m(s := m t)) (t + 1) n = mread m (t + 1) n"
    using Suc.prems by (intro mread_upd_outside) auto
  show ?case
  proof (cases "m t = 0")
    case True
    then show ?thesis
      by (intro exI [of _ "[0]"]) (simp add: mread_Suc cstr_def fun_eq_iff)
  next
    case False
    have "Suc n \<le> unat (s + 1 - (t + 1))" and "Suc n \<le> 4294967296" using Suc.prems by auto
    from Suc.IH [OF this, of "m(s := m t)"] obtain u where
      "(fst (safestrcpy_copy (s + 1) (t + 1) n (m(s := m t))))
          (snd (safestrcpy_copy (s + 1) (t + 1) n (m(s := m t))) := 0) =
        mwrite (m(s := m t)) (s + 1) (u @ [0])"
      and "length u \<le> n" and "cstr u = cstr (mread m (t + 1) n)"
      unfolding r by blast
    with False show ?thesis
      by (intro exI [of _ "m t # u"]) (simp add: mread_Suc cstr_def)
  qed
qed

lemma safestrcpy_result:
  assumes "0 < n" and "nat n \<le> unat (s - t)" and "n \<le> 4294967296"
  shows "\<exists>u. safestrcpy s t n m = mwrite m s (u @ [0]) \<and> length (u @ [0]) \<le> nat n \<and>
    cstr u = cstr (mread m t (nat n - 1))"
proof -
  have "Suc (nat n - 1) = nat n" using assms by auto
  moreover have "nat n \<le> 4294967296" using assms by auto
  ultimately show ?thesis
    using safestrcpy_loops [of "nat n - 1" s t m] assms by (auto simp: safestrcpy_def Let_def)
qed

lemma strlen_loop_Some:
  assumes "strlen_loop m s n = Some k"
  shows "n \<le> k \<and> m (s + of_nat k) = 0 \<and> (\<forall>i. n \<le> i \<and> i < k \<longrightarrow> m (s + of_nat i) \<noteq> 0)"
proof (rule strlen_loop.raw_induct [where P = "\<lambda>m s n k. n \<le> k \<and> m (s + of_nat k) = 0 \<and>
    (\<forall>i. n \<le> i \<and> i < k \<longrightarrow> m (s + of_nat i) \<noteq> 0)", OF _ assms])
  fix f m s n k
  assume IH: "\<And>m s n k. f m s n = Some k \<Longrightarrow> n \<le> k \<and> m (s + of_nat k) = 0 \<and>
      (\<forall>i. n \<le> i \<and> i < k \<longrightarrow> m (s + of_nat i) \<noteq> 0)"
    and eq: "(if m (s + of_nat n) \<noteq> 0 then f m s (Suc n) else Some n) = Some k"
  show "n \<le> k \<and> m (s + of_nat k) = 0 \<and> (\<forall>i. n \<le> i \<and> i < k \<longrightarrow> m (s + of_nat i) \<noteq> 0)"
  proof (cases "m (s + of_nat n) = 0")
    case True
    with eq show ?thesis by auto
  next
    case False
    with eq IH [of m s "Suc n" k] show ?thesis
      by (auto simp: Suc_le_eq) (metis Suc_leI le_neq_implies_less)
  qed
qed

lemma strlen_loop_finds:
  assumes "m (s + of_nat k) = 0" and "\<And>i. i < k \<Longrightarrow> m (s + of_nat i) \<noteq> 0" and "n \<le> k"
  shows "strlen_loop m s n = Some k"
  using assms(3)
proof (induction "k - n" arbitrary: n)
  case 0
  with assms show ?case by (subst strlen_loop.simps) simp
next
  case (Suc d)
  then have "strlen_loop m s (Suc n) = Some k" by (intro Suc.hyps) auto
  moreover have "m (s + of_nat n) \<noteq> 0" using Suc assms(2) by simp
  ultimately show ?case by (subst strlen_loop.simps) simp
qed

lemma strlen_iff:
  "strlen m s = Some k \<longleftrightarrow> m (s + of_nat k) = 0 \<and> (\<forall>i < k. m (s + of_nat i) \<noteq> 0)"
proof
  assume "strlen m s = Some k"
  then show "m (s + of_nat k) = 0 \<and> (\<forall>i < k. m (s + of_nat i) \<noteq> 0)"
    using strlen_loop_Some [of m s 0 k] by (simp add: strlen_def)
next
  assume "m (s + of_nat k) = 0 \<and> (\<forall>i < k. m (s + of_nat i) \<noteq> 0)"
  then show "strlen m s = Some k"
    unfolding strlen_def by (intro strlen_loop_finds) simp_all
qed

section \<open>Properties\<close>

text \<open>
  Claim C12.  \<^verbatim>\<open>memmove\<close> copies the \<open>n\<close> source bytes as they were before the call to the
  destination and changes nothing else, also when the two ranges overlap, as long as neither
  range runs past the end of the address space.
\<close>

theorem memmove_overlap_safe:
  assumes "unat src + unat n \<le> 18446744073709551616"
    and "unat dst + unat n \<le> 18446744073709551616"
  shows "mread (memmove dst src n m) dst (unat n) = mread m src (unat n) \<and>
    (\<forall>x. \<not> unat (x - dst) < unat n \<longrightarrow> memmove dst src n m x = m x)"
proof
  show "mread (memmove dst src n m) dst (unat n) = mread m src (unat n)"
    using unat32_bound [of n]
    by (intro nth_equalityI) (simp_all add: memmove_apply [OF assms])
  show "\<forall>x. \<not> unat (x - dst) < unat n \<longrightarrow> memmove dst src n m x = m x"
    by (simp add: memmove_apply [OF assms])
qed

theorem memmove_overlap_safe_witness:
  "mread (memmove 102 100 4 (\<lambda>a. ucast a)) 102 4 = [100, 101, 102, 103]"
proof -
  have "mread (memmove 102 100 4 (\<lambda>a. ucast a)) 102 (unat (4 :: uint)) =
      mread (\<lambda>a. ucast a) 100 (unat (4 :: uint))"
    using memmove_overlap_safe [of 100 4 102 "\<lambda>a. ucast a"] by simp
  then show ?thesis by (simp add: mread_def upt_rec)
qed

text \<open>
  Claim C18.  \<^verbatim>\<open>strncpy\<close> into a field and \<^verbatim>\<open>strncmp\<close> over it agree: after
  copying the string at \<open>t\<close> into an \<open>n\<close>-byte field that does not overlap it, comparing any
  string \<open>q\<close> outside the field with the field gives 0 exactly if \<open>q\<close> and \<open>t\<close> are the same up to the
  first zero byte or \<open>n\<close> bytes.  This is how directory entries store and match names.
\<close>

theorem strncmp_after_strncpy:
  assumes "unat n \<le> unat (s - t)" and "\<And>i. i < unat n \<Longrightarrow> \<not> unat (q + of_nat i - s) < unat n"
  shows "strncmp (strncpy s t (uint n) m) q s n = 0 \<longleftrightarrow>
    cstr (mread m q (unat n)) = cstr (mread m t (unat n))"
proof -
  let ?p = "padded (unat n) (mread m t (unat n))"
  let ?m = "mwrite m s ?p"
  have n: "unat n < 4294967296" by (rule unat32_bound)
  have "strncpy s t (uint n) m = ?m"
    using assms(1) n strncpy_pads [of "uint n" s t m] uint32_bound [of n] by simp
  moreover have "mread ?m s (unat n) = ?p"
    using n mread_mwrite_same [of ?p m s] by simp
  moreover have "mread ?m q (unat n) = mread m q (unat n)"
    using n assms(2) by (intro mread_cong) (simp add: mwrite_apply)
  ultimately show ?thesis
    using cstr_padded [of "unat n" "mread m t (unat n)"]
    by (simp add: strncmp_def strncmp_loop_zero flip: cstr_def)
qed

theorem strncmp_after_strncpy_witness:
  "strncmp (strncpy 1000 0 (uint (14 :: uint)) (\<lambda>a. if a = 2 then 0 else 97)) 20 1000 14 \<noteq> 0"
proof -
  let ?m = "\<lambda>a :: uint64. if a = 2 then 0 else 97 :: uchar"
  have out: "\<not> unat (20 + of_nat i - 1000 :: uint64) < unat (14 :: uint)" if "i < unat (14 :: uint)" for i
  proof -
    from that have "i \<in> set [0..<14]" by simp
    then show ?thesis by (simp add: upt_rec) (elim disjE; simp)
  qed
  have "cstr (mread ?m 20 (unat (14 :: uint))) \<noteq> cstr (mread ?m 0 (unat (14 :: uint)))"
    by (simp add: mread_def upt_rec cstr_def)
  then show ?thesis using strncmp_after_strncpy [of 14 1000 0 20 ?m] out by simp
qed

text \<open>
  Claim C19.  \<^verbatim>\<open>safestrcpy\<close> with a positive size leaves a terminated string: it writes at
  most \<open>n\<close> bytes, the last of them zero, and the string it leaves is the source string cut to
  \<open>n - 1\<close> bytes.
\<close>

theorem safestrcpy_terminates:
  assumes "0 < n" and "nat n \<le> unat (s - t)" and "n \<le> 4294967296"
  shows "\<exists>u. safestrcpy s t n m = mwrite m s (u @ [0]) \<and> length (u @ [0]) \<le> nat n \<and>
    cstr (u @ [0]) = cstr (mread m t (nat n - 1))"
  using safestrcpy_result [OF assms, of m] by (auto simp: cstr_snoc_zero)

theorem safestrcpy_terminates_witness:
  "\<exists>u. safestrcpy 100 0 4 (\<lambda>_. 65) = mwrite (\<lambda>_. 65) 100 (u @ [0]) \<and> length (u @ [0]) \<le> 4 \<and>
    cstr (u @ [0]) = [65, 65, 65]"
proof -
  have "cstr (mread (\<lambda>_. 65) 0 (nat 4 - 1)) = [65, 65, 65]"
    by (simp add: mread_def upt_rec cstr_def)
  then show ?thesis using safestrcpy_terminates [of 4 100 0 "\<lambda>_. 65"] by auto
qed

end
