(* ===== verification/Kalloc.thy ===== *)
theory Kalloc
  imports Riscv Kstring
begin

text \<open>
  The physical page allocator, \<^verbatim>\<open>kernel/kalloc.c\<close>.  The free list is threaded
  through the free pages themselves: \<open>freelist\<close> is \<^verbatim>\<open>kmem.freelist\<close> (0 for the null
  pointer) and the link of a free page is the 64-bit word at its start.  \<open>kend\<close> is the
  linker symbol \<^verbatim>\<open>end\<close>.  The critical sections of \<^verbatim>\<open>kmem.lock\<close> are single
  steps of the model.
\<close>

record mach =
  pmem :: mem
  freelist :: uint64
  kend :: uint64

definition kfree :: "uint64 \<Rightarrow> 'a mach_scheme \<Rightarrow> 'a mach_scheme res" where
  "kfree pa s =
    (if pa mod PGSIZE \<noteq> 0 \<or> pa < kend s \<or> pa \<ge> PHYSTOP then Panic ''kfree''
     else
       let m = memset pa 1 4096 (pmem s);
           r = pa;
           m = store64 m r (freelist s)
       in Ok (s\<lparr>pmem := m, freelist := r\<rparr>))"

definition kalloc :: "'a mach_scheme \<Rightarrow> uint64 \<times> 'a mach_scheme" where
  "kalloc s =
    (let r = freelist s;
         s = (if r \<noteq> 0 then s\<lparr>freelist := load64 (pmem s) r\<rparr> else s);
         s = (if r \<noteq> 0 then s\<lparr>pmem := memset r 5 4096 (pmem s)\<rparr> else s)
     in (r, s))"

text \<open>
  The loop of \<^verbatim>\<open>freerange\<close> compares pointers, which do not wrap, so its guard is
  read over the naturals.
\<close>

function freerange_loop :: "uint64 \<Rightarrow> uint64 \<Rightarrow> 'a mach_scheme \<Rightarrow> 'a mach_scheme res" where
  "freerange_loop p pa_end s =
    (if unat p + 4096 \<le> unat pa_end
     then bindr (kfree p s) (\<lambda>s. freerange_loop (p + PGSIZE) pa_end s)
     else Ok s)"
  by pat_completeness auto
termination
proof (relation "measure (\<lambda>(p, pa_end, s). unat pa_end - unat p)")
  fix p pa_end :: uint64 and s x :: "'a mach_scheme"
  assume g: "unat p + 4096 \<le> unat pa_end"
  then have "unat (p + PGSIZE) = unat p + 4096"
    using unat64_bound [of pa_end] by (simp add: PGSIZE_def unat_word_ariths)
  with g show "((p + PGSIZE, pa_end, x), p, pa_end, s) \<in> measure (\<lambda>(p, pa_end, s). unat pa_end - unat p)"
    by simp
qed simp

declare freerange_loop.simps [simp del]

definition freerange :: "uint64 \<Rightarrow> uint64 \<Rightarrow> 'a mach_scheme \<Rightarrow> 'a mach_scheme res" where
  "freerange pa_start pa_end s = freerange_loop (PGROUNDUP pa_start) pa_end s"

definition kinit :: "'a mach_scheme \<Rightarrow> 'a mach_scheme res" where
  "kinit s = freerange (kend s) PHYSTOP s"

section \<open>The free list as a list of pages\<close>

definition page_ok :: "uint64 \<Rightarrow> uint64 \<Rightarrow> bool" where
  "page_ok ke p \<longleftrightarrow> page_aligned p \<and> ke \<le> p \<and> p < PHYSTOP"

primrec linked :: "mem \<Rightarrow> uint64 \<Rightarrow> uint64 list \<Rightarrow> bool" where
  "linked m r [] \<longleftrightarrow> r = 0"
| "linked m r (p # ps) \<longleftrightarrow> r = p \<and> p \<noteq> 0 \<and> linked m (load64 m p) ps"

definition free_pages :: "'a mach_scheme \<Rightarrow> uint64 list \<Rightarrow> bool" where
  "free_pages s ps \<longleftrightarrow> 0 < kend s \<and> linked (pmem s) (freelist s) ps \<and> distinct ps \<and>
    (\<forall>p \<in> set ps. page_ok (kend s) p)"

text \<open>A memory agrees with another outside a page.\<close>

definition same_outside :: "uint64 set \<Rightarrow> mem \<Rightarrow> mem \<Rightarrow> bool" where
  "same_outside P m m' \<longleftrightarrow> (\<forall>x. PGROUNDDOWN x \<notin> P \<longrightarrow> m' x = m x)"

lemma linked_unique: "linked m r ps \<Longrightarrow> linked m r qs \<Longrightarrow> ps = qs"
proof (induction ps arbitrary: r qs)
  case Nil
  then show ?case by (cases qs) auto
next
  case (Cons p ps)
  then show ?case by (cases qs) auto
qed

lemma load64_cong:
  assumes "page_aligned p" and "\<And>x. PGROUNDDOWN x = p \<Longrightarrow> m' x = m x"
  shows "load64 m' p = load64 m p"
  unfolding load64_def
proof (rule arg_cong [of _ _ of_le], rule mread_cong)
  fix i :: nat assume "i < 8"
  then have "PGROUNDDOWN (p + of_nat i) = p"
    using in_page_iff [OF assms(1), of "p + of_nat i"] by simp
  then show "m' (p + of_nat i) = m (p + of_nat i)" by (rule assms(2))
qed

lemma linked_same_outside:
  assumes "same_outside P m m'" and "set ps \<inter> P = {}" and "\<forall>p \<in> set ps. page_aligned p"
  shows "linked m' r ps \<longleftrightarrow> linked m r ps"
  using assms(2,3)
proof (induction ps arbitrary: r)
  case Nil
  then show ?case by simp
next
  case (Cons p ps)
  have "load64 m' p = load64 m p"
    using Cons.prems assms(1) by (intro load64_cong) (auto simp: same_outside_def)
  with Cons show ?case by simp
qed

section \<open>Functional behaviour of the operations\<close>

lemma memset_page:
  "page_aligned p \<Longrightarrow> memset p c 4096 m x = (if PGROUNDDOWN x = p then ucast c else m x)"
  by (simp add: memset_apply in_page_iff)

lemma store64_other_page:
  "page_aligned p \<Longrightarrow> PGROUNDDOWN x \<noteq> p \<Longrightarrow> store64 m p v x = m x"
  using in_page_iff [of p x] by (simp add: store64_apply)

lemma kalloc_Nil: "free_pages s [] \<Longrightarrow> kalloc s = (0, s)"
  by (simp add: free_pages_def kalloc_def)

lemma kalloc_Cons:
  assumes "free_pages s (p # ps)"
  obtains s' where "kalloc s = (p, s')" and "free_pages s' ps"
    and "same_outside {p} (pmem s) (pmem s')" and "\<And>x. PGROUNDDOWN x = p \<Longrightarrow> pmem s' x = 5"
    and "kend s' = kend s" and "mach.more s' = mach.more s"
proof -
  let ?m = "memset p 5 4096 (pmem s)"
  let ?s = "s\<lparr>freelist := load64 (pmem s) p, pmem := ?m\<rparr>"
  from assms have p: "page_aligned p" "p \<noteq> 0" "freelist s = p"
    by (auto simp: free_pages_def page_ok_def)
  then have same: "same_outside {p} (pmem s) ?m"
    by (simp add: same_outside_def memset_page)
  have "kalloc s = (p, ?s)" using p by (simp add: kalloc_def)
  moreover have "free_pages ?s ps"
    using assms same linked_same_outside [OF same, of ps]
    by (auto simp: free_pages_def page_ok_def)
  moreover have "\<And>x. PGROUNDDOWN x = p \<Longrightarrow> pmem ?s x = 5"
    using p by (simp add: memset_page)
  ultimately show ?thesis using that same by simp
qed

lemma kfree_panics: "kfree p s = Panic e \<longleftrightarrow> \<not> page_ok (kend s) p \<and> e = ''kfree''"
  by (auto simp: kfree_def page_ok_def page_aligned_def Let_def not_less not_le)

lemma kfree_ok:
  assumes "free_pages s ps" and "page_ok (kend s) p" and "p \<notin> set ps"
  obtains s' where "kfree p s = Ok s'" and "free_pages s' (p # ps)"
    and "same_outside {p} (pmem s) (pmem s')" and "kend s' = kend s"
    and "mach.more s' = mach.more s"
proof -
  let ?m = "store64 (memset p 1 4096 (pmem s)) p (freelist s)"
  let ?s = "s\<lparr>pmem := ?m, freelist := p\<rparr>"
  from assms have p: "page_aligned p" "kend s \<le> p" "p < PHYSTOP" "0 < kend s"
    by (auto simp: free_pages_def page_ok_def)
  then have "p \<noteq> 0" using word_gt_0 by auto
  have same: "same_outside {p} (pmem s) ?m"
    using p by (simp add: same_outside_def store64_other_page memset_page)
  have "kfree p s = Ok ?s" using p by (simp add: kfree_def page_aligned_def Let_def not_less not_le)
  moreover have "free_pages ?s (p # ps)"
    using assms p \<open>p \<noteq> 0\<close> linked_same_outside [OF same, of ps]
    by (auto simp: free_pages_def page_ok_def)
  ultimately show ?thesis using that same by simp
qed

section \<open>The interface clients rely on\<close>

text \<open>
  What a client does with a page allocator: allocate, free one of the pages it owns, or
  overwrite one of them.  The client's pages are listed in \<open>own\<close>; a null result of the
  allocator leaves it unchanged.
\<close>

datatype 'd pop = PAlloc | PFree nat | PWrite nat 'd

definition remove_nth :: "nat \<Rightarrow> 'a list \<Rightarrow> 'a list" where
  "remove_nth i xs = take i xs @ drop (Suc i) xs"

fun client_step ::
  "('s \<Rightarrow> 'p \<times> 's) \<Rightarrow> ('p \<Rightarrow> 's \<Rightarrow> 's res) \<Rightarrow> ('p \<Rightarrow> 'd \<Rightarrow> 's \<Rightarrow> 's) \<Rightarrow> 'p \<Rightarrow> 'd pop \<Rightarrow>
    's \<times> 'p list \<Rightarrow> ('s \<times> 'p list) res" where
  "client_step al fr wr null PAlloc (s, own) =
    (case al s of (p, s') \<Rightarrow> Ok (s', if p = null then own else p # own))"
| "client_step al fr wr null (PFree i) (s, own) =
    (if i < length own then bindr (fr (own ! i) s) (\<lambda>s'. Ok (s', remove_nth i own))
     else Ok (s, own))"
| "client_step al fr wr null (PWrite i d) (s, own) =
    Ok (if i < length own then wr (own ! i) d s else s, own)"

fun client_run ::
  "('s \<Rightarrow> 'p \<times> 's) \<Rightarrow> ('p \<Rightarrow> 's \<Rightarrow> 's res) \<Rightarrow> ('p \<Rightarrow> 'd \<Rightarrow> 's \<Rightarrow> 's) \<Rightarrow> 'p \<Rightarrow> 'd pop list \<Rightarrow>
    's \<times> 'p list \<Rightarrow> ('s \<times> 'p list) res" where
  "client_run al fr wr null [] so = Ok so"
| "client_run al fr wr null (x # xs) so =
    bindr (client_step al fr wr null x so) (client_run al fr wr null xs)"

lemma remove_nth_props:
  assumes "i < length xs"
  shows "set xs = insert (xs ! i) (set (remove_nth i xs))"
    and "distinct xs \<Longrightarrow> distinct (remove_nth i xs) \<and> xs ! i \<notin> set (remove_nth i xs)"
proof -
  have xs: "xs = take i xs @ xs ! i # drop (Suc i) xs"
    using assms by (rule id_take_nth_drop)
  show "set xs = insert (xs ! i) (set (remove_nth i xs))"
    by (subst xs) (auto simp: remove_nth_def)
  show "distinct (remove_nth i xs) \<and> xs ! i \<notin> set (remove_nth i xs)" if "distinct xs"
    using that by (subst (asm) xs) (auto simp: remove_nth_def)
qed

locale page_allocator =
  fixes alloc :: "'s \<Rightarrow> 'p \<times> 's"
    and free :: "'p \<Rightarrow> 's \<Rightarrow> 's res"
    and scribble :: "'p \<Rightarrow> 'd \<Rightarrow> 's \<Rightarrow> 's"
    and null :: 'p
    and frees :: "'s \<Rightarrow> 'p list \<Rightarrow> bool"
    and valid :: "'s \<Rightarrow> 'p \<Rightarrow> bool"
  assumes alloc_Nil: "frees s [] \<Longrightarrow> alloc s = (null, s)"
    and alloc_Cons: "frees s (p # ps) \<Longrightarrow>
      \<exists>s'. alloc s = (p, s') \<and> frees s' ps \<and> valid s' = valid s"
    and free_ok: "frees s ps \<Longrightarrow> valid s p \<Longrightarrow> p \<notin> set ps \<Longrightarrow>
      \<exists>s'. free p s = Ok s' \<and> frees s' (p # ps) \<and> valid s' = valid s"
    and scribble_ok: "frees s ps \<Longrightarrow> valid s p \<Longrightarrow> p \<notin> set ps \<Longrightarrow>
      frees (scribble p d s) ps \<and> valid (scribble p d s) = valid s"
    and frees_valid: "frees s ps \<Longrightarrow> distinct ps \<and> null \<notin> set ps \<and> (\<forall>p \<in> set ps. valid s p)"
begin

definition owned_ok :: "'p set \<Rightarrow> 's \<Rightarrow> 'p list \<Rightarrow> 'p list \<Rightarrow> bool" where
  "owned_ok U s own ps \<longleftrightarrow> frees s ps \<and> distinct (own @ ps) \<and> set own \<union> set ps = U \<and>
    (\<forall>p \<in> set own. valid s p)"

lemma client_step_ok:
  assumes "owned_ok U s own ps"
  shows "\<exists>s' own' ps'. client_step alloc free scribble null x (s, own) = Ok (s', own') \<and>
    owned_ok U s' own' ps'"
proof (cases x)
  case PAlloc
  show ?thesis
  proof (cases ps)
    case Nil
    with assms have "alloc s = (null, s)" by (auto simp: owned_ok_def intro: alloc_Nil)
    with PAlloc assms show ?thesis by auto
  next
    case (Cons p ps')
    with assms alloc_Cons [of s p ps'] obtain s' where
      "alloc s = (p, s')" "frees s' ps'" "valid s' = valid s" by (auto simp: owned_ok_def)
    moreover from assms Cons frees_valid [of s ps] have "p \<noteq> null" "valid s p"
      by (auto simp: owned_ok_def)
    ultimately have "owned_ok U s' (p # own) ps'" "client_step alloc free scribble null x (s, own) = Ok (s', p # own)"
      using PAlloc assms Cons by (auto simp: owned_ok_def)
    then show ?thesis by blast
  qed
next
  case (PFree i)
  show ?thesis
  proof (cases "i < length own")
    case True
    then have "own ! i \<in> set own" by simp
    with assms free_ok [of s ps "own ! i"] obtain s' where
      "free (own ! i) s = Ok s'" "frees s' (own ! i # ps)" "valid s' = valid s"
      by (auto simp: owned_ok_def)
    moreover have "distinct (remove_nth i own @ own ! i # ps)"
      "set (remove_nth i own) \<union> set (own ! i # ps) = U"
      using assms remove_nth_props [OF True] by (auto simp: owned_ok_def)
    moreover have "set (remove_nth i own) \<subseteq> set own"
      using remove_nth_props(1) [OF True] by auto
    ultimately have "owned_ok U s' (remove_nth i own) (own ! i # ps)"
      "client_step alloc free scribble null x (s, own) = Ok (s', remove_nth i own)"
      using PFree True assms by (auto simp: owned_ok_def)
    then show ?thesis by blast
  next
    case False
    with PFree assms show ?thesis by auto
  qed
next
  case (PWrite i d)
  show ?thesis
  proof (cases "i < length own")
    case True
    then have "own ! i \<in> set own" by simp
    moreover from this assms have "own ! i \<notin> set ps" by (auto simp: owned_ok_def)
    ultimately have "owned_ok U (scribble (own ! i) d s) own ps"
      using assms scribble_ok [of s ps "own ! i" d] by (auto simp: owned_ok_def)
    with PWrite True show ?thesis by auto
  next
    case False
    with PWrite assms show ?thesis by auto
  qed
qed

theorem client_run_ok:
  assumes "owned_ok U s own ps"
  shows "\<exists>s' own' ps'. client_run alloc free scribble null xs (s, own) = Ok (s', own') \<and>
    owned_ok U s' own' ps'"
  using assms
proof (induction xs arbitrary: s own ps)
  case Nil
  then show ?case by auto
next
  case (Cons x xs)
  from client_step_ok [OF Cons.prems, of x] obtain s' own' ps' where
    "client_step alloc free scribble null x (s, own) = Ok (s', own')" "owned_ok U s' own' ps'"
    by blast
  with Cons.IH [of s' own' ps'] show ?case by simp
qed

end

text \<open>The allocator of the kernel, with a client that may overwrite the whole page.\<close>

definition write_page :: "uint64 \<Rightarrow> mem \<Rightarrow> 'a mach_scheme \<Rightarrow> 'a mach_scheme" where
  "write_page p d s = s\<lparr>pmem := (\<lambda>x. if PGROUNDDOWN x = p then d x else pmem s x)\<rparr>"

interpretation kmem: page_allocator kalloc kfree write_page 0 free_pages "\<lambda>s. page_ok (kend s)"
proof
  fix s :: "'a mach_scheme"
  show "free_pages s [] \<Longrightarrow> kalloc s = (0, s)" by (rule kalloc_Nil)
next
  fix s :: "'a mach_scheme" and p ps
  assume "free_pages s (p # ps)"
  then show "\<exists>s'. kalloc s = (p, s') \<and> free_pages s' ps \<and> page_ok (kend s') = page_ok (kend s)"
    by (rule kalloc_Cons) auto
next
  fix s :: "'a mach_scheme" and p ps
  assume "free_pages s ps" "page_ok (kend s) p" "p \<notin> set ps"
  then show "\<exists>s'. kfree p s = Ok s' \<and> free_pages s' (p # ps) \<and>
      page_ok (kend s') = page_ok (kend s)"
    by (rule kfree_ok) auto
next
  fix s :: "'a mach_scheme" and p ps d
  assume a: "free_pages s ps" "page_ok (kend s) p" "p \<notin> set ps"
  then have "same_outside {p} (pmem s) (pmem (write_page p d s))"
    by (simp add: same_outside_def write_page_def)
  from linked_same_outside [OF this, of ps] a
  show "free_pages (write_page p d s) ps \<and> page_ok (kend (write_page p d s)) = page_ok (kend s)"
    by (auto simp: free_pages_def write_page_def page_ok_def)
next
  fix s :: "'a mach_scheme" and ps
  assume "free_pages s ps"
  then show "distinct ps \<and> 0 \<notin> set ps \<and> (\<forall>p \<in> set ps. page_ok (kend s) p)"
    by (auto simp: free_pages_def page_ok_def)
qed

section \<open>Initialisation\<close>

lemma PGROUNDUP_aligned: "page_aligned (PGROUNDUP a)"
  using unat_PGROUNDDOWN [of "a + PGSIZE - 1"]
  by (simp add: aligned_unat PGROUNDUP_def PGROUNDDOWN_def)

lemma PHYSTOP_unat: "unat PHYSTOP = 2281701376" "unat PHYSTOP mod 4096 = 0"
  by (simp_all add: PHYSTOP_def KERNBASE_def)

lemma unat_next_page:
  "unat p + 4096 \<le> unat (q :: uint64) \<Longrightarrow> unat (p + PGSIZE) = unat p + 4096"
  using unat64_bound [of q] by (simp add: PGSIZE_def unat_word_ariths)

lemma freerange_loop_pages:
  assumes "free_pages s ps" and "page_aligned p" and "kend s \<le> p" and "unat p \<le> unat PHYSTOP"
    and "set ps = {q. page_ok (kend s) q \<and> q < p}"
  shows "\<exists>s' ps'. freerange_loop p PHYSTOP s = Ok s' \<and> free_pages s' ps' \<and> kend s' = kend s \<and>
    set ps' = {q. page_ok (kend s) q}"
  using assms
proof (induction "unat PHYSTOP - unat p" arbitrary: p s ps rule: less_induct)
  case less
  show ?case
  proof (cases "unat p + 4096 \<le> unat PHYSTOP")
    case True
    then have np: "unat (p + PGSIZE) = unat p + 4096" by (rule unat_next_page)
    have "page_ok (kend s) p" using less.prems True
      by (simp add: page_ok_def word_less_nat_alt)
    moreover have "p \<notin> set ps" using less.prems by auto
    ultimately obtain s' where s': "kfree p s = Ok s'" "free_pages s' (p # ps)" "kend s' = kend s"
      using kfree_ok [OF less.prems(1)] by metis
    have pages: "set (p # ps) = {q. page_ok (kend s') q \<and> q < p + PGSIZE}"
    proof -
      have "q < p + PGSIZE \<longleftrightarrow> q < p \<or> q = p" if "page_aligned q" for q
      proof -
        from that less.prems(2) obtain k l where "unat q = 4096 * k" "unat p = 4096 * l"
          using aligned_multiple by metis
        with np show ?thesis by (auto simp: word_less_nat_alt word_unat_eq_iff)
      qed
      then show ?thesis using less.prems(5) s'(3) \<open>page_ok (kend s) p\<close>
        by (auto simp: page_ok_def)
    qed
    have al: "page_aligned (p + PGSIZE)" using less.prems(2) np
      by (simp add: aligned_unat)
    have ke: "kend s' \<le> p + PGSIZE" using less.prems(3) np s'(3)
      by (simp add: word_le_nat_alt)
    from less.hyps [OF _ s'(2) al ke _ pages] True np s' show ?thesis
      by (subst freerange_loop.simps) auto
  next
    case False
    from aligned_multiple [OF less.prems(2)] obtain k where "unat p = 4096 * k" by blast
    with False less.prems(4) have "unat p = unat PHYSTOP" by (simp add: PHYSTOP_unat)
    then have "p = PHYSTOP" by (simp add: word_unat_eq_iff)
    then have "set ps = {q. page_ok (kend s) q}" using less.prems(5) by (auto simp: page_ok_def)
    with False less.prems(1) show ?thesis by (subst freerange_loop.simps) auto
  qed
qed

lemma PGROUNDUP_bounds:
  assumes "a \<le> PHYSTOP"
  shows "a \<le> PGROUNDUP a" and "PGROUNDUP a \<le> PHYSTOP" and "unat (PGROUNDUP a) < unat a + 4096"
proof -
  have a: "unat a \<le> 4096 * 557056" using assms by (simp add: word_le_nat_alt PHYSTOP_unat)
  have "PGROUNDUP a = PGROUNDDOWN (a + 4095)"
    by (simp add: PGROUNDUP_def PGROUNDDOWN_def PGSIZE_def add.commute)
  moreover have "unat (a + 4095) = unat a + 4095" using a by (simp add: unat_word_ariths)
  ultimately have u: "(unat a + 4095) div 4096 * 4096 = unat (PGROUNDUP a)"
    by (simp add: unat_PGROUNDDOWN)
  from aligned_multiple [OF PGROUNDUP_aligned] obtain k where k: "unat (PGROUNDUP a) = 4096 * k"
    by blast
  from u have "unat (PGROUNDUP a) \<le> unat a + 4095" "unat a + 4095 < unat (PGROUNDUP a) + 4096"
    unfolding div4096_mult_iff by auto
  then show "a \<le> PGROUNDUP a" and "PGROUNDUP a \<le> PHYSTOP"
    and "unat (PGROUNDUP a) < unat a + 4096"
    using a k by (auto simp: word_le_nat_alt PHYSTOP_unat)
qed

lemma no_page_before_PGROUNDUP:
  assumes "a \<le> PHYSTOP" and "page_aligned q" and "a \<le> q"
  shows "PGROUNDUP a \<le> q"
proof -
  obtain k l where "unat (PGROUNDUP a) = 4096 * k" "unat q = 4096 * l"
    using aligned_multiple PGROUNDUP_aligned assms(2) by metis
  with PGROUNDUP_bounds [OF assms(1)] assms(3) show ?thesis by (simp add: word_le_nat_alt)
qed

theorem kinit_frees_all:
  assumes "0 < kend s" and "kend s \<le> PHYSTOP" and "freelist s = 0"
  shows "\<exists>s' ps. kinit s = Ok s' \<and> free_pages s' ps \<and> set ps = {q. page_ok (kend s) q}"
proof -
  have "free_pages s []" using assms by (simp add: free_pages_def)
  moreover have "\<And>q. page_ok (kend s) q \<Longrightarrow> \<not> q < PGROUNDUP (kend s)"
    using no_page_before_PGROUNDUP [OF assms(2)] by (simp add: page_ok_def not_less)
  then have "set [] = {q. page_ok (kend s) q \<and> q < PGROUNDUP (kend s)}" by auto
  ultimately show ?thesis
    using freerange_loop_pages [of s "[]" "PGROUNDUP (kend s)"] PGROUNDUP_bounds [OF assms(2)]
    by (simp add: kinit_def freerange_def PGROUNDUP_aligned word_le_nat_alt) blast
qed

section \<open>Properties\<close>

text \<open>
  Claim C2.  After \<^verbatim>\<open>kinit\<close>, let the rest of the kernel allocate pages, free pages it
  owns and overwrite pages it owns in any order.  No call panics, no page is ever handed out
  while it is owned or still free, and every page between \<^verbatim>\<open>end\<close> and
  \<^verbatim>\<open>PHYSTOP\<close> is at every moment either owned or on the free list, exactly once.
\<close>

theorem kalloc_clients_never_share:
  assumes "0 < kend s" and "kend s \<le> PHYSTOP" and "freelist s = 0" and "kinit s = Ok s0"
  shows "\<exists>s' own ps. client_run kalloc kfree write_page 0 ops (s0, []) = Ok (s', own) \<and>
    free_pages s' ps \<and> distinct (own @ ps) \<and> set own \<union> set ps = {q. page_ok (kend s) q}"
proof -
  from kinit_frees_all [OF assms(1-3)] assms(4) obtain ps where
    "free_pages s0 ps" and U: "set ps = {q. page_ok (kend s) q}" by auto
  then have "kmem.owned_ok {q. page_ok (kend s) q} s0 [] ps"
    using kmem.frees_valid [of s0 ps] by (simp add: kmem.owned_ok_def)
  from kmem.client_run_ok [OF this, of ops] show ?thesis
    unfolding kmem.owned_ok_def by blast
qed

theorem kalloc_clients_never_share_witness:
  "\<exists>s0. kinit \<lparr>pmem = (\<lambda>_. 0), freelist = 0, kend = 0x80021000\<rparr> = Ok s0 \<and>
    (\<exists>s' own ps. client_run kalloc kfree write_page 0 [PAlloc, PAlloc, PFree 1, PAlloc] (s0, []) =
        Ok (s', own) \<and>
      free_pages s' ps \<and> distinct (own @ ps) \<and> set own \<union> set ps = {q. page_ok 0x80021000 q})"
proof -
  let ?s = "\<lparr>pmem = (\<lambda>_. 0), freelist = 0, kend = 0x80021000\<rparr> :: mach"
  have h: "0 < kend ?s" "kend ?s \<le> PHYSTOP" "freelist ?s = 0"
    by (simp_all add: PHYSTOP_def KERNBASE_def)
  from kinit_frees_all [OF h] obtain s0 where s0: "kinit ?s = Ok s0" by blast
  from kalloc_clients_never_share [OF h s0, of "[PAlloc, PAlloc, PFree 1, PAlloc]"] s0
  show ?thesis by auto
qed

text \<open>
  Claim C17.  \<^verbatim>\<open>kalloc\<close> takes the first page of the free list and fills it with 5s,
  \<^verbatim>\<open>kfree\<close> puts a page at the front of it, and neither writes outside that page.
\<close>

theorem kalloc_kfree_page:
  assumes "free_pages s (p # ps)"
  shows "\<exists>s1. kalloc s = (p, s1) \<and> free_pages s1 ps \<and>
    (\<forall>x. pmem s1 x = (if PGROUNDDOWN x = p then 5 else pmem s x)) \<and>
    (\<exists>s2. kfree p s1 = Ok s2 \<and> free_pages s2 (p # ps) \<and>
      (\<forall>x. PGROUNDDOWN x \<noteq> p \<longrightarrow> pmem s2 x = pmem s x))"
proof -
  from assms obtain s1 where s1: "kalloc s = (p, s1)" "free_pages s1 ps"
    "same_outside {p} (pmem s) (pmem s1)" "\<And>x. PGROUNDDOWN x = p \<Longrightarrow> pmem s1 x = 5"
    "kend s1 = kend s" by (rule kalloc_Cons) blast
  from assms s1(5) have "page_ok (kend s1) p" "p \<notin> set ps" by (auto simp: free_pages_def)
  with s1(2) obtain s2 where s2: "kfree p s1 = Ok s2" "free_pages s2 (p # ps)"
    "same_outside {p} (pmem s1) (pmem s2)" by (rule kfree_ok) blast
  from s1 s2 show ?thesis by (auto simp: same_outside_def)
qed

theorem kalloc_kfree_page_witness:
  "\<exists>s p ps. free_pages s (p # ps) \<and>
    (\<exists>s1. kalloc (s :: mach) = (p, s1) \<and> free_pages s1 ps)"
proof -
  let ?s = "\<lparr>pmem = (\<lambda>_. 0), freelist = 0x87000000, kend = 0x80021000\<rparr> :: mach"
  have "load64 (\<lambda>_. 0) 0x87000000 = 0" by (simp add: load64_def mread_def upt_rec)
  then have h: "free_pages ?s [0x87000000]"
    by (simp add: free_pages_def page_ok_def page_aligned_def PGSIZE_def PHYSTOP_def KERNBASE_def)
  from kalloc_kfree_page [OF h] h show ?thesis by blast
qed

end
