(* ===== verification/Vm.thy ===== *)
theory Vm
  imports Kalloc
begin

text \<open>
  Virtual memory, \<^verbatim>\<open>kernel/vm.c\<close>: the three-level Sv39 page tables, kept in the
  byte-addressed memory of \<open>mach\<close>, and the copies between kernel and user memory.

  A page table is the physical address of its root page; a page-table entry is named by its
  address, 0 standing for the null pointer.  Kernel-side buffers of the copy routines are byte
  lists.  Where a loop ends only because \<^verbatim>\<open>walk\<close> panics on an address past
  \<^verbatim>\<open>MAXVA\<close>, that is what its termination proof uses.
\<close>

section \<open>Walking a page table\<close>

fun walk_level :: "nat \<Rightarrow> uint64 \<Rightarrow> uint64 \<Rightarrow> bool \<Rightarrow> 'a mach_scheme \<Rightarrow> uint64 \<times> 'a mach_scheme" where
  "walk_level 0 pagetable va alloc s = (pagetable + 8 * PX 0 va, s)"
| "walk_level (Suc l) pagetable va alloc s =
    (let pte = pagetable + 8 * PX (Suc l) va in
     if load64 (pmem s) pte AND PTE_V \<noteq> 0
     then walk_level l (PTE2PA (load64 (pmem s) pte)) va alloc s
     else if \<not> alloc then (0, s)
     else
       let (page, s) = kalloc s in
       if page = 0 then (0, s)
       else
         let s = s\<lparr>pmem := memset page 0 4096 (pmem s)\<rparr>;
             s = s\<lparr>pmem := store64 (pmem s) pte (PA2PTE page OR PTE_V)\<rparr>
         in walk_level l page va alloc s)"

definition walk :: "uint64 \<Rightarrow> uint64 \<Rightarrow> bool \<Rightarrow> 'a mach_scheme \<Rightarrow> (uint64 \<times> 'a mach_scheme) res" where
  "walk pagetable va alloc s =
    (if va \<ge> MAXVA then Panic ''walk'' else Ok (walk_level 2 pagetable va alloc s))"

definition walkaddr :: "uint64 \<Rightarrow> uint64 \<Rightarrow> 'a mach_scheme \<Rightarrow> uint64" where
  "walkaddr pagetable va s =
    (if va \<ge> MAXVA then 0
     else
       let pte = fst (walk_level 2 pagetable va False s) in
       if pte = 0 then 0
       else if load64 (pmem s) pte AND PTE_V = 0 then 0
       else if load64 (pmem s) pte AND PTE_U = 0 then 0
       else PTE2PA (load64 (pmem s) pte))"

section \<open>Mapping and unmapping\<close>

lemma walk_Ok_bound: "walk pt va al s = Ok x \<Longrightarrow> va < MAXVA"
  by (simp add: walk_def split: if_splits)

lemma MAXVA_unat: "unat MAXVA = 274877906944"
  by (simp add: MAXVA_def)

lemma unat_add_PGSIZE: "a < MAXVA \<Longrightarrow> unat (a + PGSIZE) = unat a + 4096"
  by (simp add: PGSIZE_def unat_word_ariths word_less_nat_alt MAXVA_unat)

lemma walk_step_measure:
  "walk pt a al s = Ok x \<Longrightarrow> unat MAXVA + 4096 - unat (a + PGSIZE) < unat MAXVA + 4096 - unat a"
  by (auto dest!: walk_Ok_bound simp: unat_add_PGSIZE word_less_nat_alt)

function mappages_loop ::
  "uint64 \<Rightarrow> uint64 \<Rightarrow> uint64 \<Rightarrow> uint64 \<Rightarrow> uint64 \<Rightarrow> 'a mach_scheme \<Rightarrow> (int \<times> 'a mach_scheme) res" where
  "mappages_loop pagetable a lim pa perm s =
    bindr (walk pagetable a True s) (\<lambda>(pte, s).
      if pte = 0 then Ok (-1, s)
      else if load64 (pmem s) pte AND PTE_V \<noteq> 0 then Panic ''remap''
      else
        let s = s\<lparr>pmem := store64 (pmem s) pte (PA2PTE pa OR perm OR PTE_V)\<rparr> in
        if a = lim then Ok (0, s)
        else mappages_loop pagetable (a + PGSIZE) lim (pa + PGSIZE) perm s)"
  by pat_completeness auto
termination
  by (relation "measure (\<lambda>(pt, a, lim, pa, perm, s). unat MAXVA + 4096 - unat a)")
    (auto dest: walk_step_measure)

declare mappages_loop.simps [simp del]

definition mappages ::
  "uint64 \<Rightarrow> uint64 \<Rightarrow> uint64 \<Rightarrow> uint64 \<Rightarrow> uint64 \<Rightarrow> 'a mach_scheme \<Rightarrow> (int \<times> 'a mach_scheme) res" where
  "mappages pagetable va sz pa perm s =
    mappages_loop pagetable (PGROUNDDOWN va) (PGROUNDDOWN (va + sz - 1)) pa perm s"

definition kvmmap ::
  "uint64 \<Rightarrow> uint64 \<Rightarrow> uint64 \<Rightarrow> uint64 \<Rightarrow> uint64 \<Rightarrow> 'a mach_scheme \<Rightarrow> 'a mach_scheme res" where
  "kvmmap kpgtbl va pa sz perm s =
    bindr (mappages kpgtbl va sz pa perm s) (\<lambda>(r, s). if r \<noteq> 0 then Panic ''kvmmap'' else Ok s)"

function uvmunmap_loop ::
  "uint64 \<Rightarrow> uint64 \<Rightarrow> uint64 \<Rightarrow> bool \<Rightarrow> 'a mach_scheme \<Rightarrow> 'a mach_scheme res" where
  "uvmunmap_loop pagetable a lim do_free s =
    (if a < lim then
       bindr (walk pagetable a False s) (\<lambda>(pte, s).
         if pte = 0 then Panic ''uvmunmap: walk''
         else if load64 (pmem s) pte AND PTE_V = 0 then Panic ''uvmunmap: not mapped''
         else if PTE_FLAGS (load64 (pmem s) pte) = PTE_V then Panic ''uvmunmap: not a leaf''
         else
           bindr (if do_free then kfree (PTE2PA (load64 (pmem s) pte)) s else Ok s) (\<lambda>s.
           uvmunmap_loop pagetable (a + PGSIZE) lim do_free
             (s\<lparr>pmem := store64 (pmem s) pte 0\<rparr>)))
     else Ok s)"
  by pat_completeness auto
termination
  by (relation "measure (\<lambda>(pt, a, lim, fr, s). unat MAXVA + 4096 - unat a)")
    (auto dest: walk_step_measure)

declare uvmunmap_loop.simps [simp del]

definition uvmunmap ::
  "uint64 \<Rightarrow> uint64 \<Rightarrow> uint64 \<Rightarrow> bool \<Rightarrow> 'a mach_scheme \<Rightarrow> 'a mach_scheme res" where
  "uvmunmap pagetable va npages do_free s =
    (if va mod PGSIZE \<noteq> 0 then Panic ''uvmunmap: not aligned''
     else uvmunmap_loop pagetable va (va + npages * PGSIZE) do_free s)"

text \<open>
  The kernel's own table.  \<open>etext\<close> and \<open>tramp\<close> are the linker symbols \<^verbatim>\<open>etext\<close> and
  \<^verbatim>\<open>trampoline\<close>; \<open>proc_mapstacks\<close> is the routine of \<^verbatim>\<open>kernel/proc.c\<close> that
  \<^verbatim>\<open>kvmmake\<close> calls last.
\<close>

primrec proc_mapstacks :: "uint64 \<Rightarrow> nat list \<Rightarrow> 'a mach_scheme \<Rightarrow> 'a mach_scheme res" where
  "proc_mapstacks kpgtbl [] s = Ok s"
| "proc_mapstacks kpgtbl (p # ps) s =
    (let (pa, s) = kalloc s in
     if pa = 0 then Panic ''kalloc''
     else bindr (kvmmap kpgtbl (KSTACK p) pa PGSIZE (PTE_R OR PTE_W) s) (proc_mapstacks kpgtbl ps))"

definition kvmmake :: "uint64 \<Rightarrow> uint64 \<Rightarrow> 'a mach_scheme \<Rightarrow> (uint64 \<times> 'a mach_scheme) res" where
  "kvmmake etext tramp s =
    (let (kpgtbl, s) = kalloc s;
         s = s\<lparr>pmem := memset kpgtbl 0 4096 (pmem s)\<rparr>
     in
     bindr (kvmmap kpgtbl UART0 UART0 PGSIZE (PTE_R OR PTE_W) s) (\<lambda>s.
     bindr (kvmmap kpgtbl VIRTIO0 VIRTIO0 PGSIZE (PTE_R OR PTE_W) s) (\<lambda>s.
     bindr (kvmmap kpgtbl 0x30000000 0x30000000 0x10000000 (PTE_R OR PTE_W) s) (\<lambda>s.
     bindr (kvmmap kpgtbl 0x40000000 0x40000000 0x20000 (PTE_R OR PTE_W) s) (\<lambda>s.
     bindr (kvmmap kpgtbl PLIC PLIC 0x400000 (PTE_R OR PTE_W) s) (\<lambda>s.
     bindr (kvmmap kpgtbl KERNBASE KERNBASE (etext - KERNBASE) (PTE_R OR PTE_X) s) (\<lambda>s.
     bindr (kvmmap kpgtbl etext etext (PHYSTOP - etext) (PTE_R OR PTE_W) s) (\<lambda>s.
     bindr (kvmmap kpgtbl TRAMPOLINE tramp PGSIZE (PTE_R OR PTE_X) s) (\<lambda>s.
     bindr (proc_mapstacks kpgtbl [0..<NPROC] s) (\<lambda>s.
     Ok (kpgtbl, s)))))))))))"

section \<open>User address spaces\<close>

definition uvmcreate :: "'a mach_scheme \<Rightarrow> uint64 \<times> 'a mach_scheme" where
  "uvmcreate s =
    (let (pagetable, s) = kalloc s in
     if pagetable = 0 then (0, s)
     else (pagetable, s\<lparr>pmem := memset pagetable 0 4096 (pmem s)\<rparr>))"

text \<open>
  \<^verbatim>\<open>uvminit\<close> does not test the result of \<^verbatim>\<open>kalloc\<close> nor that of
  \<^verbatim>\<open>mappages\<close>.
\<close>

definition uvminit :: "uint64 \<Rightarrow> uchar list \<Rightarrow> 'a mach_scheme \<Rightarrow> 'a mach_scheme res" where
  "uvminit pagetable src s =
    (if length src \<ge> 4096 then Panic ''inituvm: more than a page''
     else
       let (page, s) = kalloc s;
           s = s\<lparr>pmem := memset page 0 4096 (pmem s)\<rparr>
       in bindr (mappages pagetable 0 PGSIZE page (PTE_W OR PTE_R OR PTE_X OR PTE_U) s) (\<lambda>(r, s).
          Ok (s\<lparr>pmem := mwrite (pmem s) page src\<rparr>)))"

definition uvmdealloc ::
  "uint64 \<Rightarrow> uint64 \<Rightarrow> uint64 \<Rightarrow> 'a mach_scheme \<Rightarrow> (uint64 \<times> 'a mach_scheme) res" where
  "uvmdealloc pagetable oldsz newsz s =
    (if newsz \<ge> oldsz then Ok (oldsz, s)
     else if PGROUNDUP newsz < PGROUNDUP oldsz then
       let npages = (ucast ((PGROUNDUP oldsz - PGROUNDUP newsz) div PGSIZE) :: uint)
       in bindr (uvmunmap pagetable (PGROUNDUP newsz) (scast npages) True s) (\<lambda>s. Ok (newsz, s))
     else Ok (newsz, s))"

lemma mappages_loop_Ok_bound: "mappages_loop pt a lim pa perm s = Ok x \<Longrightarrow> a < MAXVA"
  by (subst (asm) mappages_loop.simps) (auto simp: res_simps dest: walk_Ok_bound)

lemma PGROUNDDOWN_mono_less: "PGROUNDDOWN a < MAXVA \<Longrightarrow> a < MAXVA"
  by (auto simp: word_less_nat_alt unat_PGROUNDDOWN MAXVA_unat)

function uvmalloc_loop ::
  "uint64 \<Rightarrow> uint64 \<Rightarrow> uint64 \<Rightarrow> uint64 \<Rightarrow> 'a mach_scheme \<Rightarrow> (uint64 \<times> 'a mach_scheme) res" where
  "uvmalloc_loop pagetable a oldsz newsz s =
    (if a < newsz then
       let (page, s) = kalloc s in
       if page = 0 then bindr (uvmdealloc pagetable a oldsz s) (\<lambda>(_, s). Ok (0, s))
       else
         let s = s\<lparr>pmem := memset page 0 4096 (pmem s)\<rparr> in
         bindr (mappages pagetable a PGSIZE page (PTE_W OR PTE_X OR PTE_R OR PTE_U) s) (\<lambda>(r, s).
         if r \<noteq> 0 then
           bindr (kfree page s) (\<lambda>s.
           bindr (uvmdealloc pagetable a oldsz s) (\<lambda>(_, s). Ok (0, s)))
         else uvmalloc_loop pagetable (a + PGSIZE) oldsz newsz s)
     else Ok (newsz, s))"
  by pat_completeness auto
termination
proof (relation "measure (\<lambda>(pt, a, oldsz, newsz, s). unat MAXVA + 4096 - unat a)", goal_cases)
  case 1
  then show ?case by simp
next
  case (2 pagetable a oldsz newsz s)
  then have "a < MAXVA"
    by (auto simp: mappages_def dest!: mappages_loop_Ok_bound PGROUNDDOWN_mono_less)
  then show ?case by (simp add: unat_add_PGSIZE word_less_nat_alt)
qed

declare uvmalloc_loop.simps [simp del]

definition uvmalloc ::
  "uint64 \<Rightarrow> uint64 \<Rightarrow> uint64 \<Rightarrow> 'a mach_scheme \<Rightarrow> (uint64 \<times> 'a mach_scheme) res" where
  "uvmalloc pagetable oldsz newsz s =
    (if newsz < oldsz then Ok (oldsz, s)
     else let oldsz = PGROUNDUP oldsz in uvmalloc_loop pagetable oldsz oldsz newsz s)"

text \<open>
  \<^verbatim>\<open>freewalk\<close> recurses through whatever the valid non-leaf entries point to, so on a
  cyclic table it would not return.  \<open>d\<close> bounds the depth of the recursion; \<open>None\<close> is a run
  that goes deeper.
\<close>

primrec freewalk_entries ::
  "(uint64 \<Rightarrow> 'a mach_scheme \<Rightarrow> 'a mach_scheme res option) \<Rightarrow> uint64 \<Rightarrow> nat list \<Rightarrow>
    'a mach_scheme \<Rightarrow> 'a mach_scheme res option" where
  "freewalk_entries rec pagetable [] s = Some (Ok s)"
| "freewalk_entries rec pagetable (i # js) s =
    (let pte = load64 (pmem s) (pagetable + 8 * of_nat i) in
     if pte AND PTE_V \<noteq> 0 \<and> pte AND (PTE_R OR PTE_W OR PTE_X) = 0 then
       (case rec (PTE2PA pte) s of
          None \<Rightarrow> None
        | Some (Ok s) \<Rightarrow>
            freewalk_entries rec pagetable js
              (s\<lparr>pmem := store64 (pmem s) (pagetable + 8 * of_nat i) 0\<rparr>)
        | Some e \<Rightarrow> Some e)
     else if pte AND PTE_V \<noteq> 0 then Some (Panic ''freewalk: leaf'')
     else freewalk_entries rec pagetable js s)"

primrec freewalk :: "nat \<Rightarrow> uint64 \<Rightarrow> 'a mach_scheme \<Rightarrow> 'a mach_scheme res option" where
  "freewalk 0 pagetable s = None"
| "freewalk (Suc d) pagetable s =
    map_option (\<lambda>r. bindr r (kfree pagetable)) (freewalk_entries (freewalk d) pagetable [0..<512] s)"

definition uvmfree :: "nat \<Rightarrow> uint64 \<Rightarrow> uint64 \<Rightarrow> 'a mach_scheme \<Rightarrow> 'a mach_scheme res option" where
  "uvmfree d pagetable sz s =
    (case (if sz > 0 then uvmunmap pagetable 0 (PGROUNDUP sz div PGSIZE) True s else Ok s) of
       Ok s \<Rightarrow> freewalk d pagetable s
     | e \<Rightarrow> Some e)"

text \<open>
  A table that \<^verbatim>\<open>walk\<close> built has three levels, so three nested calls are enough; a deeper
  recursion is \<open>Diverge\<close>.
\<close>

definition uvmfree3 :: "uint64 \<Rightarrow> uint64 \<Rightarrow> 'a mach_scheme \<Rightarrow> 'a mach_scheme res" where
  "uvmfree3 pagetable sz s =
    (case uvmfree 3 pagetable sz s of Some r \<Rightarrow> r | None \<Rightarrow> Diverge)"

function uvmcopy_loop ::
  "uint64 \<Rightarrow> uint64 \<Rightarrow> uint64 \<Rightarrow> uint64 \<Rightarrow> 'a mach_scheme \<Rightarrow> (int \<times> 'a mach_scheme) res" where
  "uvmcopy_loop old new i sz s =
    (if i < sz then
       bindr (walk old i False s) (\<lambda>(pte, s).
       if pte = 0 then Panic ''uvmcopy: pte should exist''
       else if load64 (pmem s) pte AND PTE_V = 0 then Panic ''uvmcopy: page not present''
       else
         let pa = PTE2PA (load64 (pmem s) pte);
             flags = PTE_FLAGS (load64 (pmem s) pte);
             (page, s) = kalloc s
         in
         if page = 0 then
           bindr (uvmunmap new 0 (i div PGSIZE) True s) (\<lambda>s. Ok (-1, s))
         else
           let s = s\<lparr>pmem := memmove page pa 4096 (pmem s)\<rparr> in
           bindr (mappages new i PGSIZE page flags s) (\<lambda>(r, s).
           if r \<noteq> 0 then
             bindr (kfree page s) (\<lambda>s.
             bindr (uvmunmap new 0 (i div PGSIZE) True s) (\<lambda>s. Ok (-1, s)))
           else uvmcopy_loop old new (i + PGSIZE) sz s))
     else Ok (0, s))"
  by pat_completeness auto
termination
  by (relation "measure (\<lambda>(old, new, i, sz, s). unat MAXVA + 4096 - unat i)")
    (auto dest: walk_step_measure)

declare uvmcopy_loop.simps [simp del]

definition uvmcopy ::
  "uint64 \<Rightarrow> uint64 \<Rightarrow> uint64 \<Rightarrow> 'a mach_scheme \<Rightarrow> (int \<times> 'a mach_scheme) res" where
  "uvmcopy old new sz s = uvmcopy_loop old new 0 sz s"

definition uvmclear :: "uint64 \<Rightarrow> uint64 \<Rightarrow> 'a mach_scheme \<Rightarrow> 'a mach_scheme res" where
  "uvmclear pagetable va s =
    bindr (walk pagetable va False s) (\<lambda>(pte, s).
      if pte = 0 then Panic ''uvmclear''
      else Ok (s\<lparr>pmem := store64 (pmem s) pte (load64 (pmem s) pte AND NOT PTE_U)\<rparr>))"

section \<open>Copying between kernel and user memory\<close>

lemma page_room:
  "0 < 4096 - unat (a - PGROUNDDOWN a)" "unat (a - PGROUNDDOWN a) < 4096"
  by (simp_all add: in_page_iff aligned_unat unat_PGROUNDDOWN)

function copyout :: "uint64 \<Rightarrow> uint64 \<Rightarrow> uchar list \<Rightarrow> 'a mach_scheme \<Rightarrow> int \<times> 'a mach_scheme" where
  "copyout pagetable dstva src s =
    (if length src > 0 then
       let va0 = PGROUNDDOWN dstva;
           pa0 = walkaddr pagetable va0 s
       in
       if pa0 = 0 then (-1, s)
       else
         let n = min (4096 - unat (dstva - va0)) (length src);
             s = s\<lparr>pmem := mwrite (pmem s) (pa0 + (dstva - va0)) (take n src)\<rparr>
         in copyout pagetable (va0 + PGSIZE) (drop n src) s
     else (0, s))"
  by pat_completeness auto
termination
  by (relation "measure (\<lambda>(pt, va, src, s). length src)") (use page_room in auto)

declare copyout.simps [simp del]

function copyin :: "uint64 \<Rightarrow> uint64 \<Rightarrow> nat \<Rightarrow> 'a mach_scheme \<Rightarrow> int \<times> uchar list" where
  "copyin pagetable srcva len s =
    (if len > 0 then
       let va0 = PGROUNDDOWN srcva;
           pa0 = walkaddr pagetable va0 s
       in
       if pa0 = 0 then (-1, [])
       else
         let n = min (4096 - unat (srcva - va0)) len;
             bs = mread (pmem s) (pa0 + (srcva - va0)) n;
             (r, rest) = copyin pagetable (va0 + PGSIZE) (len - n) s
         in (r, bs @ rest)
     else (0, []))"
  by pat_completeness auto
termination
  by (relation "measure (\<lambda>(pt, va, len, s). len)") (use page_room in auto)

declare copyin.simps [simp del]

text \<open>
  \<^verbatim>\<open>copyinstr\<close>: the inner loop copies from one page until a zero byte (which it also
  stores) or until the \<open>n\<close> bytes it may look at are used up.
\<close>

fun copyinstr_page :: "mem \<Rightarrow> uint64 \<Rightarrow> nat \<Rightarrow> uchar list \<times> bool" where
  "copyinstr_page m p 0 = ([], False)"
| "copyinstr_page m p (Suc n) =
    (if m p = 0 then ([0], True)
     else let (bs, got_null) = copyinstr_page m (p + 1) n in (m p # bs, got_null))"

function copyinstr :: "uint64 \<Rightarrow> uint64 \<Rightarrow> nat \<Rightarrow> 'a mach_scheme \<Rightarrow> int \<times> uchar list" where
  "copyinstr pagetable srcva maxlen s =
    (if maxlen > 0 then
       let va0 = PGROUNDDOWN srcva;
           pa0 = walkaddr pagetable va0 s
       in
       if pa0 = 0 then (-1, [])
       else
         let n = min (4096 - unat (srcva - va0)) maxlen;
             (bs, got_null) = copyinstr_page (pmem s) (pa0 + (srcva - va0)) n
         in
         if got_null then (0, bs)
         else let (r, rest) = copyinstr pagetable (va0 + PGSIZE) (maxlen - n) s in (r, bs @ rest)
     else (-1, []))"
  by pat_completeness auto
termination
  by (relation "measure (\<lambda>(pt, va, maxlen, s). maxlen)") (use page_room in auto)

declare copyinstr.simps [simp del]

end
