(* ===== verification/Pagetable.thy ===== *)
theory Pagetable
  imports Vm
begin

text \<open>
  Correctness of the page-table routines of \<open>Vm\<close>.

  The invariant is an assignment of owners to physical pages: a page is a table of some address
  space at some level and path, or the user page of an address space at a virtual page number.
  Because a page has one owner, two address spaces share no table and no user page.
\<close>

section \<open>Addresses and entries\<close>

text \<open>\<open>vpath l va\<close> is the number of the level-\<open>l\<close> table on the path to \<open>va\<close>.\<close>

definition vpath :: "nat \<Rightarrow> uint64 \<Rightarrow> nat" where
  "vpath l va = unat va div 2 ^ (12 + 9 * Suc l)"

definition vpn :: "uint64 \<Rightarrow> nat" where
  "vpn va = unat va div 4096"

abbreviation slot :: "uint64 \<Rightarrow> nat \<Rightarrow> uint64" where
  "slot p i \<equiv> p + 8 * of_nat i"

definition pte_valid :: "uint64 \<Rightarrow> bool" where
  "pte_valid e \<longleftrightarrow> e AND PTE_V \<noteq> 0"

definition pte_user :: "uint64 \<Rightarrow> bool" where
  "pte_user e \<longleftrightarrow> e AND PTE_U \<noteq> 0"

lemma PX_unat: "unat (PX l va) = unat va div 2 ^ (12 + 9 * l) mod 512"
proof -
  have "PX l va = take_bit 9 (drop_bit (12 + 9 * l) va)"
    by (simp add: PX_def PXMASK_def PXSHIFT_def PGSHIFT_def mask9 take_bit_eq_mask)
  then have "unat (PX l va) = take_bit 9 (drop_bit (12 + 9 * l) (unat va))"
    by (simp only: unsigned_take_bit_eq unsigned_drop_bit_eq)
      (simp add: take_bit_nat_eq_self unat64_bound)
  then show ?thesis by (simp add: take_bit_eq_mod drop_bit_eq_div)
qed

lemma PX_of_nat: "PX l va = of_nat (unat (PX l va))"
  by simp

lemma vpath_Suc: "vpath (Suc l) va * 512 + unat (PX (Suc l) va) = vpath l va"
proof -
  have "(2 :: nat) ^ (12 + 9 * Suc (Suc l)) = 2 ^ (12 + 9 * Suc l) * 512"
    by (simp add: power_add)
  then have "vpath (Suc l) va = unat va div 2 ^ (12 + 9 * Suc l) div 512"
    by (simp only: vpath_def div_mult2_eq)
  then show ?thesis by (simp add: PX_unat vpath_def mult.commute)
qed

lemma vpath_0: "vpath 0 va * 512 + unat (PX 0 va) = vpn va"
proof -
  have "vpath 0 va = vpn va div 512" by (simp add: vpath_def vpn_def div_mult2_eq)
  then show ?thesis by (simp add: PX_unat vpn_def mult.commute)
qed

lemma vpath_2: "va < MAXVA \<Longrightarrow> vpath 2 va = 0"
  by (simp add: vpath_def word_less_nat_alt MAXVA_unat)

lemma vpn_eq_iff: "vpn va = vpn va' \<longleftrightarrow> PGROUNDDOWN va = PGROUNDDOWN va'"
  by (auto simp: vpn_def unat_PGROUNDDOWN word_unat_eq_iff)

lemma slot_page:
  assumes "page_aligned p" "i < 512" "k < 8"
  shows "PGROUNDDOWN (slot p i + of_nat k) = p"
proof -
  have "slot p i + of_nat k - p = of_nat (8 * i + k)" by simp
  moreover have "unat (of_nat (8 * i + k) :: uint64) = 8 * i + k"
    using assms by (intro unat_of_nat64) simp
  ultimately have "unat (slot p i + of_nat k - p) < 4096" using assms by simp
  then show ?thesis unfolding in_page_iff [OF assms(1)] .
qed

lemma slot_page0: "page_aligned p \<Longrightarrow> i < 512 \<Longrightarrow> PGROUNDDOWN (slot p i) = p"
  using slot_page [of p i 0] by simp

lemma slot_nonzero:
  assumes "page_aligned p" "p \<noteq> 0" "i < 512"
  shows "slot p i \<noteq> 0"
proof
  assume "slot p i = 0"
  with slot_page0 [OF assms(1,3)] have "PGROUNDDOWN 0 = p" by simp
  with assms(2) show False by (simp add: PGROUNDDOWN_def)
qed

lemma load64_slot_cong:
  assumes "page_aligned p" "i < 512" "\<And>x. PGROUNDDOWN x = p \<Longrightarrow> m' x = m x"
  shows "load64 m' (slot p i) = load64 m (slot p i)"
  unfolding load64_def
  by (rule arg_cong [of _ _ of_le], rule mread_cong) (simp add: assms slot_page)

lemma store64_slot_outside:
  assumes "page_aligned p" "i < 512"
  shows "same_outside {p} m (store64 m (slot p i) v)"
proof -
  have "store64 m (slot p i) v x = m x" if "PGROUNDDOWN x \<noteq> p" for x
  proof -
    have "\<not> unat (x - slot p i) < 8"
    proof
      assume a: "unat (x - slot p i) < 8"
      have "x = slot p i + of_nat (unat (x - slot p i))" by simp
      then have "PGROUNDDOWN x = p" using slot_page [OF assms a] by metis
      with that show False by simp
    qed
    then show ?thesis by (simp add: store64_apply)
  qed
  then show ?thesis by (simp add: same_outside_def)
qed

lemma load64_store64_slot:
  assumes "page_aligned p" "page_aligned q" "i < 512" "j < 512" "\<not> (p = q \<and> i = j)"
  shows "load64 (store64 m (slot p i) v) (slot q j) = load64 m (slot q j)"
proof (cases "p = q")
  case False
  with store64_slot_outside [OF assms(1,3), of m v] show ?thesis
    by (intro load64_slot_cong) (use assms in \<open>auto simp: same_outside_def\<close>)
next
  case True
  with assms have ij: "i \<noteq> j" by simp
  have "\<not> unat (slot q j + of_nat k - slot p i) < 8" if "k < 8" for k
  proof -
    have "slot q j + of_nat k - slot p i = of_nat (8 * j + k) - of_nat (8 * i)"
      using True by simp
    moreover have "unat (of_nat (8 * j + k) :: uint64) = 8 * j + k"
      and "unat (of_nat (8 * i) :: uint64) = 8 * i"
      using assms that by (intro unat_of_nat64; simp)+
    ultimately have "unat (slot q j + of_nat k - slot p i) =
        (if 8 * i \<le> 8 * j + k then 8 * j + k - 8 * i
         else 8 * j + k + 18446744073709551616 - 8 * i)"
      by (simp only: unat_sub_cases)
    then show ?thesis using ij that assms(3,4) by (auto split: if_splits)
  qed
  then show ?thesis unfolding load64_def
    by (intro arg_cong [of _ _ of_le] mread_cong) (simp add: store64_apply)
qed

section \<open>Owners of pages\<close>

datatype owner = Table uint64 nat nat | UserPage uint64 nat

type_synonym owners = "uint64 \<Rightarrow> owner option"

text \<open>
  The entry for \<open>va\<close> below a level-\<open>l\<close> table, 0 where the path ends early; \<open>pte_of\<close> starts at
  the root.
\<close>

primrec pte_at :: "nat \<Rightarrow> mem \<Rightarrow> uint64 \<Rightarrow> uint64 \<Rightarrow> uint64" where
  "pte_at 0 m p va = load64 m (p + 8 * PX 0 va)"
| "pte_at (Suc l) m p va =
    (let e = load64 m (p + 8 * PX (Suc l) va) in if pte_valid e then pte_at l m (PTE2PA e) va else 0)"

text \<open>The address of that entry, where the path exists.\<close>

primrec lookup :: "nat \<Rightarrow> mem \<Rightarrow> uint64 \<Rightarrow> uint64 \<Rightarrow> uint64 option" where
  "lookup 0 m p va = Some (p + 8 * PX 0 va)"
| "lookup (Suc l) m p va =
    (let e = load64 m (p + 8 * PX (Suc l) va) in if pte_valid e then lookup l m (PTE2PA e) va else None)"

lemma pte_at_lookup:
  "pte_at l m p va = (case lookup l m p va of None \<Rightarrow> 0 | Some e \<Rightarrow> load64 m e)"
  by (induction l arbitrary: p) (simp_all add: Let_def)

definition pte_of :: "mem \<Rightarrow> uint64 \<Rightarrow> uint64 \<Rightarrow> uint64" where
  "pte_of m r va = pte_at 2 m r va"

definition TFVPN :: nat where
  "TFVPN = 67108862"

text \<open>
  \<open>tables_ok\<close>: valid entries of an inner table lead to the table the path says.
  \<open>users_ok R\<close>: in the address spaces of \<open>R\<close>, valid leaves below the trapframe page lead to the
  user page of that virtual page number and have some of the flags R, W, X, U; the two pages
  at the top (trapframe and trampoline) are not accessible to the user.
\<close>

definition tables_ok :: "uint64 \<Rightarrow> owners \<Rightarrow> mem \<Rightarrow> bool" where
  "tables_ok ke G m \<longleftrightarrow> (\<forall>p ow. G p = Some ow \<longrightarrow> page_ok ke p) \<and>
    (\<forall>p r l n i. G p = Some (Table r (Suc l) n) \<longrightarrow> i < 512 \<longrightarrow> pte_valid (load64 m (slot p i)) \<longrightarrow>
      G (PTE2PA (load64 m (slot p i))) = Some (Table r l (n * 512 + i)))"

definition leaf_ok :: "owners \<Rightarrow> uint64 \<Rightarrow> nat \<Rightarrow> uint64 \<Rightarrow> bool" where
  "leaf_ok G r v e \<longleftrightarrow>
    (if v < TFVPN then G (PTE2PA e) = Some (UserPage r v) \<and> PTE_FLAGS e \<noteq> PTE_V else \<not> pte_user e)"

definition users_ok :: "uint64 set \<Rightarrow> owners \<Rightarrow> mem \<Rightarrow> bool" where
  "users_ok R G m \<longleftrightarrow> (\<forall>p r n i. G p = Some (Table r 0 n) \<longrightarrow> r \<in> R \<longrightarrow> i < 512 \<longrightarrow>
    pte_valid (load64 m (slot p i)) \<longrightarrow> leaf_ok G r (n * 512 + i) (load64 m (slot p i)))"

text \<open>
  \<open>linked_up\<close>: a table is the root of its address space or is reached from the table above it,
  so no two pages are the same table.
\<close>

definition linked_up :: "owners \<Rightarrow> mem \<Rightarrow> bool" where
  "linked_up G m \<longleftrightarrow> (\<forall>p r l k. G p = Some (Table r l k) \<longrightarrow>
    (if l < 2 then \<exists>pp. G pp = Some (Table r (Suc l) (k div 512)) \<and>
         pte_valid (load64 m (slot pp (k mod 512))) \<and> PTE2PA (load64 m (slot pp (k mod 512))) = p
     else l = 2 \<and> p = r \<and> k = 0))"

definition vm_ok :: "uint64 set \<Rightarrow> owners \<Rightarrow> 'a mach_scheme \<Rightarrow> uint64 list \<Rightarrow> bool" where
  "vm_ok R G s ps \<longleftrightarrow> free_pages s ps \<and> set ps \<inter> dom G = {} \<and>
    tables_ok (kend s) G (pmem s) \<and> users_ok R G (pmem s) \<and> linked_up G (pmem s)"

definition is_root :: "owners \<Rightarrow> uint64 \<Rightarrow> bool" where
  "is_root G r \<longleftrightarrow> G r = Some (Table r 2 0)"

definition table_pages :: "owners \<Rightarrow> uint64 set" where
  "table_pages G = {p. \<exists>r l n. G p = Some (Table r l n)}"

lemma tables_okD:
  assumes "tables_ok ke G m"
  shows "G p = Some ow \<Longrightarrow> page_ok ke p"
    and "G p = Some (Table r (Suc l) n) \<Longrightarrow> i < 512 \<Longrightarrow> pte_valid (load64 m (slot p i)) \<Longrightarrow>
      G (PTE2PA (load64 m (slot p i))) = Some (Table r l (n * 512 + i))"
  using assms unfolding tables_ok_def by blast+

lemma users_okD:
  "users_ok R G m \<Longrightarrow> G p = Some (Table r 0 n) \<Longrightarrow> r \<in> R \<Longrightarrow> i < 512 \<Longrightarrow>
    pte_valid (load64 m (slot p i)) \<Longrightarrow> leaf_ok G r (n * 512 + i) (load64 m (slot p i))"
  unfolding users_ok_def by blast

lemma vm_okD:
  assumes "vm_ok R G s ps"
  shows "free_pages s ps" "set ps \<inter> dom G = {}" "tables_ok (kend s) G (pmem s)" "users_ok R G (pmem s)"
    "linked_up G (pmem s)"
  using assms by (simp_all add: vm_ok_def)

lemma linked_upD:
  assumes "linked_up G m" "G p = Some (Table r l k)"
  shows "l < 2 \<Longrightarrow> \<exists>pp. G pp = Some (Table r (Suc l) (k div 512)) \<and>
      pte_valid (load64 m (slot pp (k mod 512))) \<and> PTE2PA (load64 m (slot pp (k mod 512))) = p"
    and "\<not> l < 2 \<Longrightarrow> l = 2 \<and> p = r \<and> k = 0"
  using assms unfolding linked_up_def by (simp_all split: if_splits)

lemma table_inj_aux:
  assumes "linked_up G m" "G p = Some (Table r l k)" "G p' = Some (Table r l k)"
  shows "p = p'"
  using assms(2,3)
proof (induction "2 - l" arbitrary: l p p' k)
  case 0
  then have "\<not> l < 2" by simp
  with linked_upD(2) [OF assms(1)] 0 show ?case by blast
next
  case (Suc x)
  then have l: "l < 2" by simp
  from linked_upD(1) [OF assms(1) Suc.prems(1) l] obtain pp where
    pp: "G pp = Some (Table r (Suc l) (k div 512))" "PTE2PA (load64 m (slot pp (k mod 512))) = p" by blast
  from linked_upD(1) [OF assms(1) Suc.prems(2) l] obtain qq where
    qq: "G qq = Some (Table r (Suc l) (k div 512))" "PTE2PA (load64 m (slot qq (k mod 512))) = p'" by blast
  have "x = 2 - Suc l" using Suc.hyps(2) by simp
  from Suc.hyps(1) [OF this pp(1) qq(1)] pp(2) qq(2) show ?case by simp
qed

lemma table_inj:
  "vm_ok R G s ps \<Longrightarrow> G p = Some (Table r l k) \<Longrightarrow> G p' = Some (Table r l k) \<Longrightarrow> p = p'"
  by (rule table_inj_aux [of G "pmem s"]) (auto simp: vm_ok_def)

lemma linked_up_keep:
  assumes "linked_up G m"
    and "\<And>p r l k i. G p = Some (Table r (Suc l) k) \<Longrightarrow> i < 512 \<Longrightarrow> pte_valid (load64 m (slot p i)) \<Longrightarrow>
      load64 m' (slot p i) = load64 m (slot p i)"
  shows "linked_up G m'"
  unfolding linked_up_def
proof (intro allI impI)
  fix p r l k assume a: "G p = Some (Table r l k)"
  show "if l < 2 then \<exists>pp. G pp = Some (Table r (Suc l) (k div 512)) \<and>
         pte_valid (load64 m' (slot pp (k mod 512))) \<and> PTE2PA (load64 m' (slot pp (k mod 512))) = p
     else l = 2 \<and> p = r \<and> k = 0"
  proof (cases "l < 2")
    case True
    from linked_upD(1) [OF assms(1) a True] obtain pp where
      pp: "G pp = Some (Table r (Suc l) (k div 512))" "pte_valid (load64 m (slot pp (k mod 512)))"
      "PTE2PA (load64 m (slot pp (k mod 512))) = p" by blast
    have "k mod 512 < 512" by simp
    with assms(2) [OF pp(1) this pp(2)] pp True show ?thesis by auto
  next
    case False
    with linked_upD(2) [OF assms(1) a] show ?thesis by simp
  qed
qed

lemma page_ok_aligned: "page_ok ke p \<Longrightarrow> page_aligned p"
  by (simp add: page_ok_def)

lemma page_ok_nonzero: "page_ok ke p \<Longrightarrow> 0 < ke \<Longrightarrow> p \<noteq> 0"
  by (auto simp: page_ok_def)

lemma vm_ok_pages:
  assumes "vm_ok R G s ps"
  shows "G p = Some ow \<Longrightarrow> page_aligned p" "G p = Some ow \<Longrightarrow> p \<noteq> 0"
    "p \<in> set ps \<Longrightarrow> page_aligned p" "p \<in> set ps \<Longrightarrow> p \<noteq> 0" "0 \<notin> set ps"
proof -
  have "0 < kend s" "\<And>p. p \<in> set ps \<Longrightarrow> page_ok (kend s) p" "\<And>p ow. G p = Some ow \<Longrightarrow> page_ok (kend s) p"
    using assms by (auto simp: vm_ok_def free_pages_def dest: tables_okD(1))
  then show "G p = Some ow \<Longrightarrow> page_aligned p" "G p = Some ow \<Longrightarrow> p \<noteq> 0"
    "p \<in> set ps \<Longrightarrow> page_aligned p" "p \<in> set ps \<Longrightarrow> p \<noteq> 0" "0 \<notin> set ps"
    using page_ok_aligned page_ok_nonzero by blast+
qed

text \<open>What a memory shares with another that agrees with it on the tables.\<close>

definition same_tables :: "owners \<Rightarrow> mem \<Rightarrow> mem \<Rightarrow> bool" where
  "same_tables G m m' \<longleftrightarrow> (\<forall>p r l n i. G p = Some (Table r l n) \<longrightarrow> i < 512 \<longrightarrow>
    load64 m' (slot p i) = load64 m (slot p i))"

lemma same_tables_outside:
  assumes "same_outside P m m'" "P \<inter> table_pages G = {}" "tables_ok ke G m"
  shows "same_tables G m m'"
  unfolding same_tables_def
proof (intro allI impI, rule load64_slot_cong)
  fix p r l n x assume "G p = Some (Table r l n)" "PGROUNDDOWN x = p"
  with assms show "m' x = m x" by (auto simp: same_outside_def table_pages_def)
next
  fix p r l n assume "G p = Some (Table r l n)"
  with assms(3) show "page_aligned p" by (blast dest: tables_okD(1) page_ok_aligned)
qed

lemma same_tablesD:
  "same_tables G m m' \<Longrightarrow> G p = Some (Table r l n) \<Longrightarrow> i < 512 \<Longrightarrow>
    load64 m' (slot p i) = load64 m (slot p i)"
  unfolding same_tables_def by blast

lemma same_tables_sym: "same_tables G m m' \<Longrightarrow> same_tables G m' m"
  unfolding same_tables_def by metis

lemma same_tables_ok_imp:
  assumes "same_tables G m m'"
  shows "tables_ok ke G m \<Longrightarrow> tables_ok ke G m'" and "users_ok R G m \<Longrightarrow> users_ok R G m'"
proof -
  assume "tables_ok ke G m"
  note ok = tables_okD [OF this]
  show "tables_ok ke G m'" unfolding tables_ok_def
    using ok(1) ok(2) by (auto simp: same_tablesD [OF assms])
next
  assume ok: "users_ok R G m"
  show "users_ok R G m'" unfolding users_ok_def
    by (auto simp: same_tablesD [OF assms] intro: users_okD [OF ok])
qed

lemma same_tables_ok:
  assumes "same_tables G m m'"
  shows "tables_ok ke G m' \<longleftrightarrow> tables_ok ke G m" and "users_ok R G m' \<longleftrightarrow> users_ok R G m"
  using same_tables_ok_imp [OF assms] same_tables_ok_imp [OF same_tables_sym [OF assms]] by blast+

lemma pte_at_same_tables:
  assumes "same_tables G m m'" "tables_ok ke G m" "G p = Some (Table r l n)"
  shows "pte_at l m' p va = pte_at l m p va"
  using assms(3)
proof (induction l arbitrary: p n)
  case 0
  then show ?case using same_tablesD [OF assms(1) 0 PX_bound [of 0 va]] by simp
next
  case (Suc l)
  let ?i = "unat (PX (Suc l) va)"
  have "load64 m' (slot p ?i) = load64 m (slot p ?i)"
    using same_tablesD [OF assms(1) Suc.prems PX_bound] .
  moreover have "pte_at l m' (PTE2PA (load64 m (slot p ?i))) va = pte_at l m (PTE2PA (load64 m (slot p ?i))) va"
    if "pte_valid (load64 m (slot p ?i))"
    using Suc.IH tables_okD(2) [OF assms(2) Suc.prems PX_bound that] by blast
  ultimately show ?case by (simp add: Let_def)
qed

lemma walk_level_lookup:
  assumes "tables_ok (kend s) G (pmem s)" "0 < kend s" "G p = Some (Table r l (vpath l va))"
  shows "\<exists>e. walk_level l p va False s = (e, s) \<and>
    (e = 0 \<and> lookup l (pmem s) p va = None \<or>
     (\<exists>q. e \<noteq> 0 \<and> G q = Some (Table r 0 (vpath 0 va)) \<and> e = slot q (unat (PX 0 va)) \<and>
       lookup l (pmem s) p va = Some e))"
  using assms(3)
proof (induction l arbitrary: p)
  case 0
  then have "page_ok (kend s) p" using tables_okD(1) [OF assms(1)] by blast
  then have "slot p (unat (PX 0 va)) \<noteq> 0" using assms(2) PX_bound
    by (intro slot_nonzero page_ok_aligned page_ok_nonzero) auto
  with 0 show ?case by auto
next
  case (Suc l)
  let ?e = "load64 (pmem s) (slot p (unat (PX (Suc l) va)))"
  show ?case
  proof (cases "pte_valid ?e")
    case True
    with tables_okD(2) [OF assms(1) Suc.prems PX_bound this]
    have "G (PTE2PA ?e) = Some (Table r l (vpath l va))" by (simp only: vpath_Suc)
    from Suc.IH [OF this] True show ?thesis by (simp add: pte_valid_def Let_def)
  next
    case False
    then show ?thesis by (simp add: pte_valid_def Let_def)
  qed
qed

section \<open>Adding tables\<close>

definition zero_page :: "mem \<Rightarrow> uint64 \<Rightarrow> bool" where
  "zero_page m p \<longleftrightarrow> (\<forall>x. PGROUNDDOWN x = p \<longrightarrow> m x = 0)"

lemma of_le_zero: "of_le (replicate n 0) = 0"
  by (induction n) simp_all

lemma zero_page_load:
  assumes "zero_page m p" "page_aligned p" "i < 512"
  shows "load64 m (slot p i) = 0"
proof -
  have "mread m (slot p i) 8 = replicate 8 0"
    by (rule nth_equalityI) (use assms in \<open>auto simp: zero_page_def slot_page\<close>)
  then show ?thesis by (simp only: load64_def of_le_zero)
qed

lemma pte_valid_0 [simp]: "\<not> pte_valid 0"
  by (simp add: pte_valid_def)

lemma pte_at_zero: "zero_page m p \<Longrightarrow> page_aligned p \<Longrightarrow> pte_at l m p va = 0"
  using zero_page_load [of m p "unat (PX l va)"] PX_bound [of l va] by (cases l) (auto simp: Let_def)

text \<open>Linking a zeroed table into an invalid entry changes no translation.\<close>

lemma link_pte_at:
  assumes "tables_ok ke G m" "G p = Some (Table r (Suc l) n)" "i < 512"
    and "\<not> pte_valid (load64 m (slot p i))"
    and "\<And>p' r' l' n' j. G p' = Some (Table r' l' n') \<Longrightarrow> j < 512 \<Longrightarrow> \<not> (p' = p \<and> j = i) \<Longrightarrow>
      load64 m' (slot p' j) = load64 m (slot p' j)"
    and "zero_page m' (PTE2PA (load64 m' (slot p i)))"
    and "G p' = Some (Table r' l' n')"
  shows "pte_at l' m' p' va = pte_at l' m p' va"
  using assms(7)
proof (induction l' arbitrary: p' n')
  case 0
  then have "\<not> (p' = p \<and> unat (PX 0 va) = i)" using assms(2) by auto
  from assms(5) [OF 0 PX_bound this] show ?case by simp
next
  case (Suc l')
  let ?j = "unat (PX (Suc l') va)"
  show ?case
  proof (cases "p' = p \<and> ?j = i")
    case True
    then have "load64 m (p' + 8 * PX (Suc l') va) = load64 m (slot p i)"
      "load64 m' (p' + 8 * PX (Suc l') va) = load64 m' (slot p i)" by auto
    then show ?thesis using assms(4,6) by (simp add: Let_def pte_at_zero PTE2PA_aligned)
  next
    case False
    let ?e = "load64 m (slot p' ?j)"
    have "load64 m' (slot p' ?j) = ?e" using assms(5) [OF Suc.prems PX_bound False] .
    moreover have "pte_at l' m' (PTE2PA ?e) va = pte_at l' m (PTE2PA ?e) va" if "pte_valid ?e"
      using Suc.IH tables_okD(2) [OF assms(1) Suc.prems PX_bound that] by blast
    ultimately show ?thesis by (simp add: Let_def)
  qed
qed

text \<open>Leaf entries, and valid entries of inner tables, are the same in both memories.\<close>

definition stable_entries :: "owners \<Rightarrow> mem \<Rightarrow> mem \<Rightarrow> bool" where
  "stable_entries G m m' \<longleftrightarrow> (\<forall>p r l n i. G p = Some (Table r l n) \<longrightarrow> i < 512 \<longrightarrow>
    l = 0 \<or> pte_valid (load64 m (slot p i)) \<longrightarrow> load64 m' (slot p i) = load64 m (slot p i))"

text \<open>
  \<open>grow r\<close>: the state may have turned some of the first free pages into tables of \<open>r\<close>; nothing
  else changed as far as owners, translations and non-table memory are concerned.
\<close>

definition grow :: "uint64 \<Rightarrow> owners \<Rightarrow> 'a mach_scheme \<Rightarrow> uint64 list \<Rightarrow>
    owners \<Rightarrow> 'a mach_scheme \<Rightarrow> uint64 list \<Rightarrow> bool" where
  "grow r G s ps G' s' ps' \<longleftrightarrow>
    (\<exists>ts. ps = ts @ ps' \<and> (\<forall>q. q \<notin> set ts \<longrightarrow> G' q = G q) \<and>
      (\<forall>q \<in> set ts. \<exists>l k. G' q = Some (Table r l k))) \<and>
    (\<forall>p r l n va. G p = Some (Table r l n) \<longrightarrow> pte_at l (pmem s') p va = pte_at l (pmem s) p va) \<and>
    stable_entries G (pmem s) (pmem s') \<and>
    same_outside (table_pages G \<union> set ps) (pmem s) (pmem s') \<and>
    kend s' = kend s \<and> mach.more s' = mach.more s"

lemma same_outside_refl [simp]: "same_outside P m m"
  by (simp add: same_outside_def)

lemma same_outside_trans:
  "same_outside P m m' \<Longrightarrow> same_outside Q m' m'' \<Longrightarrow> P \<subseteq> S \<Longrightarrow> Q \<subseteq> S \<Longrightarrow> same_outside S m m''"
  unfolding same_outside_def by (metis subsetD)

lemma same_outside_mono: "same_outside P m m' \<Longrightarrow> P \<subseteq> Q \<Longrightarrow> same_outside Q m m'"
  by (auto simp: same_outside_def)

lemma grow_refl: "grow r G s ps G s ps"
  by (auto simp: grow_def stable_entries_def)

lemma stable_entriesD:
  "stable_entries G m m' \<Longrightarrow> G p = Some (Table r l n) \<Longrightarrow> i < 512 \<Longrightarrow>
    l = 0 \<or> pte_valid (load64 m (slot p i)) \<Longrightarrow> load64 m' (slot p i) = load64 m (slot p i)"
  unfolding stable_entries_def by blast

lemma stable_entries_trans:
  assumes "stable_entries G m m1" "stable_entries G1 m1 m2" "\<And>p ow. G p = Some ow \<Longrightarrow> G1 p = G p"
  shows "stable_entries G m m2"
  unfolding stable_entries_def
proof (intro allI impI)
  fix p r l n i assume a: "G p = Some (Table r l n)" "i < 512" "l = 0 \<or> pte_valid (load64 m (slot p i))"
  then have "load64 m1 (slot p i) = load64 m (slot p i)" by (rule stable_entriesD [OF assms(1)])
  with stable_entriesD [OF assms(2), of p r l n i] assms(3) [OF a(1)] a
  show "load64 m2 (slot p i) = load64 m (slot p i)" by simp
qed

lemma grow_trans:
  assumes "grow r G s ps G1 s1 ps1" "grow r G1 s1 ps1 G2 s2 ps2" "vm_ok R G s ps"
  shows "grow r G s ps G2 s2 ps2"
proof -
  obtain ts where ts: "ps = ts @ ps1" "\<And>q. q \<notin> set ts \<Longrightarrow> G1 q = G q"
    "\<And>q. q \<in> set ts \<Longrightarrow> \<exists>l k. G1 q = Some (Table r l k)" using assms(1) by (auto simp: grow_def)
  obtain us where us: "ps1 = us @ ps2" "\<And>q. q \<notin> set us \<Longrightarrow> G2 q = G1 q"
    "\<And>q. q \<in> set us \<Longrightarrow> \<exists>l k. G2 q = Some (Table r l k)" using assms(2) by (auto simp: grow_def)
  have "distinct ps" "set ps \<inter> dom G = {}" using assms(3) by (auto simp: vm_ok_def free_pages_def)
  have tab: "G1 p = G p" if "G p = Some ow" for p ow
  proof -
    have "p \<notin> set ts" using that ts(1) \<open>set ps \<inter> dom G = {}\<close> by auto
    then show ?thesis by (rule ts(2))
  qed
  have sub: "table_pages G1 \<union> set ps1 \<subseteq> table_pages G \<union> set ps"
    using ts by (auto simp: table_pages_def)
  have owners: "\<exists>ts. ps = ts @ ps2 \<and> (\<forall>q. q \<notin> set ts \<longrightarrow> G2 q = G q) \<and>
      (\<forall>q \<in> set ts. \<exists>l k. G2 q = Some (Table r l k))"
    using ts us \<open>distinct ps\<close>
    by (intro exI [of _ "ts @ us"]) (auto, metis)
  have ptes: "\<And>p r l n va. G p = Some (Table r l n) \<Longrightarrow> pte_at l (pmem s2) p va = pte_at l (pmem s) p va"
    using assms(1,2) tab unfolding grow_def by metis
  have "same_outside (table_pages G \<union> set ps) (pmem s) (pmem s2)"
    using assms(1,2) sub unfolding grow_def by (auto intro: same_outside_trans)
  moreover have "stable_entries G (pmem s) (pmem s1)" "stable_entries G1 (pmem s1) (pmem s2)"
    using assms(1,2) by (auto simp: grow_def)
  then have "stable_entries G (pmem s) (pmem s2)"
    by (rule stable_entries_trans) (rule tab)
  ultimately show ?thesis using owners ptes assms(1,2) unfolding grow_def by auto
qed

lemma free_pages_same:
  assumes "free_pages s ps" "same_outside P (pmem s) m" "set ps \<inter> P = {}"
  shows "free_pages (s\<lparr>pmem := m\<rparr>) ps"
  using assms linked_same_outside [OF assms(2,3)]
  by (auto simp: free_pages_def page_ok_def)

lemma PTE_FLAGS_perms [simp]: "PTE_FLAGS PTE_V = PTE_V"
  by (simp add: PTE_FLAGS_def PTE_V_def)

lemma and_push_1: "e AND push_bit k 1 \<noteq> (0 :: uint64) \<longleftrightarrow> bit e k"
proof -
  have "e AND push_bit k 1 \<noteq> 0 \<longleftrightarrow> (\<exists>n. bit (e AND push_bit k 1) n)"
    by (metis bit_0_eq bot_apply bit_eqI bot_bool_def)
  also have "\<dots> \<longleftrightarrow> bit e k"
    unfolding bit_and_iff bit_push_1 using bit_imp_le_length [of e k] by auto
  finally show ?thesis .
qed

lemma pte_valid_bit: "pte_valid e \<longleftrightarrow> bit e 0"
  unfolding pte_valid_def PTE_V_def and_push_1 ..

lemma pte_user_bit: "pte_user e \<longleftrightarrow> bit e 4"
  unfolding pte_user_def PTE_U_def and_push_1 ..

lemma leaf_ok_cong: "G (PTE2PA e) = G' (PTE2PA e) \<Longrightarrow> leaf_ok G r v e = leaf_ok G' r v e"
  by (simp add: leaf_ok_def)

lemma leaf_ok_upd:
  "leaf_ok G r v e \<Longrightarrow> G q = None \<Longrightarrow> leaf_ok (G(q \<mapsto> ow)) r v e"
  by (auto simp: leaf_ok_def)

lemma page_alloc_facts:
  assumes "vm_ok R G s (q # ps)"
  shows "G q = None" "page_ok (kend s) q" "page_aligned q" "q \<noteq> 0" "q \<notin> set ps"
  using assms by (auto simp: vm_ok_def free_pages_def page_ok_def)

lemma PTE_link: "page_aligned q \<Longrightarrow> PTE2PA (PA2PTE q OR PTE_V) = q" "pte_valid (PA2PTE q OR PTE_V)"
  by (rule PTE_roundtrip, simp_all) (simp add: pte_valid_bit bit_or_iff PTE_bit)

text \<open>The invariant when a fresh zeroed page becomes a table, on memories.\<close>

lemma tables_ok_link:
  assumes "tables_ok ke G m" "G p = Some (Table r (Suc l) n)" "i < 512" "G q = None" "page_ok ke q"
    and "load64 m' (slot p i) = PA2PTE q OR PTE_V" "zero_page m' q"
    and same: "\<And>p' r' l' n' j. G p' = Some (Table r' l' n') \<Longrightarrow> j < 512 \<Longrightarrow> \<not> (p' = p \<and> j = i) \<Longrightarrow>
      load64 m' (slot p' j) = load64 m (slot p' j)"
  shows "tables_ok ke (G(q \<mapsto> Table r l (n * 512 + i))) m'"
  unfolding tables_ok_def
proof (intro conjI allI impI)
  fix p' r' l' n' j
  let ?G = "G(q \<mapsto> Table r l (n * 512 + i))"
  assume a: "?G p' = Some (Table r' (Suc l') n')" "j < 512" "pte_valid (load64 m' (slot p' j))"
  have q: "page_aligned q" using assms(5) by (rule page_ok_aligned)
  have "p' \<noteq> q" using a zero_page_load [OF assms(7) q a(2)] by auto
  with a have Gp': "G p' = Some (Table r' (Suc l') n')" by simp
  show "?G (PTE2PA (load64 m' (slot p' j))) = Some (Table r' l' (n' * 512 + j))"
  proof (cases "p' = p \<and> j = i")
    case True
    with Gp' assms(2,6) PTE_link(1) [OF q] show ?thesis by simp
  next
    case False
    from same [OF Gp' a(2) this] a(3) tables_okD(2) [OF assms(1) Gp' a(2)]
    show ?thesis using assms(4) by auto
  qed
next
  fix p' ow assume "(G(q \<mapsto> Table r l (n * 512 + i))) p' = Some ow"
  then show "page_ok ke p'" using assms(5) tables_okD(1) [OF assms(1)] by (auto split: if_splits)
qed

lemma users_ok_link:
  assumes "users_ok R G m" "G p = Some (Table r (Suc l) n)" "i < 512" "G q = None" "page_ok ke q"
    and "zero_page m' q"
    and same: "\<And>p' r' l' n' j. G p' = Some (Table r' l' n') \<Longrightarrow> j < 512 \<Longrightarrow> \<not> (p' = p \<and> j = i) \<Longrightarrow>
      load64 m' (slot p' j) = load64 m (slot p' j)"
  shows "users_ok R (G(q \<mapsto> Table r l (n * 512 + i))) m'"
  unfolding users_ok_def
proof (intro allI impI)
  fix p' r' n' j
  let ?G = "G(q \<mapsto> Table r l (n * 512 + i))"
  assume a: "?G p' = Some (Table r' 0 n')" "r' \<in> R" "j < 512" "pte_valid (load64 m' (slot p' j))"
  have q: "page_aligned q" using assms(5) by (rule page_ok_aligned)
  have "p' \<noteq> q" using a zero_page_load [OF assms(6) q a(3)] by auto
  with a have Gp': "G p' = Some (Table r' 0 n')" by simp
  with assms(2) have "\<not> (p' = p \<and> j = i)" by auto
  from same [OF Gp' a(3) this] a users_okD [OF assms(1) Gp' a(2,3)]
  show "leaf_ok ?G r' (n' * 512 + j) (load64 m' (slot p' j))"
    using assms(4) by (auto intro: leaf_ok_upd)
qed

lemma linked_up_link:
  assumes "linked_up G m" "tables_ok ke G m" "G p = Some (Table r (Suc l) n)" "i < 512"
    and "\<not> pte_valid (load64 m (slot p i))" "G q = None" "page_aligned q"
    and "load64 m' (slot p i) = PA2PTE q OR PTE_V"
    and same: "\<And>p' r' l' n' j. G p' = Some (Table r' l' n') \<Longrightarrow> j < 512 \<Longrightarrow> \<not> (p' = p \<and> j = i) \<Longrightarrow>
      load64 m' (slot p' j) = load64 m (slot p' j)"
  shows "linked_up (G(q \<mapsto> Table r l (n * 512 + i))) m'"
proof -
  have keep: "linked_up G m'"
  proof (rule linked_up_keep [OF assms(1)])
    fix p' r l k j assume a: "G p' = Some (Table r (Suc l) k)" "j < 512" "pte_valid (load64 m (slot p' j))"
    then have "\<not> (p' = p \<and> j = i)" using assms(5) by auto
    with a(1,2) show "load64 m' (slot p' j) = load64 m (slot p' j)" by (rule same)
  qed
  let ?G = "G(q \<mapsto> Table r l (n * 512 + i))"
  have l: "l < 2" using linked_upD(2) [OF assms(1,3)] by (cases "Suc l < 2") auto
  have up: "?G x = Some ow" if "G x = Some ow" for x ow using that assms(6) by auto
  have new: "?G p = Some (Table r (Suc l) ((n * 512 + i) div 512))"
    "pte_valid (load64 m' (slot p ((n * 512 + i) mod 512)))"
    "PTE2PA (load64 m' (slot p ((n * 512 + i) mod 512))) = q"
    using up [OF assms(3)] assms(4,8) PTE_link(1) [OF assms(7)] PTE_link(2) [of q] by simp_all
  show ?thesis unfolding linked_up_def
  proof (intro allI impI)
    fix p' r' l' k assume a: "?G p' = Some (Table r' l' k)"
    show "if l' < 2 then \<exists>pp. ?G pp = Some (Table r' (Suc l') (k div 512)) \<and>
         pte_valid (load64 m' (slot pp (k mod 512))) \<and> PTE2PA (load64 m' (slot pp (k mod 512))) = p'
       else l' = 2 \<and> p' = r' \<and> k = 0"
    proof (cases "p' = q")
      case True
      with a have "r' = r" "l' = l" "k = n * 512 + i" by simp_all
      then show ?thesis using l new True by (simp del: fun_upd_apply) blast
    next
      case False
      with a have "G p' = Some (Table r' l' k)" by simp
      from linked_upD [OF keep this] show ?thesis
        by (simp del: fun_upd_apply) (use up in blast)
    qed
  qed
qed

lemma link_memory:
  assumes "vm_ok R G s (q # ps)" "G p = Some (Table r (Suc l) n)" "i < 512"
  obtains s0 where "kalloc s = (q, s0)" "free_pages s0 ps" "kend s0 = kend s" "mach.more s0 = mach.more s"
    and "\<And>m'. m' = store64 (memset q 0 4096 (pmem s0)) (slot p i) (PA2PTE q OR PTE_V) \<Longrightarrow>
      same_outside {p, q} (pmem s) m' \<and> same_outside {p, q} (pmem s0) m' \<and>
      load64 m' (slot p i) = PA2PTE q OR PTE_V \<and> zero_page m' q \<and>
      (\<forall>p' r' l' n' j. G p' = Some (Table r' l' n') \<longrightarrow> j < 512 \<longrightarrow> \<not> (p' = p \<and> j = i) \<longrightarrow>
        load64 m' (slot p' j) = load64 (pmem s) (slot p' j))"
proof -
  note q = page_alloc_facts [OF assms(1)]
  have p: "page_aligned p" "p \<noteq> q" using vm_ok_pages(1) [OF assms(1)] assms(2) q by auto
  obtain s0 where s0: "kalloc s = (q, s0)" "free_pages s0 ps"
    "same_outside {q} (pmem s) (pmem s0)" "kend s0 = kend s" "mach.more s0 = mach.more s"
    using kalloc_Cons [OF vm_okD(1) [OF assms(1)]] by metis
  let ?mz = "memset q 0 4096 (pmem s0)"
  let ?m = "store64 ?mz (slot p i) (PA2PTE q OR PTE_V)"
  have m0: "same_outside {q} (pmem s) ?mz" "same_outside {q} (pmem s0) ?mz"
    using s0(3) q(3) by (auto simp: same_outside_def memset_page)
  have m: "same_outside {p} ?mz ?m" using p assms(3) by (intro store64_slot_outside)
  have out: "same_outside {p, q} (pmem s) ?m" "same_outside {p, q} (pmem s0) ?m"
    by (rule same_outside_trans [OF m0(1) m] same_outside_trans [OF m0(2) m]; simp)+
  have z: "zero_page ?m q" using m p(2) q(3) by (simp add: zero_page_def same_outside_def memset_page)
  have ld: "load64 ?m (slot p' j) = load64 (pmem s) (slot p' j)"
    if "G p' = Some (Table r' l' n')" "j < 512" "\<not> (p' = p \<and> j = i)" for p' r' l' n' j
  proof -
    have p': "page_aligned p'" "p' \<noteq> q" using vm_ok_pages(1) [OF assms(1)] that(1) q by auto
    have "load64 ?m (slot p' j) = load64 ?mz (slot p' j)"
      using p p' that assms(3) by (intro load64_store64_slot) auto
    also have "\<dots> = load64 (pmem s) (slot p' j)"
      using m0(1) p' that(2) by (intro load64_slot_cong) (auto simp: same_outside_def)
    finally show ?thesis .
  qed
  show ?thesis by (rule that [OF s0(1,2,4,5)]) (use out z ld in \<open>simp\<close>)
qed

lemma link_table:
  assumes "vm_ok R G s (q # ps)" "G p = Some (Table r (Suc l) n)" "i < 512"
    and "\<not> pte_valid (load64 (pmem s) (slot p i))"
  obtains s0 s1 where "kalloc s = (q, s0)"
    and "s1 = s0\<lparr>pmem := store64 (memset q 0 4096 (pmem s0)) (slot p i) (PA2PTE q OR PTE_V)\<rparr>"
    and "vm_ok R (G(q \<mapsto> Table r l (n * 512 + i))) s1 ps"
    and "grow r G s (q # ps) (G(q \<mapsto> Table r l (n * 512 + i))) s1 ps"
proof -
  note q = page_alloc_facts [OF assms(1)]
  let ?G = "G(q \<mapsto> Table r l (n * 512 + i))"
  obtain s0 where s0: "kalloc s = (q, s0)" "free_pages s0 ps" "kend s0 = kend s" "mach.more s0 = mach.more s"
    and m: "\<And>m'. m' = store64 (memset q 0 4096 (pmem s0)) (slot p i) (PA2PTE q OR PTE_V) \<Longrightarrow>
      same_outside {p, q} (pmem s) m' \<and> same_outside {p, q} (pmem s0) m' \<and>
      load64 m' (slot p i) = PA2PTE q OR PTE_V \<and> zero_page m' q \<and>
      (\<forall>p' r' l' n' j. G p' = Some (Table r' l' n') \<longrightarrow> j < 512 \<longrightarrow> \<not> (p' = p \<and> j = i) \<longrightarrow>
        load64 m' (slot p' j) = load64 (pmem s) (slot p' j))"
    using link_memory [OF assms(1-3)] by blast
  define s1 where "s1 = s0\<lparr>pmem := store64 (memset q 0 4096 (pmem s0)) (slot p i) (PA2PTE q OR PTE_V)\<rparr>"
  then have pm: "pmem s1 = store64 (memset q 0 4096 (pmem s0)) (slot p i) (PA2PTE q OR PTE_V)" by simp
  note m1 = m [OF pm]
  have same: "\<And>p' r' l' n' j. G p' = Some (Table r' l' n') \<Longrightarrow> j < 512 \<Longrightarrow> \<not> (p' = p \<and> j = i) \<Longrightarrow>
      load64 (pmem s1) (slot p' j) = load64 (pmem s) (slot p' j)" using m1 by blast
  have k: "kend s1 = kend s" "mach.more s1 = mach.more s" using s0 by (simp_all add: s1_def)
  have "set ps \<inter> {p, q} = {}" using vm_okD(2) [OF assms(1)] assms(2) q(5) by auto
  then have fp: "free_pages s1 ps" unfolding s1_def using s0(2) m1 pm by (intro free_pages_same) auto
  have tk: "tables_ok (kend s1) ?G (pmem s1)" unfolding k(1)
    by (rule tables_ok_link [OF vm_okD(3) [OF assms(1)] assms(2,3) q(1,2)]) (use m1 same in auto)
  have uk: "users_ok R ?G (pmem s1)"
    by (rule users_ok_link [OF vm_okD(4) [OF assms(1)] assms(2,3) q(1,2)]) (use m1 same in auto)
  have "linked_up ?G (pmem s1)"
    by (rule linked_up_link [OF vm_okD(5) [OF assms(1)] vm_okD(3) [OF assms(1)] assms(2-4) q(1,3) _ same])
      (use m1 in blast)+
  then have "vm_ok R ?G s1 ps"
    using fp tk uk vm_okD(2) [OF assms(1)] q(5) by (auto simp: vm_ok_def)
  moreover have "pte_at l' (pmem s1) p' va = pte_at l' (pmem s) p' va" if "G p' = Some (Table r' l' n')" for p' r' l' n' va
    by (rule link_pte_at [OF vm_okD(3) [OF assms(1)] assms(2-4) same _ that])
      (use m1 PTE_link(1) [OF q(3)] in simp_all)
  moreover have "same_outside (table_pages G \<union> set (q # ps)) (pmem s) (pmem s1)"
    by (rule same_outside_mono [OF conjunct1 [OF m1]]) (use assms(2) in \<open>auto simp: table_pages_def\<close>)
  moreover have "stable_entries G (pmem s) (pmem s1)"
    unfolding stable_entries_def
  proof (intro allI impI)
    fix p' r' l' n' j
    assume a: "G p' = Some (Table r' l' n')" "j < 512" "l' = 0 \<or> pte_valid (load64 (pmem s) (slot p' j))"
    then have "\<not> (p' = p \<and> j = i)" using assms(2,4) by auto
    with a(1,2) show "load64 (pmem s1) (slot p' j) = load64 (pmem s) (slot p' j)" by (rule same)
  qed
  moreover have "\<exists>ts. q # ps = ts @ ps \<and> (\<forall>q'. q' \<notin> set ts \<longrightarrow> ?G q' = G q') \<and>
      (\<forall>q' \<in> set ts. \<exists>l k. ?G q' = Some (Table r l k))"
    by (rule exI [of _ "[q]"]) simp
  ultimately have "vm_ok R ?G s1 ps" "grow r G s (q # ps) ?G s1 ps"
    using k unfolding grow_def by blast+
  with s0(1) s1_def show ?thesis by (rule that)
qed

text \<open>
  The walk that allocates: it returns the leaf entry for \<open>va\<close>, or 0 when the free list is
  exhausted; either way it only adds tables.
\<close>

definition walk_post ::
  "uint64 set \<Rightarrow> owners \<Rightarrow> 'a mach_scheme \<Rightarrow> uint64 list \<Rightarrow> uint64 \<Rightarrow> nat \<Rightarrow> uint64 \<Rightarrow> uint64 \<Rightarrow>
    uint64 \<Rightarrow> 'a mach_scheme \<Rightarrow> owners \<Rightarrow> uint64 list \<Rightarrow> bool" where
  "walk_post R G s ps p l r va e s' G' ps' \<longleftrightarrow>
    vm_ok R G' s' ps' \<and> grow r G s ps G' s' ps' \<and>
    (e = 0 \<and> ps' = [] \<or>
     (\<exists>q. e \<noteq> 0 \<and> G' q = Some (Table r 0 (vpath 0 va)) \<and> e = slot q (unat (PX 0 va)) \<and>
       lookup l (pmem s') p va = Some e))"

lemma grow_pte_at:
  "grow r0 G s ps G' s' ps' \<Longrightarrow> G p = Some (Table r l n) \<Longrightarrow> pte_at l (pmem s') p va = pte_at l (pmem s) p va"
  unfolding grow_def by blast

lemma grow_stable:
  "grow r0 G s ps G' s' ps' \<Longrightarrow> G p = Some (Table r l n) \<Longrightarrow> i < 512 \<Longrightarrow>
    l = 0 \<or> pte_valid (load64 (pmem s) (slot p i)) \<Longrightarrow>
    load64 (pmem s') (slot p i) = load64 (pmem s) (slot p i)"
  unfolding grow_def by (blast intro: stable_entriesD)

lemma walk_level_alloc:
  assumes "vm_ok R G s ps" "G p = Some (Table r l (vpath l va))"
  shows "\<exists>e s' G' ps'. walk_level l p va True s = (e, s') \<and> walk_post R G s ps p l r va e s' G' ps'"
  using assms
proof (induction l arbitrary: p G s ps)
  case 0
  have "slot p (unat (PX 0 va)) \<noteq> 0"
    using vm_ok_pages(1,2) [OF "0.prems"] PX_bound by (intro slot_nonzero) auto
  with 0 show ?case unfolding walk_post_def by (auto intro: grow_refl)
next
  case (Suc l)
  let ?i = "unat (PX (Suc l) va)"
  let ?e = "load64 (pmem s) (slot p ?i)"
  show ?case
  proof (cases "pte_valid ?e")
    case True
    have c: "G (PTE2PA ?e) = Some (Table r l (vpath l va))"
      using tables_okD(2) [OF vm_okD(3) [OF Suc.prems(1)] Suc.prems(2) PX_bound True]
      by (simp only: vpath_Suc)
    from Suc.IH [OF Suc.prems(1) c] obtain e s' G' ps' where
      w: "walk_level l (PTE2PA ?e) va True s = (e, s')"
      "walk_post R G s ps (PTE2PA ?e) l r va e s' G' ps'" by blast
    then have g: "grow r G s ps G' s' ps'" by (simp add: walk_post_def)
    have "lookup (Suc l) (pmem s') p va = lookup l (pmem s') (PTE2PA ?e) va"
      using grow_stable [OF g Suc.prems(2) PX_bound] True by (simp add: Let_def)
    then have "walk_post R G s ps p (Suc l) r va e s' G' ps'" using w(2) by (simp add: walk_post_def)
    moreover have "walk_level (Suc l) p va True s = (e, s')"
      using True w(1) by (simp add: pte_valid_def Let_def)
    ultimately show ?thesis by blast
  next
    case False
    show ?thesis
    proof (cases ps)
      case Nil
      with Suc.prems(1) have "kalloc s = (0, s)" by (intro kalloc_Nil) (simp add: vm_ok_def)
      with False Suc.prems(1) Nil have "walk_level (Suc l) p va True s = (0, s)"
        "walk_post R G s ps p (Suc l) r va 0 s G []"
        by (auto simp: pte_valid_def Let_def walk_post_def intro: grow_refl)
      then show ?thesis by blast
    next
      case (Cons q qs)
      let ?G = "G(q \<mapsto> Table r l (vpath (Suc l) va * 512 + ?i))"
      from link_table [OF Suc.prems(1) [unfolded Cons] Suc.prems(2) PX_bound False]
      obtain s0 s1 where s0: "kalloc s = (q, s0)"
        and s1: "s1 = s0\<lparr>pmem := store64 (memset q 0 4096 (pmem s0)) (slot p ?i) (PA2PTE q OR PTE_V)\<rparr>"
        and ok: "vm_ok R ?G s1 qs" and g1: "grow r G s (q # qs) ?G s1 qs" by blast
      have q: "q \<noteq> 0" "page_aligned q" "G q = None"
        using page_alloc_facts Suc.prems(1) Cons by blast+
      have Gq: "?G q = Some (Table r l (vpath l va))" by (simp only: vpath_Suc) simp
      have Gp: "?G p = Some (Table r (Suc l) (vpath (Suc l) va))" using Suc.prems(2) q by auto
      from Suc.IH [OF ok Gq] obtain e s' G' ps' where
        w: "walk_level l q va True s1 = (e, s')" "walk_post R ?G s1 qs q l r va e s' G' ps'" by blast
      then have g2: "grow r ?G s1 qs G' s' ps'" by (simp add: walk_post_def)
      have "load64 (pmem s1) (slot p ?i) = PA2PTE q OR PTE_V" by (simp only: s1) simp
      then have "load64 (pmem s') (slot p ?i) = PA2PTE q OR PTE_V"
        using grow_stable [OF g2 Gp PX_bound] PTE_link(2) [of q] by simp
      then have "lookup (Suc l) (pmem s') p va = lookup l (pmem s') q va"
        using PTE_link(1) [OF q(2)] PTE_link(2) [of q] by (simp add: Let_def)
      then have "walk_post R G s ps p (Suc l) r va e s' G' ps'"
        using w(2) grow_trans [OF g1 g2 Suc.prems(1) [unfolded Cons]] Cons by (simp add: walk_post_def)
      moreover have "walk_level (Suc l) p va True s = (e, s')"
        using False w(1) q(1) s0 by (simp add: pte_valid_def Let_def s1)
      ultimately show ?thesis by blast
    qed
  qed
qed

end
