(* ===== verification/Uvm.thy ===== *)
theory Uvm
  imports Pagetable
begin

text \<open>
  What \<^verbatim>\<open>mappages\<close>, \<^verbatim>\<open>uvmunmap\<close>, \<^verbatim>\<open>uvmalloc\<close>, \<^verbatim>\<open>uvmdealloc\<close>,
  \<^verbatim>\<open>uvmcopy\<close> and the copy routines do to the translations of an address space and to the
  pages behind them, on states that satisfy the owner invariant of \<open>Pagetable\<close>.
\<close>

section \<open>Changing one leaf entry\<close>

lemma lookup_typed:
  assumes "tables_ok ke G m" "G p = Some (Table r l (vpath l va))" "lookup l m p va = Some e"
  shows "\<exists>q. G q = Some (Table r 0 (vpath 0 va)) \<and> e = slot q (unat (PX 0 va))"
  using assms(2,3)
proof (induction l arbitrary: p)
  case 0
  then show ?case by auto
next
  case (Suc l)
  let ?e = "load64 m (slot p (unat (PX (Suc l) va)))"
  from Suc.prems(2) have v: "pte_valid ?e" "lookup l m (PTE2PA ?e) va = Some e"
    by (simp_all add: Let_def split: if_splits)
  from tables_okD(2) [OF assms(1) Suc.prems(1) PX_bound v(1)]
  have "G (PTE2PA ?e) = Some (Table r l (vpath l va))" by (simp only: vpath_Suc)
  from Suc.IH [OF this v(2)] show ?case .
qed

lemma lookup_inner_cong:
  assumes "tables_ok ke G m" "G p = Some (Table r l n)"
    and "\<And>p r l n i. G p = Some (Table r (Suc l) n) \<Longrightarrow> i < 512 \<Longrightarrow> load64 m' (slot p i) = load64 m (slot p i)"
  shows "lookup l m' p va = lookup l m p va"
  using assms(2)
proof (induction l arbitrary: p n)
  case 0
  then show ?case by simp
next
  case (Suc l)
  let ?e = "load64 m (slot p (unat (PX (Suc l) va)))"
  have "load64 m' (slot p (unat (PX (Suc l) va))) = ?e" using assms(3) [OF Suc.prems PX_bound] .
  moreover have "lookup l m' (PTE2PA ?e) va = lookup l m (PTE2PA ?e) va" if "pte_valid ?e"
    using Suc.IH tables_okD(2) [OF assms(1) Suc.prems PX_bound that] by blast
  ultimately show ?case by (simp add: Let_def)
qed

lemma PX_vpn: "unat (PX l va) = vpn va div 2 ^ (9 * l) mod 512"
  by (simp add: PX_unat vpn_def power_add div_mult2_eq)

lemma PX_cong: "vpn va = vpn va' \<Longrightarrow> PX l va = PX l va'"
  by (simp add: word_unat_eq_iff PX_vpn)

lemma lookup_cong: "vpn va = vpn va' \<Longrightarrow> lookup l m p va = lookup l m p va'"
  by (induction l arbitrary: p) (simp_all add: PX_cong [of va va'] Let_def)

lemma pte_of_cong: "vpn va = vpn va' \<Longrightarrow> pte_of m r va = pte_of m r va'"
  by (simp add: pte_of_def pte_at_lookup lookup_cong [of va va'])

lemma slot_inject:
  assumes "slot p i = slot q j" "page_aligned p" "page_aligned q" "i < 512" "j < 512"
  shows "p = q \<and> i = j"
proof -
  have p: "p = q" using assms slot_page0 by metis
  with assms(1) have "(of_nat (8 * i) :: uint64) = of_nat (8 * j)" by simp
  moreover have "unat (of_nat (8 * i) :: uint64) = 8 * i" "unat (of_nat (8 * j) :: uint64) = 8 * j"
    using assms by (intro unat_of_nat64; simp)+
  ultimately show ?thesis using p by simp
qed

text \<open>Writing \<open>e\<close> into the leaf entry for \<open>va\<close>.\<close>

lemma set_leaf_loads:
  assumes "tables_ok ke G m" "G q = Some (Table r 0 n)" "i < 512" "G p = Some (Table r' l k)" "j < 512"
  shows "load64 (store64 m (slot q i) e) (slot p j) = (if p = q \<and> j = i then e else load64 m (slot p j))"
  using assms by (auto intro!: load64_store64_slot intro: page_ok_aligned dest: tables_okD(1))

lemma set_leaf_ok:
  assumes "vm_ok R G s ps" "G q = Some (Table r 0 n)" "i < 512"
    and "r \<in> R \<Longrightarrow> pte_valid e \<Longrightarrow> leaf_ok G r (n * 512 + i) e"
  shows "vm_ok R G (s\<lparr>pmem := store64 (pmem s) (slot q i) e\<rparr>) ps"
proof -
  note ok = vm_okD [OF assms(1)]
  let ?m = "store64 (pmem s) (slot q i) e"
  note ld = set_leaf_loads [OF ok(3) assms(2,3)]
  have al: "page_aligned q" using vm_ok_pages(1) [OF assms(1) assms(2)] .
  have "set ps \<inter> {q} = {}" using ok(2) assms(2) by auto
  then have "free_pages (s\<lparr>pmem := ?m\<rparr>) ps"
    using free_pages_same [OF ok(1) store64_slot_outside [OF al assms(3)]] by blast
  moreover have "tables_ok (kend s) G ?m"
    unfolding tables_ok_def
  proof (intro conjI allI impI)
    fix p r' l k j
    assume a: "G p = Some (Table r' (Suc l) k)" "j < 512" "pte_valid (load64 ?m (slot p j))"
    then have "load64 ?m (slot p j) = load64 (pmem s) (slot p j)" using ld [OF a(1,2)] assms(2) by auto
    with a tables_okD(2) [OF ok(3) a(1,2)]
    show "G (PTE2PA (load64 ?m (slot p j))) = Some (Table r' l (k * 512 + j))" by simp
  qed (use tables_okD(1) [OF ok(3)] in blast)
  moreover have "users_ok R G ?m"
    unfolding users_ok_def
  proof (intro allI impI)
    fix p r' k j
    assume a: "G p = Some (Table r' 0 k)" "r' \<in> R" "j < 512" "pte_valid (load64 ?m (slot p j))"
    then show "leaf_ok G r' (k * 512 + j) (load64 ?m (slot p j))"
      using ld [OF a(1,3)] assms(2,4) users_okD [OF ok(4) a(1-3)] by (auto split: if_splits)
  qed
  moreover have "linked_up G ?m"
    by (rule linked_up_keep [OF ok(5)]) (use ld assms(2) in auto)
  ultimately show ?thesis using ok(2) by (simp add: vm_ok_def)
qed

lemma set_leaf_pte:
  assumes "vm_ok R G s ps" "is_root G r" "va < MAXVA" "lookup 2 (pmem s) r va = Some a"
    and "is_root G r'" "va' < MAXVA"
  shows "pte_of (store64 (pmem s) a e) r' va' =
    (if r' = r \<and> vpn va' = vpn va then e else pte_of (pmem s) r' va')"
proof -
  note tk = vm_okD(3) [OF assms(1)]
  let ?m = "store64 (pmem s) a e"
  have G: "G r = Some (Table r 2 (vpath 2 va))" "G r' = Some (Table r' 2 (vpath 2 va'))"
    using assms by (simp_all add: is_root_def vpath_2)
  from lookup_typed [OF tk G(1) assms(4)] obtain q where
    q: "G q = Some (Table r 0 (vpath 0 va))" "a = slot q (unat (PX 0 va))" by blast
  note ld = set_leaf_loads [OF tk q(1) PX_bound]
  have lk: "lookup 2 ?m r' va' = lookup 2 (pmem s) r' va'"
    by (rule lookup_inner_cong [OF tk G(2)]) (use ld q in \<open>auto\<close>)
  show ?thesis
  proof (cases "lookup 2 (pmem s) r' va'")
    case None
    then have "\<not> (r' = r \<and> vpn va' = vpn va)" using assms(4) lookup_cong [of va' va] by auto
    with None lk show ?thesis by (auto simp: pte_of_def pte_at_lookup)
  next
    case (Some b)
    from lookup_typed [OF tk G(2) Some] obtain q' where
      q': "G q' = Some (Table r' 0 (vpath 0 va'))" "b = slot q' (unat (PX 0 va'))" by blast
    have "load64 ?m b = (if q' = q \<and> PX 0 va' = PX 0 va then e else load64 (pmem s) b)"
      unfolding q'(2) q(2) using ld [OF q'(1) PX_bound] by (simp add: word_unat_eq_iff)
    moreover have "q' = q \<and> PX 0 va' = PX 0 va \<longleftrightarrow> r' = r \<and> vpn va' = vpn va"
    proof
      assume "q' = q \<and> PX 0 va' = PX 0 va"
      with q q' vpath_0 [of va] vpath_0 [of va'] show "r' = r \<and> vpn va' = vpn va" by simp
    next
      assume e: "r' = r \<and> vpn va' = vpn va"
      then have "b = a" using Some assms(4) lookup_cong [of va' va] by simp
      then have "slot q' (unat (PX 0 va')) = slot q (unat (PX 0 va))" using q(2) q'(2) by simp
      from slot_inject [OF this vm_ok_pages(1) [OF assms(1) q'(1)] vm_ok_pages(1) [OF assms(1) q(1)]
          PX_bound PX_bound]
      show "q' = q \<and> PX 0 va' = PX 0 va" using e PX_cong by blast
    qed
    ultimately show ?thesis using Some lk by (simp add: pte_of_def pte_at_lookup)
  qed
qed

section \<open>Mapping pages\<close>

definition own_grow :: "uint64 \<Rightarrow> owners \<Rightarrow> uint64 list \<Rightarrow> owners \<Rightarrow> uint64 list \<Rightarrow> bool" where
  "own_grow r G ps G' ps' \<longleftrightarrow> (\<exists>ts. ps = ts @ ps' \<and> (\<forall>q. q \<notin> set ts \<longrightarrow> G' q = G q) \<and>
      (\<forall>q \<in> set ts. \<exists>l k. G' q = Some (Table r l k)))"

text \<open>Memory that is neither a table nor free, and the rest of the machine, are unchanged.\<close>

definition vm_frame :: "owners \<Rightarrow> 'a mach_scheme \<Rightarrow> uint64 list \<Rightarrow> 'a mach_scheme \<Rightarrow> bool" where
  "vm_frame G s ps s' \<longleftrightarrow> same_outside (table_pages G \<union> set ps) (pmem s) (pmem s') \<and>
    kend s' = kend s \<and> mach.more s' = mach.more s"

lemma own_grow_refl: "own_grow r G ps G ps"
  by (auto simp: own_grow_def)

lemma vm_frame_refl: "vm_frame G s ps s"
  by (simp add: vm_frame_def)

lemma own_grow_Some:
  "own_grow r G ps G' ps' \<Longrightarrow> set ps \<inter> dom G = {} \<Longrightarrow> G p = Some ow \<Longrightarrow> G' p = Some ow"
proof -
  assume a: "own_grow r G ps G' ps'" "set ps \<inter> dom G = {}" "G p = Some ow"
  then obtain ts where ts: "ps = ts @ ps'" "\<forall>q. q \<notin> set ts \<longrightarrow> G' q = G q" by (auto simp: own_grow_def)
  then have "p \<notin> set ts" using a by auto
  with ts a show "G' p = Some ow" by simp
qed

lemma own_grow_root:
  "own_grow r G ps G' ps' \<Longrightarrow> vm_ok R G s ps \<Longrightarrow> is_root G r' \<Longrightarrow> is_root G' r'"
  unfolding is_root_def by (blast intro: own_grow_Some dest: vm_okD(2))

lemma own_grow_leaf:
  "own_grow r G ps G' ps' \<Longrightarrow> vm_ok R G s ps \<Longrightarrow> leaf_ok G r' v e \<Longrightarrow> leaf_ok G' r' v e"
  by (auto simp: leaf_ok_def split: if_splits intro: own_grow_Some dest: vm_okD(2))

lemma own_grow_trans:
  assumes "own_grow r G ps G1 ps1" "own_grow r G1 ps1 G2 ps2" "distinct ps"
  shows "own_grow r G ps G2 ps2"
proof -
  obtain ts where ts: "ps = ts @ ps1" "\<And>q. q \<notin> set ts \<Longrightarrow> G1 q = G q"
    "\<And>q. q \<in> set ts \<Longrightarrow> \<exists>l k. G1 q = Some (Table r l k)" using assms(1) by (auto simp: own_grow_def)
  obtain us where us: "ps1 = us @ ps2" "\<And>q. q \<notin> set us \<Longrightarrow> G2 q = G1 q"
    "\<And>q. q \<in> set us \<Longrightarrow> \<exists>l k. G2 q = Some (Table r l k)" using assms(2) by (auto simp: own_grow_def)
  have "\<exists>l k. G2 q = Some (Table r l k)" if "q \<in> set (ts @ us)" for q
    using that ts(3) us(2,3) by (cases "q \<in> set us") auto
  then show ?thesis unfolding own_grow_def
    using ts us by (intro exI [of _ "ts @ us"]) auto
qed

lemma own_grow_pages:
  "own_grow r G ps G' ps' \<Longrightarrow> table_pages G' \<union> set ps' \<subseteq> table_pages G \<union> set ps"
  by (auto simp: own_grow_def table_pages_def)

lemma vm_frame_trans:
  assumes "vm_frame G s ps s1" "vm_frame G1 s1 ps1 s2" "own_grow r G ps G1 ps1"
  shows "vm_frame G s ps s2"
  using assms own_grow_pages [OF assms(3)]
  by (auto simp: vm_frame_def intro: same_outside_trans)

lemma grow_own: "grow r G s ps G' s' ps' \<Longrightarrow> own_grow r G ps G' ps'"
  and grow_frame: "grow r G s ps G' s' ps' \<Longrightarrow> vm_frame G s ps s'"
  by (auto simp: grow_def own_grow_def vm_frame_def)

lemma grow_pte_of: "grow r0 G s ps G' s' ps' \<Longrightarrow> is_root G r \<Longrightarrow> pte_of (pmem s') r va = pte_of (pmem s) r va"
  unfolding pte_of_def is_root_def by (rule grow_pte_at)

text \<open>
  Walk to the entry for \<open>va\<close>, allocating, and write \<open>e\<close> there: the translations are the old ones
  with \<open>va\<close>'s page changed.
\<close>

lemma walk_alloc:
  assumes "vm_ok R G s ps" "is_root G r" "va < MAXVA"
  obtains e s1 G1 ps1 where "walk r va True s = Ok (e, s1)" "vm_ok R G1 s1 ps1"
    "own_grow r G ps G1 ps1" "vm_frame G s ps s1"
    "\<And>r' va'. is_root G r' \<Longrightarrow> pte_of (pmem s1) r' va' = pte_of (pmem s) r' va'"
    "e = 0 \<Longrightarrow> ps1 = []"
    "e \<noteq> 0 \<Longrightarrow> lookup 2 (pmem s1) r va = Some e"
proof -
  have "G r = Some (Table r 2 (vpath 2 va))" using assms by (simp add: is_root_def vpath_2)
  from walk_level_alloc [OF assms(1) this] obtain e s1 G1 ps1 where
    w: "walk_level 2 r va True s = (e, s1)" "walk_post R G s ps r 2 r va e s1 G1 ps1" by blast
  then have "walk r va True s = Ok (e, s1)" using assms(3) by (simp add: walk_def)
  moreover from w(2) have g: "grow r G s ps G1 s1 ps1" by (simp add: walk_post_def)
  ultimately show ?thesis
    using w(2) by (intro that [OF _ _ grow_own [OF g] grow_frame [OF g] grow_pte_of [OF g]])
      (auto simp: walk_post_def)
qed

lemma lookup_load:
  "lookup 2 m r va = Some e \<Longrightarrow> load64 m e = pte_of m r va"
  by (simp add: pte_of_def pte_at_lookup)

lemma set_leaf:
  assumes "vm_ok R G s ps" "is_root G r" "va < MAXVA" "lookup 2 (pmem s) r va = Some a"
    and "r \<in> R \<Longrightarrow> pte_valid e \<Longrightarrow> leaf_ok G r (vpn va) e"
  shows "vm_ok R G (s\<lparr>pmem := store64 (pmem s) a e\<rparr>) ps"
    and "vm_frame G s ps (s\<lparr>pmem := store64 (pmem s) a e\<rparr>)"
proof -
  have G: "G r = Some (Table r 2 (vpath 2 va))" using assms by (simp add: is_root_def vpath_2)
  from lookup_typed [OF vm_okD(3) [OF assms(1)] G assms(4)] obtain q where
    q: "G q = Some (Table r 0 (vpath 0 va))" "a = slot q (unat (PX 0 va))" by blast
  show "vm_ok R G (s\<lparr>pmem := store64 (pmem s) a e\<rparr>) ps"
    unfolding q(2) using assms(5) by (intro set_leaf_ok [OF assms(1) q(1) PX_bound]) (simp only: vpath_0)
  have "same_outside {q} (pmem s) (store64 (pmem s) a e)"
    unfolding q(2) using vm_ok_pages(1) [OF assms(1) q(1)] by (intro store64_slot_outside PX_bound)
  then show "vm_frame G s ps (s\<lparr>pmem := store64 (pmem s) a e\<rparr>)"
    using q(1) by (auto simp: vm_frame_def table_pages_def intro: same_outside_mono)
qed

text \<open>
  The outcome of mapping: the first \<open>j\<close> of the pages from \<open>a\<close> have been mapped to consecutive
  physical pages from \<open>pa\<close>, and no other translation of any address space has changed.
\<close>

definition mapped_pte :: "uint64 \<Rightarrow> uint64 \<Rightarrow> uint64 \<Rightarrow> uint64 \<Rightarrow> uint64" where
  "mapped_pte a pa perm va = PA2PTE (pa + of_nat (vpn va - vpn a) * PGSIZE) OR perm OR PTE_V"

definition maps_run ::
  "owners \<Rightarrow> mem \<Rightarrow> mem \<Rightarrow> uint64 \<Rightarrow> uint64 \<Rightarrow> nat \<Rightarrow> uint64 \<Rightarrow> uint64 \<Rightarrow> bool" where
  "maps_run G m m' r a j pa perm \<longleftrightarrow>
    (\<forall>r' va. is_root G r' \<longrightarrow> va < MAXVA \<longrightarrow> pte_of m' r' va =
      (if r' = r \<and> vpn a \<le> vpn va \<and> vpn va < vpn a + j then mapped_pte a pa perm va
       else pte_of m r' va))"

lemma maps_runD:
  "maps_run G m m' r a j pa perm \<Longrightarrow> is_root G r' \<Longrightarrow> va < MAXVA \<Longrightarrow> pte_of m' r' va =
      (if r' = r \<and> vpn a \<le> vpn va \<and> vpn va < vpn a + j then mapped_pte a pa perm va
       else pte_of m r' va)"
  by (simp add: maps_run_def)

lemma vpn_add_PGSIZE: "a < MAXVA \<Longrightarrow> vpn (a + PGSIZE) = Suc (vpn a)"
  by (simp add: vpn_def unat_add_PGSIZE)

lemma mapped_pte_next:
  assumes "a < MAXVA" "Suc (vpn a) \<le> vpn va"
  shows "mapped_pte (a + PGSIZE) (pa + PGSIZE) perm va = mapped_pte a pa perm va"
proof -
  have "vpn va - vpn a = Suc (vpn va - vpn (a + PGSIZE))" using assms by (simp add: vpn_add_PGSIZE)
  then have "pa + of_nat (vpn va - vpn a) * PGSIZE =
      pa + PGSIZE + of_nat (vpn va - vpn (a + PGSIZE)) * PGSIZE" by (simp add: algebra_simps)
  then show ?thesis by (simp only: mapped_pte_def)
qed

lemma pte_valid_or: "pte_valid (x OR y OR PTE_V)"
  by (simp add: pte_valid_bit bit_or_iff PTE_bit)

lemma map_one:
  assumes "vm_ok R G s ps" "is_root G r" "a < MAXVA" "\<not> pte_valid (pte_of (pmem s) r a)"
    and "r \<in> R \<Longrightarrow> leaf_ok G r (vpn a) (PA2PTE pa OR perm OR PTE_V)"
  obtains (full) s1 G1 where "walk r a True s = Ok (0, s1)" "vm_ok R G1 s1 []" "own_grow r G ps G1 []"
      "vm_frame G s ps s1" "maps_run G (pmem s) (pmem s1) r a 0 pa perm"
    | (ok) e s1 s2 G1 ps1 where "walk r a True s = Ok (e, s1)" "e \<noteq> 0" "\<not> pte_valid (load64 (pmem s1) e)"
      "s2 = s1\<lparr>pmem := store64 (pmem s1) e (PA2PTE pa OR perm OR PTE_V)\<rparr>"
      "vm_ok R G1 s2 ps1" "own_grow r G ps G1 ps1" "vm_frame G s ps s2"
      "maps_run G (pmem s) (pmem s2) r a 1 pa perm"
proof -
  let ?e = "PA2PTE pa OR perm OR PTE_V"
  from walk_alloc [OF assms(1-3)] obtain e s1 G1 ps1 where
    w: "walk r a True s = Ok (e, s1)" "vm_ok R G1 s1 ps1" "own_grow r G ps G1 ps1" "vm_frame G s ps s1"
    "\<And>r' va'. is_root G r' \<Longrightarrow> pte_of (pmem s1) r' va' = pte_of (pmem s) r' va'"
    "e = 0 \<Longrightarrow> ps1 = []" "e \<noteq> 0 \<Longrightarrow> lookup 2 (pmem s1) r a = Some e" by blast
  show ?thesis
  proof (cases "e = 0")
    case True
    with w show ?thesis by (intro full) (auto simp: maps_run_def)
  next
    case False
    note lk = w(7) [OF False]
    have r1: "is_root G1 r'" if "is_root G r'" for r' using own_grow_root [OF w(3) assms(1) that] .
    let ?s = "s1\<lparr>pmem := store64 (pmem s1) e ?e\<rparr>"
    have lf: "leaf_ok G1 r (vpn a) ?e" if "r \<in> R" using own_grow_leaf [OF w(3) assms(1) assms(5) [OF that]] .
    note sl = set_leaf [OF w(2) r1 [OF assms(2)] assms(3) lk lf]
    have inv: "\<not> pte_valid (load64 (pmem s1) e)"
      using lookup_load [OF lk] w(5) [OF assms(2)] assms(4) by simp
    have mp: "maps_run G (pmem s) (pmem ?s) r a 1 pa perm"
      unfolding maps_run_def
    proof (intro allI impI)
      fix r' va assume a: "is_root G r'" "va < MAXVA"
      have "mapped_pte a pa perm va = ?e" if "vpn va = vpn a" using that by (simp add: mapped_pte_def)
      then show "pte_of (pmem ?s) r' va = (if r' = r \<and> vpn a \<le> vpn va \<and> vpn va < vpn a + 1
          then mapped_pte a pa perm va else pte_of (pmem s) r' va)"
        using set_leaf_pte [OF w(2) r1 [OF assms(2)] assms(3) lk r1 [OF a(1)] a(2), of ?e] w(5) [OF a(1)]
        by auto
    qed
    show ?thesis
      by (rule ok [OF w(1) False inv refl sl(1) w(3) vm_frame_trans [OF w(4) sl(2) w(3)] mp])
  qed
qed

definition map_post ::
  "uint64 set \<Rightarrow> owners \<Rightarrow> 'a mach_scheme \<Rightarrow> uint64 list \<Rightarrow> uint64 \<Rightarrow> uint64 \<Rightarrow> uint64 \<Rightarrow> uint64 \<Rightarrow>
    'a mach_scheme \<Rightarrow> owners \<Rightarrow> uint64 list \<Rightarrow> nat \<Rightarrow> bool" where
  "map_post R G s ps r a pa perm s' G' ps' j \<longleftrightarrow>
    vm_ok R G' s' ps' \<and> own_grow r G ps G' ps' \<and> vm_frame G s ps s' \<and>
    maps_run G (pmem s) (pmem s') r a j pa perm"

lemma maps_run_Suc:
  assumes "maps_run G m m1 r a 1 pa perm" "maps_run G1 m1 m2 r (a + PGSIZE) j (pa + PGSIZE) perm"
    and "a < MAXVA" "\<And>r'. is_root G r' \<Longrightarrow> is_root G1 r'"
  shows "maps_run G m m2 r a (Suc j) pa perm"
  unfolding maps_run_def
proof (intro allI impI)
  fix r' va assume a: "is_root G r'" "va < MAXVA"
  show "pte_of m2 r' va = (if r' = r \<and> vpn a \<le> vpn va \<and> vpn va < vpn a + Suc j
      then mapped_pte a pa perm va else pte_of m r' va)"
    using maps_runD [OF assms(1) a] maps_runD [OF assms(2) assms(4) [OF a(1)] a(2)]
      mapped_pte_next [OF assms(3), of va pa perm]
    by (auto simp: vpn_add_PGSIZE [OF assms(3)])
qed

lemma map_post_Suc:
  assumes "vm_ok R G s ps" "own_grow r G ps G1 ps1" "vm_frame G s ps s1"
    "maps_run G (pmem s) (pmem s1) r a 1 pa perm" "a < MAXVA"
    "map_post R G1 s1 ps1 r (a + PGSIZE) (pa + PGSIZE) perm s' G' ps' j"
  shows "map_post R G s ps r a pa perm s' G' ps' (Suc j)"
proof -
  have "distinct ps" using assms(1) by (auto simp: vm_ok_def free_pages_def)
  moreover have "maps_run G (pmem s) (pmem s') r a (Suc j) pa perm"
    by (rule maps_run_Suc [OF assms(4) _ assms(5) own_grow_root [OF assms(2,1)]])
      (use assms(6) in \<open>simp_all add: map_post_def\<close>)
  ultimately show ?thesis
    using assms own_grow_trans [OF assms(2)] vm_frame_trans [OF assms(3) _ assms(2)]
    by (auto simp: map_post_def)
qed

lemma leaf_ok_next:
  assumes "vm_ok R G s ps" "own_grow r G ps G1 ps1" "a < MAXVA" "r \<in> R"
    and "\<And>va. r \<in> R \<Longrightarrow> vpn a \<le> vpn va \<Longrightarrow> vpn va \<le> vpn a + Suc n \<Longrightarrow> leaf_ok G r (vpn va) (mapped_pte a pa perm va)"
    and "vpn (a + PGSIZE) \<le> vpn va" "vpn va \<le> vpn (a + PGSIZE) + n"
  shows "leaf_ok G1 r (vpn va) (mapped_pte (a + PGSIZE) (pa + PGSIZE) perm va)"
  using assms own_grow_leaf [OF assms(2,1)] mapped_pte_next [OF assms(3), of va pa perm]
  by (simp add: vpn_add_PGSIZE)

lemma mappages_loop_run:
  assumes "vm_ok R G s ps" "is_root G r" "unat a + 4096 * n < unat MAXVA"
    and "\<And>va. va < MAXVA \<Longrightarrow> vpn a \<le> vpn va \<Longrightarrow> vpn va \<le> vpn a + n \<Longrightarrow> \<not> pte_valid (pte_of (pmem s) r va)"
    and "\<And>va. r \<in> R \<Longrightarrow> vpn a \<le> vpn va \<Longrightarrow> vpn va \<le> vpn a + n \<Longrightarrow> leaf_ok G r (vpn va) (mapped_pte a pa perm va)"
  shows "\<exists>ret s' G' ps' j. mappages_loop r a (a + of_nat n * PGSIZE) pa perm s = Ok (ret, s') \<and>
    map_post R G s ps r a pa perm s' G' ps' j \<and> (ret = 0 \<and> j = Suc n \<or> ret = -1 \<and> j \<le> n \<and> ps' = [])"
  using assms
proof (induction n arbitrary: a pa s G ps)
  case 0
  have a: "a < MAXVA" using "0.prems"(3) by (simp add: word_less_nat_alt)
  have lf: "leaf_ok G r (vpn a) (PA2PTE pa OR perm OR PTE_V)" if "r \<in> R"
    using "0.prems"(5) [OF that, of a] by (simp add: mapped_pte_def)
  show ?case
  proof (rule map_one [OF "0.prems"(1,2) a "0.prems"(4) [OF a order_refl le_add1] lf],
      goal_cases mem full ok)
    case mem
    then show ?case .
  next
    case full
    then show ?thesis by (subst mappages_loop.simps) (force simp: map_post_def)
  next
    case (ok e s1 s2 G1 ps1)
    then have "mappages_loop r a (a + of_nat 0 * PGSIZE) pa perm s = Ok (0, s2)"
      by (subst mappages_loop.simps) (simp add: pte_valid_def)
    then show ?thesis using ok(5-8) by (fastforce simp: map_post_def)
  qed
next
  case (Suc n)
  have a: "a < MAXVA" using Suc.prems(3) by (simp add: word_less_nat_alt)
  have ua: "unat (a + PGSIZE) = unat a + 4096" using a by (rule unat_add_PGSIZE)
  have lim: "a + PGSIZE + of_nat n * PGSIZE = a + of_nat (Suc n) * PGSIZE" by (simp add: algebra_simps)
  have ne: "a \<noteq> a + of_nat (Suc n) * PGSIZE"
  proof
    assume "a = a + of_nat (Suc n) * PGSIZE"
    then have "(of_nat (Suc n * 4096) :: uint64) = 0" by (simp add: PGSIZE_def)
    moreover have "unat (of_nat (Suc n * 4096) :: uint64) = Suc n * 4096"
      using Suc.prems(3) by (intro unat_of_nat64) (simp add: MAXVA_unat)
    ultimately show False by simp
  qed
  have lf: "leaf_ok G r (vpn a) (PA2PTE pa OR perm OR PTE_V)" if "r \<in> R"
    using Suc.prems(5) [OF that, of a] by (simp add: mapped_pte_def)
  show ?case
  proof (rule map_one [OF Suc.prems(1,2) a Suc.prems(4) [OF a order_refl le_add1] lf],
      goal_cases mem full ok)
    case mem
    then show ?case .
  next
    case full
    then show ?thesis
      by (subst mappages_loop.simps) (force simp: map_post_def)
  next
    case (ok e s1 s2 G1 ps1)
    have nv: "\<not> pte_valid (pte_of (pmem s2) r va)"
      if "va < MAXVA" "vpn (a + PGSIZE) \<le> vpn va" "vpn va \<le> vpn (a + PGSIZE) + n" for va
      using that Suc.prems(4) [of va] maps_runD [OF ok(8) Suc.prems(2), of va] by (simp add: vpn_add_PGSIZE [OF a])
    have nl: "leaf_ok G1 r (vpn va) (mapped_pte (a + PGSIZE) (pa + PGSIZE) perm va)"
      if "r \<in> R" "vpn (a + PGSIZE) \<le> vpn va" "vpn va \<le> vpn (a + PGSIZE) + n" for va
      by (rule leaf_ok_next [OF Suc.prems(1) ok(6) a that(1) Suc.prems(5) that(2,3)])
    from Suc.prems(3) ua have "unat (a + PGSIZE) + 4096 * n < unat MAXVA" by simp
    from Suc.IH [OF ok(5) own_grow_root [OF ok(6) Suc.prems(1,2)] this nv nl]
    obtain ret s' G' ps' j where
      "mappages_loop r (a + PGSIZE) (a + of_nat (Suc n) * PGSIZE) (pa + PGSIZE) perm s2 = Ok (ret, s')"
      "map_post R G1 s2 ps1 r (a + PGSIZE) (pa + PGSIZE) perm s' G' ps' j"
      "ret = 0 \<and> j = Suc n \<or> ret = -1 \<and> j \<le> n \<and> ps' = []"
      unfolding lim by blast
    moreover from this(1) ok(1-4) ne
    have "mappages_loop r a (a + of_nat (Suc n) * PGSIZE) pa perm s = Ok (ret, s')"
      by (subst mappages_loop.simps) (simp add: pte_valid_def)
    ultimately show ?thesis using map_post_Suc [OF Suc.prems(1) ok(6,7,8) a] by fastforce
  qed
qed

section \<open>Unmapping pages\<close>

lemma walk_lookup:
  assumes "vm_ok R G s ps" "is_root G r" "va < MAXVA"
  shows "\<exists>e. walk r va False s = Ok (e, s) \<and> (if e = 0 then lookup 2 (pmem s) r va = None
    else lookup 2 (pmem s) r va = Some e)"
proof -
  have "G r = Some (Table r 2 (vpath 2 va))" using assms by (simp add: is_root_def vpath_2)
  moreover have "0 < kend s" using assms(1) by (simp add: vm_ok_def free_pages_def)
  ultimately show ?thesis
    using walk_level_lookup [OF vm_okD(3) [OF assms(1)]] assms(3) by (fastforce simp: walk_def)
qed

lemma walk_valid:
  assumes "vm_ok R G s ps" "is_root G r" "va < MAXVA" "pte_valid (pte_of (pmem s) r va)"
  obtains e where "walk r va False s = Ok (e, s)" "e \<noteq> 0" "lookup 2 (pmem s) r va = Some e"
    "load64 (pmem s) e = pte_of (pmem s) r va"
proof -
  from walk_lookup [OF assms(1-3)] obtain e where e: "walk r va False s = Ok (e, s)"
    "if e = 0 then lookup 2 (pmem s) r va = None else lookup 2 (pmem s) r va = Some e" by blast
  have "e \<noteq> 0" using e(2) assms(4) by (auto simp: pte_of_def pte_at_lookup)
  with e show ?thesis using that lookup_load by auto
qed

lemma pte_of_leaf:
  assumes "vm_ok R G s ps" "is_root G r" "r \<in> R" "va < MAXVA" "pte_valid (pte_of (pmem s) r va)"
  shows "leaf_ok G r (vpn va) (pte_of (pmem s) r va)"
proof -
  from walk_valid [OF assms(1,2,4,5)] obtain e where
    e: "lookup 2 (pmem s) r va = Some e" "load64 (pmem s) e = pte_of (pmem s) r va" by blast
  have G: "G r = Some (Table r 2 (vpath 2 va))" using assms by (simp add: is_root_def vpath_2)
  from lookup_typed [OF vm_okD(3) [OF assms(1)] G e(1)] obtain q where
    q: "G q = Some (Table r 0 (vpath 0 va))" "e = slot q (unat (PX 0 va))" by blast
  from users_okD [OF vm_okD(4) [OF assms(1)] q(1) assms(3) PX_bound [of 0 va]] assms(5) e(2)
  show ?thesis unfolding q(2) vpath_0 by simp
qed

text \<open>A user page that no entry maps can be given up.\<close>

lemma drop_user_page:
  assumes "tables_ok ke G m" "users_ok R G m" "linked_up G m" "G pa = Some (UserPage r v)"
    and "\<And>q n i. G q = Some (Table r 0 n) \<Longrightarrow> i < 512 \<Longrightarrow> n * 512 + i = v \<Longrightarrow> \<not> pte_valid (load64 m (slot q i))"
  shows "tables_ok ke (G(pa := None)) m" "users_ok R (G(pa := None)) m" "linked_up (G(pa := None)) m"
proof -
  let ?G = "G(pa := None)"
  have tab: "?G p = Some (Table r' l n) \<longleftrightarrow> G p = Some (Table r' l n)" for p r' l n
    using assms(4) by auto
  show "tables_ok ke ?G m"
    unfolding tables_ok_def tab using tables_okD [OF assms(1)] by (auto split: if_splits)
  show "linked_up ?G m" using assms(3) unfolding linked_up_def tab .
  show "users_ok R ?G m"
    unfolding users_ok_def tab
  proof (intro allI impI)
    fix p r' n i
    assume a: "G p = Some (Table r' 0 n)" "r' \<in> R" "i < 512" "pte_valid (load64 m (slot p i))"
    from users_okD [OF assms(2) a] have l: "leaf_ok G r' (n * 512 + i) (load64 m (slot p i))" .
    moreover have "\<not> (r' = r \<and> n * 512 + i = v)" using a assms(5) by auto
    ultimately show "leaf_ok ?G r' (n * 512 + i) (load64 m (slot p i))"
      using assms(4) by (auto simp: leaf_ok_def split: if_splits)
  qed
qed

text \<open>Giving up the page and clearing its entry, in either order of the two writes.\<close>

lemma store64_commute_outside:
  "same_outside P m m1 \<Longrightarrow> same_outside P (store64 m a e) (store64 m1 a e)"
  by (simp add: same_outside_def store64_apply)

lemma unmap_memory:
  assumes "vm_ok R G s ps" "is_root G r" "va < MAXVA" "lookup 2 (pmem s) r va = Some a"
    and "G pa = Some (UserPage r (vpn va))" "same_outside {pa} (pmem s) m1"
  defines "m2 \<equiv> store64 m1 a 0"
  shows "tables_ok (kend s) (G(pa := None)) m2" "users_ok R (G(pa := None)) m2" "linked_up (G(pa := None)) m2"
    and "same_outside (insert pa (table_pages G)) (pmem s) m2"
    and "\<And>r' va'. is_root G r' \<Longrightarrow> va' < MAXVA \<Longrightarrow>
      pte_of m2 r' va' = (if r' = r \<and> vpn va' = vpn va then 0 else pte_of (pmem s) r' va')"
proof -
  let ?s = "s\<lparr>pmem := store64 (pmem s) a 0\<rparr>"
  have G: "G r = Some (Table r 2 (vpath 2 va))" using assms by (simp add: is_root_def vpath_2)
  from lookup_typed [OF vm_okD(3) [OF assms(1)] G assms(4)] obtain q where
    q: "G q = Some (Table r 0 (vpath 0 va))" "a = slot q (unat (PX 0 va))" by blast
  have sl: "vm_ok R G ?s ps" "vm_frame G s ps ?s"
    using set_leaf [OF assms(1-4), of 0] by simp_all
  note ok = vm_okD [OF sl(1), simplified]
  have out: "same_outside {pa} (store64 (pmem s) a 0) m2"
    unfolding m2_def using assms(6) by (rule store64_commute_outside)
  have "{pa} \<inter> table_pages G = {}" using assms(5) by (auto simp: table_pages_def)
  note st = same_tables_outside [OF out this ok(3)]
  have lu: "linked_up G m2" by (rule linked_up_keep [OF ok(5)]) (rule same_tablesD [OF st])
  note ok2 = same_tables_ok_imp(1) [OF st ok(3)] same_tables_ok_imp(2) [OF st ok(4)] lu
  have nv: "\<not> pte_valid (load64 m2 (slot p i))"
    if p: "G p = Some (Table r 0 n)" "i < 512" "n * 512 + i = vpn va" for p n i
  proof -
    have "n * 512 + i = vpath 0 va * 512 + unat (PX 0 va)" using that(3) vpath_0 by simp
    then have "n = vpath 0 va" "i = unat (PX 0 va)"
      using arg_cong [of _ _ "\<lambda>x. x div 512"] arg_cong [of _ _ "\<lambda>x. x mod 512"] that(2) PX_bound [of 0 va]
      by (metis div_mult_self3 div_less add_0_right zero_neq_numeral,
          metis mod_mult_self3 mod_less)
    with p(1) q table_inj [OF assms(1)] have "slot p i = a" by blast
    then show ?thesis by (simp add: m2_def)
  qed
  show "tables_ok (kend s) (G(pa := None)) m2" "users_ok R (G(pa := None)) m2" "linked_up (G(pa := None)) m2"
    using drop_user_page [OF ok2 assms(5) nv] by simp_all
  have "same_outside {q} m1 m2"
    unfolding m2_def q(2) using vm_ok_pages(1) [OF assms(1) q(1)] by (intro store64_slot_outside PX_bound)
  from same_outside_trans [OF assms(6) this] q(1)
  show "same_outside (insert pa (table_pages G)) (pmem s) m2" by (auto simp: table_pages_def)
  show "pte_of m2 r' va' = (if r' = r \<and> vpn va' = vpn va then 0 else pte_of (pmem s) r' va')"
    if "is_root G r'" "va' < MAXVA" for r' va'
    using set_leaf_pte [OF assms(1-4) that, of 0] pte_at_same_tables [OF st ok(3), of r' r' 2 0 va'] that(1)
    by (simp add: pte_of_def is_root_def)
qed

definition unmap_post ::
  "uint64 set \<Rightarrow> owners \<Rightarrow> 'a mach_scheme \<Rightarrow> uint64 list \<Rightarrow> uint64 \<Rightarrow> nat \<Rightarrow> nat \<Rightarrow>
    'a mach_scheme \<Rightarrow> owners \<Rightarrow> uint64 list \<Rightarrow> bool" where
  "unmap_post R G s ps r v n s' G' ps' \<longleftrightarrow>
    vm_ok R G' s' ps' \<and>
    (\<exists>fs. ps' = fs @ ps \<and> G' = (\<lambda>p. if p \<in> set fs then None else G p) \<and>
      (\<forall>p \<in> set fs. \<exists>va. va < MAXVA \<and> v \<le> vpn va \<and> vpn va < v + n \<and>
        G p = Some (UserPage r (vpn va)) \<and> p = PTE2PA (pte_of (pmem s) r va))) \<and>
    same_outside (table_pages G \<union> set ps') (pmem s) (pmem s') \<and>
    kend s' = kend s \<and> mach.more s' = mach.more s \<and>
    (\<forall>r' va. is_root G r' \<longrightarrow> va < MAXVA \<longrightarrow> pte_of (pmem s') r' va =
      (if r' = r \<and> v \<le> vpn va \<and> vpn va < v + n then 0 else pte_of (pmem s) r' va))"

lemma unmap_post_refl: "vm_ok R G s ps \<Longrightarrow> unmap_post R G s ps r v 0 s G ps"
  by (auto simp: unmap_post_def)

lemma unmap_one:
  assumes "vm_ok R G s ps" "is_root G r" "r \<in> R" "va < MAXVA" "vpn va < TFVPN"
    and "pte_valid (pte_of (pmem s) r va)"
  obtains a s1 G2 where "walk r va False s = Ok (a, s)" "a \<noteq> 0" "pte_valid (load64 (pmem s) a)"
    "PTE_FLAGS (load64 (pmem s) a) \<noteq> PTE_V" "kfree (PTE2PA (load64 (pmem s) a)) s = Ok s1"
    "unmap_post R G s ps r (vpn va) 1 (s1\<lparr>pmem := store64 (pmem s1) a 0\<rparr>) G2
      (PTE2PA (load64 (pmem s) a) # ps)"
proof -
  from walk_valid [OF assms(1,2,4,6)] obtain a where
    a: "walk r va False s = Ok (a, s)" "a \<noteq> 0" "lookup 2 (pmem s) r va = Some a"
    "load64 (pmem s) a = pte_of (pmem s) r va" by blast
  define pa where "pa = PTE2PA (load64 (pmem s) a)"
  from pte_of_leaf [OF assms(1-4,6)] assms(5) a(4)
  have pa: "G pa = Some (UserPage r (vpn va))" "PTE_FLAGS (load64 (pmem s) a) \<noteq> PTE_V"
    by (simp_all add: leaf_ok_def pa_def)
  have "page_ok (kend s) pa" "pa \<notin> set ps"
    using pa(1) tables_okD(1) [OF vm_okD(3) [OF assms(1)]] vm_okD(2) [OF assms(1)] by auto
  from kfree_ok [OF vm_okD(1) [OF assms(1)] this] obtain s1 where
    s1: "kfree pa s = Ok s1" "free_pages s1 (pa # ps)" "same_outside {pa} (pmem s) (pmem s1)"
    "kend s1 = kend s" "mach.more s1 = mach.more s" by metis
  note um = unmap_memory [OF assms(1,2,4) a(3) pa(1) s1(3)]
  let ?s2 = "s1\<lparr>pmem := store64 (pmem s1) a 0\<rparr>"
  have G: "G r = Some (Table r 2 (vpath 2 va))" using assms by (simp add: is_root_def vpath_2)
  from lookup_typed [OF vm_okD(3) [OF assms(1)] G a(3)] obtain q where
    q: "G q = Some (Table r 0 (vpath 0 va))" "a = slot q (unat (PX 0 va))" by blast
  have "q \<notin> set (pa # ps)" using q(1) pa(1) vm_okD(2) [OF assms(1)] by auto
  then have "free_pages ?s2 (pa # ps)"
    using free_pages_same [OF s1(2) store64_slot_outside [OF vm_ok_pages(1) [OF assms(1) q(1)] PX_bound [of 0 va]]] q(2)
    by auto
  then have "vm_ok R (G(pa := None)) ?s2 (pa # ps)"
    using um(1-3) vm_okD(2) [OF assms(1)] s1(4) by (auto simp: vm_ok_def)
  moreover have "\<exists>fs. pa # ps = fs @ ps \<and> G(pa := None) = (\<lambda>p. if p \<in> set fs then None else G p) \<and>
      (\<forall>p \<in> set fs. \<exists>va'. va' < MAXVA \<and> vpn va \<le> vpn va' \<and> vpn va' < vpn va + 1 \<and>
        G p = Some (UserPage r (vpn va')) \<and> p = PTE2PA (pte_of (pmem s) r va'))"
    using pa(1) assms(4) a(4) by (intro exI [of _ "[pa]"]) (auto simp: pa_def)
  moreover have "same_outside (table_pages G \<union> set (pa # ps)) (pmem s) (pmem ?s2)"
    using um(4) by (auto intro: same_outside_mono)
  ultimately have "unmap_post R G s ps r (vpn va) 1 ?s2 (G(pa := None)) (pa # ps)"
    unfolding unmap_post_def using um(5) s1(4,5) by auto
  with a(1,2) s1(1) pa(2) assms(6) a(4) show ?thesis unfolding pa_def by (intro that) auto
qed

lemma unmap_post_pte:
  "unmap_post R G s ps r v n s' G' ps' \<Longrightarrow> is_root G r' \<Longrightarrow> va < MAXVA \<Longrightarrow> pte_of (pmem s') r' va =
      (if r' = r \<and> v \<le> vpn va \<and> vpn va < v + n then 0 else pte_of (pmem s) r' va)"
  unfolding unmap_post_def by blast

lemma unmap_post_root:
  assumes "unmap_post R G s ps r v n s' G' ps'" "is_root G r'"
  shows "is_root G' r'"
proof -
  obtain fs where fs: "G' = (\<lambda>p. if p \<in> set fs then None else G p)"
    "\<forall>p \<in> set fs. \<exists>w. G p = Some (UserPage r w)" using assms(1) unfolding unmap_post_def by blast
  then have "r' \<notin> set fs" using assms(2) by (auto simp: is_root_def)
  with assms(2) show ?thesis by (simp add: is_root_def fs(1))
qed

lemma unmap_post_trans:
  assumes "unmap_post R G s ps r v 1 s1 G1 ps1" "unmap_post R G1 s1 ps1 r (Suc v) n s2 G2 ps2" "is_root G r"
  shows "unmap_post R G s ps r v (Suc n) s2 G2 ps2"
proof -
  obtain fs where fs: "ps1 = fs @ ps" "G1 = (\<lambda>p. if p \<in> set fs then None else G p)"
    "\<And>p. p \<in> set fs \<Longrightarrow> \<exists>va. va < MAXVA \<and> v \<le> vpn va \<and> vpn va < v + 1 \<and>
        G p = Some (UserPage r (vpn va)) \<and> p = PTE2PA (pte_of (pmem s) r va)"
    using assms(1) unfolding unmap_post_def by blast
  obtain gs where gs: "ps2 = gs @ ps1" "G2 = (\<lambda>p. if p \<in> set gs then None else G1 p)"
    "\<And>p. p \<in> set gs \<Longrightarrow> \<exists>va. va < MAXVA \<and> Suc v \<le> vpn va \<and> vpn va < Suc v + n \<and>
        G1 p = Some (UserPage r (vpn va)) \<and> p = PTE2PA (pte_of (pmem s1) r va)"
    using assms(2) unfolding unmap_post_def by blast
  have tp: "table_pages G1 \<subseteq> table_pages G" by (auto simp: table_pages_def fs(2))
  have own: "\<exists>fs. ps2 = fs @ ps \<and> G2 = (\<lambda>p. if p \<in> set fs then None else G p) \<and>
      (\<forall>p \<in> set fs. \<exists>va. va < MAXVA \<and> v \<le> vpn va \<and> vpn va < v + Suc n \<and>
        G p = Some (UserPage r (vpn va)) \<and> p = PTE2PA (pte_of (pmem s) r va))"
  proof (intro exI [of _ "gs @ fs"] conjI ballI)
    fix p assume "p \<in> set (gs @ fs)"
    then consider "p \<in> set fs" | "p \<in> set gs" by auto
    then show "\<exists>va. va < MAXVA \<and> v \<le> vpn va \<and> vpn va < v + Suc n \<and>
        G p = Some (UserPage r (vpn va)) \<and> p = PTE2PA (pte_of (pmem s) r va)"
    proof cases
      case 1
      with fs(3) show ?thesis by fastforce
    next
      case 2
      from gs(3) [OF this] obtain va where va: "va < MAXVA" "Suc v \<le> vpn va" "vpn va < Suc v + n"
        "G1 p = Some (UserPage r (vpn va))" "p = PTE2PA (pte_of (pmem s1) r va)" by blast
      moreover have "pte_of (pmem s1) r va = pte_of (pmem s) r va"
        using unmap_post_pte [OF assms(1,3) va(1)] va(2) by simp
      ultimately show ?thesis by (intro exI [of _ va]) (simp add: fs(2) split: if_splits)
    qed
  qed (auto simp: fs gs)
  have so: "same_outside (table_pages G \<union> set ps2) (pmem s) (pmem s2)"
    using assms(1,2) tp gs(1) by (auto simp: unmap_post_def intro: same_outside_trans)
  have pt: "pte_of (pmem s2) r' va = (if r' = r \<and> v \<le> vpn va \<and> vpn va < v + Suc n then 0 else pte_of (pmem s) r' va)"
    if "is_root G r'" "va < MAXVA" for r' va
    using unmap_post_pte [OF assms(1) that] unmap_post_pte [OF assms(2) unmap_post_root [OF assms(1) that(1)] that(2)]
    by auto
  have "vm_ok R G2 s2 ps2" "kend s2 = kend s" "mach.more s2 = mach.more s"
    using assms(1,2) unfolding unmap_post_def by auto
  with own so pt show ?thesis unfolding unmap_post_def by blast
qed

lemma uvmunmap_loop_run:
  assumes "vm_ok R G s ps" "is_root G r" "r \<in> R" "vpn a + n \<le> TFVPN" "unat a + 4096 * n \<le> unat MAXVA"
    and "\<And>va. va < MAXVA \<Longrightarrow> vpn a \<le> vpn va \<Longrightarrow> vpn va < vpn a + n \<Longrightarrow> pte_valid (pte_of (pmem s) r va)"
  shows "\<exists>s' G' ps'. uvmunmap_loop r a (a + of_nat n * PGSIZE) True s = Ok s' \<and>
    unmap_post R G s ps r (vpn a) n s' G' ps'"
  using assms
proof (induction n arbitrary: a s G ps)
  case 0
  then show ?case by (subst uvmunmap_loop.simps) (auto intro: unmap_post_refl)
next
  case (Suc n)
  have a: "a < MAXVA" using Suc.prems(5) by (simp add: word_less_nat_alt)
  have ua: "unat (a + PGSIZE) = unat a + 4096" using a by (rule unat_add_PGSIZE)
  have lim: "a + PGSIZE + of_nat n * PGSIZE = a + of_nat (Suc n) * PGSIZE" by (simp add: algebra_simps)
  have lt: "a < a + of_nat (Suc n) * PGSIZE"
  proof -
    have "a + of_nat (Suc n) * PGSIZE = of_nat (unat a + Suc n * 4096)" by (simp add: PGSIZE_def)
    moreover have "unat (of_nat (unat a + Suc n * 4096) :: uint64) = unat a + Suc n * 4096"
      using Suc.prems(5) by (intro unat_of_nat64) (simp add: MAXVA_unat)
    ultimately show ?thesis by (simp add: word_less_nat_alt)
  qed
  have "vpn a < TFVPN" using Suc.prems(4) by simp
  from unmap_one [OF Suc.prems(1-3) a this Suc.prems(6) [OF a order_refl]] obtain e s1 G2 where
    e: "walk r a False s = Ok (e, s)" "e \<noteq> 0" "pte_valid (load64 (pmem s) e)"
    "PTE_FLAGS (load64 (pmem s) e) \<noteq> PTE_V" "kfree (PTE2PA (load64 (pmem s) e)) s = Ok s1"
    and post: "unmap_post R G s ps r (vpn a) 1 (s1\<lparr>pmem := store64 (pmem s1) e 0\<rparr>) G2
      (PTE2PA (load64 (pmem s) e) # ps)" by auto
  let ?s2 = "s1\<lparr>pmem := store64 (pmem s1) e 0\<rparr>"
  have ok2: "vm_ok R G2 ?s2 (PTE2PA (load64 (pmem s) e) # ps)" using post unfolding unmap_post_def by blast
  have root: "is_root G2 r" using unmap_post_root [OF post Suc.prems(2)] .
  have val: "pte_valid (pte_of (pmem ?s2) r va)"
    if "va < MAXVA" "vpn (a + PGSIZE) \<le> vpn va" "vpn va < vpn (a + PGSIZE) + n" for va
    using that Suc.prems(6) [of va] unmap_post_pte [OF post Suc.prems(2)] by (simp add: vpn_add_PGSIZE [OF a])
  have "vpn (a + PGSIZE) + n \<le> TFVPN" "unat (a + PGSIZE) + 4096 * n \<le> unat MAXVA"
    using Suc.prems(4,5) ua by (simp_all add: vpn_add_PGSIZE [OF a])
  from Suc.IH [OF ok2 root Suc.prems(3) this val] obtain s' G' ps' where u:
    "uvmunmap_loop r (a + PGSIZE) (a + of_nat (Suc n) * PGSIZE) True ?s2 = Ok s'"
    "unmap_post R G2 ?s2 (PTE2PA (load64 (pmem s) e) # ps) r (Suc (vpn a)) n s' G' ps'"
    unfolding lim vpn_add_PGSIZE [OF a] by blast
  have "uvmunmap_loop r a (a + of_nat (Suc n) * PGSIZE) True s = Ok s'"
    using e lt u(1) by (subst uvmunmap_loop.simps) (simp add: pte_valid_def)
  with unmap_post_trans [OF post u(2) Suc.prems(2)] show ?case by blast
qed

section \<open>Growing and shrinking an address space\<close>

lemma aligned_round:
  assumes "page_aligned a"
  shows "PGROUNDDOWN a = a" "PGROUNDUP a = a" "PGROUNDDOWN (a + PGSIZE - 1) = a"
proof -
  have "unat (a + PGSIZE - 1 - a) < 4096" by (simp add: PGSIZE_def)
  then show r: "PGROUNDDOWN (a + PGSIZE - 1) = a"
    using in_page_iff [OF assms] by blast
  then show "PGROUNDUP a = a" by (simp add: PGROUNDUP_def PGROUNDDOWN_def)
  show "PGROUNDDOWN a = a" using in_page_iff [OF assms, of a] by simp
qed

lemma aligned_vpn: "page_aligned a \<Longrightarrow> unat a = 4096 * vpn a"
  by (simp add: vpn_def aligned_unat) (metis div_mult_mod_eq add_0_right mult.commute)

lemma uvmdealloc_run:
  assumes "vm_ok R G s ps" "is_root G r" "r \<in> R" "page_aligned a" "page_aligned b" "b \<le> a"
    and "vpn a \<le> TFVPN"
    and "\<And>va. va < MAXVA \<Longrightarrow> vpn b \<le> vpn va \<Longrightarrow> vpn va < vpn a \<Longrightarrow> pte_valid (pte_of (pmem s) r va)"
  shows "\<exists>s' G' ps'. uvmdealloc r a b s = Ok (b, s') \<and>
    unmap_post R G s ps r (vpn b) (vpn a - vpn b) s' G' ps'"
proof (cases "a = b")
  case True
  with unmap_post_refl [OF assms(1)] show ?thesis by (auto simp: uvmdealloc_def)
next
  case False
  with assms(6) have lt: "b < a" by simp
  let ?n = "vpn a - vpn b"
  have ub: "unat a = 4096 * vpn a" "unat b = 4096 * vpn b" using assms(4,5) by (simp_all add: aligned_vpn)
  with lt have vlt: "vpn b < vpn a" by (simp add: word_less_nat_alt)
  have "unat (a - b) = 4096 * ?n" using ub vlt by (simp add: unat_sub_cases)
  then have "unat ((a - b) div PGSIZE) = ?n" by (simp add: PGSIZE_def unat_div)
  then have d: "(a - b) div PGSIZE = of_nat ?n" by (rule unat_eq_imp)
  have n: "?n < 67108864" using assms(7) vlt by (simp add: TFVPN_def)
  have np: "scast (ucast (of_nat ?n :: uint64) :: uint) = (of_nat ?n :: uint64)"
  proof -
    have "uint (of_nat ?n :: uint64) = int ?n" using n by (simp add: unsigned_of_nat take_bit_nat_eq_self)
    then have "sint (ucast (of_nat ?n :: uint64) :: uint) = int ?n"
      using n by (simp add: sint_uint unsigned_ucast_eq signed_take_bit_int_eq_self take_bit_int_eq_self)
    then show ?thesis by (metis of_int_of_nat_eq of_int_sint)
  qed
  have bn: "unat b + 4096 * ?n \<le> unat MAXVA" "vpn b + ?n \<le> TFVPN"
    using ub vlt assms(7) by (simp_all add: MAXVA_unat TFVPN_def)
  have vb: "pte_valid (pte_of (pmem s) r va)" if "va < MAXVA" "vpn b \<le> vpn va" "vpn va < vpn b + ?n" for va
    using that assms(8) vlt by simp
  have "b mod PGSIZE = 0" using assms(5) by (simp add: page_aligned_def)
  moreover obtain s' G' ps' where
    "uvmunmap_loop r b (b + of_nat ?n * PGSIZE) True s = Ok s'" "unmap_post R G s ps r (vpn b) ?n s' G' ps'"
    using uvmunmap_loop_run [OF assms(1-3) bn(2,1) vb] by blast
  ultimately show ?thesis
    using lt by (auto simp: uvmdealloc_def aligned_round assms(4,5) Let_def d np uvmunmap_def)
qed

end
