(* ===== verification/Uvmalloc.thy ===== *)
theory Uvmalloc
  imports Uvm
begin

text \<open>
  \<^verbatim>\<open>uvmalloc\<close> of \<^verbatim>\<open>kernel/vm.c\<close>: on success the new pages are mapped to fresh zeroed
  pages; when memory runs out everything it mapped is taken back.
\<close>

lemma vm_ok_same:
  assumes "vm_ok R G s ps" "same_outside P (pmem s) (pmem s')" "P \<inter> table_pages G = {}"
    and "free_pages s' ps'" "set ps' \<inter> dom G = {}" "kend s' = kend s"
  shows "vm_ok R G s' ps'"
    and "is_root G r \<Longrightarrow> pte_of (pmem s') r va = pte_of (pmem s) r va"
proof -
  note ok = vm_okD [OF assms(1)]
  note st = same_tables_outside [OF assms(2,3) ok(3)]
  have "linked_up G (pmem s')" by (rule linked_up_keep [OF ok(5)]) (rule same_tablesD [OF st])
  then show "vm_ok R G s' ps'"
    using assms(4-6) same_tables_ok_imp(1) [OF st ok(3)] same_tables_ok_imp(2) [OF st ok(4)]
    by (simp add: vm_ok_def)
  show "is_root G r \<Longrightarrow> pte_of (pmem s') r va = pte_of (pmem s) r va"
    unfolding pte_of_def is_root_def by (rule pte_at_same_tables [OF st ok(3)])
qed

lemma add_user_page:
  assumes "vm_ok R G s ps" "G q = None" "q \<notin> set ps" "page_ok (kend s) q"
  shows "vm_ok R (G(q \<mapsto> UserPage r v)) s ps"
proof -
  note ok = vm_okD [OF assms(1)]
  let ?G = "G(q \<mapsto> UserPage r v)"
  have tab: "?G p = Some (Table r' l n) \<longleftrightarrow> G p = Some (Table r' l n)" for p r' l n
    using assms(2) by auto
  have "tables_ok (kend s) ?G (pmem s)"
    unfolding tables_ok_def tab using tables_okD [OF ok(3)] assms(4) by (auto split: if_splits)
  moreover have "linked_up ?G (pmem s)" using ok(5) unfolding linked_up_def tab .
  moreover have "users_ok R ?G (pmem s)" unfolding users_ok_def tab
    using users_okD [OF ok(4)] assms(2) by (blast intro: leaf_ok_upd)
  ultimately show ?thesis using ok(1,2) assms(3) by (simp add: vm_ok_def)
qed

lemma linked_up_root:
  assumes "linked_up G m" "G p = Some (Table r l k)"
  shows "G r = Some (Table r 2 0)"
  using assms(2)
proof (induction "2 - l" arbitrary: l p k)
  case 0
  then have "\<not> l < 2" by simp
  with linked_upD(2) [OF assms(1) "0.prems"] "0.prems" show ?case by simp
next
  case (Suc x)
  then have l: "l < 2" by simp
  from linked_upD(1) [OF assms(1) Suc.prems l] Suc.hyps(1) [of "Suc l"] Suc.hyps(2) show ?case by auto
qed

lemma linked_lookup:
  assumes "linked_up G m" "G q = Some (Table r 0 (vpath 0 va))"
  shows "lookup 2 m r va = Some (slot q (unat (PX 0 va)))"
proof -
  have dm: "vpath l va div 512 = vpath (Suc l) va \<and> vpath l va mod 512 = unat (PX (Suc l) va)" for l
    using PX_bound [of "Suc l" va] by (simp flip: vpath_Suc [of l va])
  from linked_upD(1) [OF assms] obtain p where
    p: "G p = Some (Table r 1 (vpath 1 va))" "pte_valid (load64 m (slot p (unat (PX 1 va))))"
    "PTE2PA (load64 m (slot p (unat (PX 1 va)))) = q" using dm [of 0] by auto
  from linked_upD(1) [OF assms(1) p(1)] obtain p2 where
    p2: "G p2 = Some (Table r 2 (vpath 2 va))" "pte_valid (load64 m (slot p2 (unat (PX 2 va))))"
    "PTE2PA (load64 m (slot p2 (unat (PX 2 va)))) = p" using dm [of 1] by (auto simp: numeral_2_eq_2)
  from linked_upD(2) [OF assms(1) p2(1)] have "p2 = r" by simp
  with p p2 show ?thesis by (simp add: numeral_2_eq_2 Let_def)
qed

lemma vpath_split:
  assumes "n * 512 + i = vpn va" "i < 512"
  shows "n = vpath 0 va" "i = unat (PX 0 va)"
proof -
  have "n = vpn va div 512" "i = vpn va mod 512" using assms(2) by (simp_all flip: assms(1))
  then show "n = vpath 0 va" "i = unat (PX 0 va)"
    using PX_bound [of 0 va] by (simp_all flip: vpath_0 [of va])
qed

lemma no_leaf:
  assumes "vm_ok R G s ps" "is_root G r" "\<not> pte_valid (pte_of (pmem s) r va)"
    and "G q = Some (Table r 0 n)" "i < 512" "n * 512 + i = vpn va"
  shows "\<not> pte_valid (load64 (pmem s) (slot q i))"
proof -
  note ni = vpath_split [OF assms(6,5)]
  have "lookup 2 (pmem s) r va = Some (slot q i)"
    using linked_lookup [OF vm_okD(5) [OF assms(1)]] assms(4) ni by simp
  from lookup_load [OF this] assms(3) show ?thesis by simp
qed

abbreviation UPERM :: uint64 where
  "UPERM \<equiv> PTE_W OR PTE_X OR PTE_R OR PTE_U"

lemma UPERM_flags: "PTE_FLAGS (UPERM OR PTE_V) = UPERM OR PTE_V" "UPERM OR PTE_V \<noteq> PTE_V"
  by (simp_all add: PTE_FLAGS_def PTE_V_def PTE_R_def PTE_W_def PTE_X_def PTE_U_def)

lemma UPERM_pte:
  assumes "page_aligned q"
  shows "PTE2PA (PA2PTE q OR UPERM OR PTE_V) = q" "PTE_FLAGS (PA2PTE q OR UPERM OR PTE_V) \<noteq> PTE_V"
    "pte_valid (PA2PTE q OR UPERM OR PTE_V)" "pte_user (PA2PTE q OR UPERM OR PTE_V)"
  using PTE_roundtrip [OF assms UPERM_flags(1)] UPERM_flags(2)
  by (simp_all add: or.assoc pte_valid_bit pte_user_bit bit_or_iff PTE_bit)

section \<open>One page\<close>

text \<open>
  The outcome of allocating \<open>n\<close> pages from virtual page number \<open>v\<close>: old owners are kept, no page
  is lost, each page of the range is mapped to a fresh page full of zeroes and every other
  translation is the old one.
\<close>

definition fresh_pte :: "owners \<Rightarrow> mem \<Rightarrow> uint64 list \<Rightarrow> uint64 \<Rightarrow> uint64 \<Rightarrow> bool" where
  "fresh_pte G m ps r va \<longleftrightarrow> (\<exists>q \<in> set ps. G q = Some (UserPage r (vpn va)) \<and> zero_page m q \<and>
    pte_of m r va = PA2PTE q OR UPERM OR PTE_V)"

definition alloc_post ::
  "uint64 set \<Rightarrow> owners \<Rightarrow> 'a mach_scheme \<Rightarrow> uint64 list \<Rightarrow> uint64 \<Rightarrow> nat \<Rightarrow> nat \<Rightarrow>
    'a mach_scheme \<Rightarrow> owners \<Rightarrow> uint64 list \<Rightarrow> bool" where
  "alloc_post R G s ps r v n s' G' ps' \<longleftrightarrow>
    vm_ok R G' s' ps' \<and> (\<forall>p ow. G p = Some ow \<longrightarrow> G' p = Some ow) \<and>
    dom G' \<union> set ps' = dom G \<union> set ps \<and>
    same_outside (table_pages G \<union> set ps) (pmem s) (pmem s') \<and>
    kend s' = kend s \<and> mach.more s' = mach.more s \<and>
    (\<forall>r' va. is_root G r' \<longrightarrow> va < MAXVA \<longrightarrow>
      (if r' = r \<and> v \<le> vpn va \<and> vpn va < v + n then fresh_pte G' (pmem s') ps r va
       else pte_of (pmem s') r' va = pte_of (pmem s) r' va))"

lemma alloc_post_refl: "vm_ok R G s ps \<Longrightarrow> alloc_post R G s ps r v 0 s G ps"
  by (auto simp: alloc_post_def)

text \<open>A freshly allocated, zeroed page, owned by \<open>r\<close> but not mapped yet.\<close>

lemma take_page:
  assumes "vm_ok R G s (q # qs)"
  obtains s0 s1 where "kalloc s = (q, s0)" "s1 = s0\<lparr>pmem := memset q 0 4096 (pmem s0)\<rparr>" "q \<noteq> 0"
    "vm_ok R (G(q \<mapsto> UserPage r v)) s1 qs" "same_outside {q} (pmem s) (pmem s1)" "zero_page (pmem s1) q"
    "kend s1 = kend s" "mach.more s1 = mach.more s"
    "\<And>r' va. is_root G r' \<Longrightarrow> pte_of (pmem s1) r' va = pte_of (pmem s) r' va"
proof -
  note q = page_alloc_facts [OF assms]
  obtain s0 where s0: "kalloc s = (q, s0)" "free_pages s0 qs"
    "same_outside {q} (pmem s) (pmem s0)" "kend s0 = kend s" "mach.more s0 = mach.more s"
    using kalloc_Cons [OF vm_okD(1) [OF assms]] by metis
  let ?s1 = "s0\<lparr>pmem := memset q 0 4096 (pmem s0)\<rparr>"
  have m: "same_outside {q} (pmem s0) (pmem ?s1)" "same_outside {q} (pmem s) (pmem ?s1)"
    using s0(3) q(3) by (auto simp: same_outside_def memset_page)
  have fp: "free_pages ?s1 qs" using free_pages_same [OF s0(2), of "{q}" "memset q 0 4096 (pmem s0)"] m(1) q(5) by simp
  have "{q} \<inter> table_pages G = {}" using q(1) by (auto simp: table_pages_def)
  moreover have "set qs \<inter> dom G = {}" using vm_okD(2) [OF assms] by auto
  ultimately have ok: "vm_ok R G ?s1 qs" and
    pt: "\<And>r' va. is_root G r' \<Longrightarrow> pte_of (pmem ?s1) r' va = pte_of (pmem s) r' va"
    using vm_ok_same [OF assms m(2)] fp s0(4) by simp_all
  have "vm_ok R (G(q \<mapsto> UserPage r v)) ?s1 qs"
    using add_user_page [OF ok q(1,5)] q(2) s0(4) by simp
  moreover have "zero_page (pmem ?s1) q" using q(3) by (simp add: zero_page_def memset_page)
  ultimately show ?thesis using s0 q(4) m(2) pt by (intro that [OF s0(1) refl]) auto
qed

lemma mappages_page:
  assumes "vm_ok R G s ps" "is_root G r" "va < MAXVA" "page_aligned va"
    and "\<not> pte_valid (pte_of (pmem s) r va)"
    and "r \<in> R \<Longrightarrow> leaf_ok G r (vpn va) (PA2PTE pa OR perm OR PTE_V)"
  shows "\<exists>ret s' G' ps' j. mappages r va PGSIZE pa perm s = Ok (ret, s') \<and>
    map_post R G s ps r va pa perm s' G' ps' j \<and> (ret = 0 \<and> j = 1 \<or> ret = -1 \<and> j = 0 \<and> ps' = [])"
proof -
  have nv: "\<not> pte_valid (pte_of (pmem s) r va')" if "vpn va \<le> vpn va'" "vpn va' \<le> vpn va + 0" for va'
    using assms(5) pte_of_cong [of va va' "pmem s" r] that by auto
  have lf: "leaf_ok G r (vpn va') (mapped_pte va pa perm va')"
    if "r \<in> R" "vpn va \<le> vpn va'" "vpn va' \<le> vpn va + 0" for va'
  proof -
    have "vpn va' = vpn va" using that by simp
    with assms(6) [OF that(1)] show ?thesis by (simp add: mapped_pte_def)
  qed
  have "unat va + 4096 * 0 < unat MAXVA" using assms(3) by (simp add: word_less_nat_alt)
  from mappages_loop_run [OF assms(1,2) this nv lf] show ?thesis
    by (simp add: mappages_def aligned_round [OF assms(4)])
qed

lemma map_post_user:
  assumes "map_post R G1 s1 ps r a pa perm s' G' ps' j" "vm_ok R G1 s1 ps"
  shows "G1 p = Some ow \<Longrightarrow> G' p = Some ow" "dom G' \<union> set ps' = dom G1 \<union> set ps"
proof -
  from assms(1) have g: "own_grow r G1 ps G' ps'" by (simp add: map_post_def)
  show "G1 p = Some ow \<Longrightarrow> G' p = Some ow" using own_grow_Some [OF g vm_okD(2) [OF assms(2)]] .
  obtain ts where ts: "ps = ts @ ps'" "\<forall>q. q \<notin> set ts \<longrightarrow> G' q = G1 q"
    "\<forall>q \<in> set ts. \<exists>l k. G' q = Some (Table r l k)" using g by (auto simp: own_grow_def)
  have "x \<in> dom G' \<union> set ps' \<longleftrightarrow> x \<in> dom G1 \<union> set ps" for x
    using ts by (cases "x \<in> set ts") (auto simp: domIff)
  then show "dom G' \<union> set ps' = dom G1 \<union> set ps" by blast
qed

text \<open>\<^verbatim>\<open>mappages\<close> fails after the page was taken: \<^verbatim>\<open>kfree\<close> gives it back.\<close>

lemma give_back:
  assumes "vm_ok R G s ps" "is_root G r" "G q = Some (UserPage r (vpn a))" "\<not> pte_valid (pte_of (pmem s) r a)"
  obtains s' where "kfree q s = Ok s'" "vm_ok R (G(q := None)) s' (q # ps)"
    "same_outside {q} (pmem s) (pmem s')" "kend s' = kend s" "mach.more s' = mach.more s"
    "\<And>r' va. is_root G r' \<Longrightarrow> pte_of (pmem s') r' va = pte_of (pmem s) r' va"
proof -
  note ok = vm_okD [OF assms(1)]
  have "page_ok (kend s) q" "q \<notin> set ps" using assms(3) tables_okD(1) [OF ok(3)] ok(2) by auto
  from kfree_ok [OF ok(1) this] obtain s' where
    s': "kfree q s = Ok s'" "free_pages s' (q # ps)" "same_outside {q} (pmem s) (pmem s')"
    "kend s' = kend s" "mach.more s' = mach.more s" by metis
  have tp: "{q} \<inter> table_pages G = {}" using assms(3) by (auto simp: table_pages_def)
  note st = same_tables_outside [OF s'(3) tp ok(3)]
  have nl: "\<not> pte_valid (load64 (pmem s') (slot p i))"
    if "G p = Some (Table r 0 n)" "i < 512" "n * 512 + i = vpn a" for p n i
    using no_leaf [OF assms(1,2,4) that] same_tablesD [OF st that(1,2)] by simp
  have lu: "linked_up G (pmem s')" by (rule linked_up_keep [OF ok(5)]) (rule same_tablesD [OF st])
  have "vm_ok R (G(q := None)) s' (q # ps)"
    using drop_user_page [OF same_tables_ok_imp(1) [OF st ok(3)] same_tables_ok_imp(2) [OF st ok(4)] lu assms(3) nl]
      s'(2,4) ok(2) by (auto simp: vm_ok_def)
  moreover have "pte_of (pmem s') r' va = pte_of (pmem s) r' va" if "is_root G r'" for r' va
    using pte_at_same_tables [OF st ok(3)] that unfolding pte_of_def is_root_def by blast
  ultimately show ?thesis using that s' by blast
qed

lemma alloc_one_ok:
  assumes "vm_ok R G s (q # qs)" "is_root G r" "page_aligned a" "a < MAXVA"
    and "vm_ok R (G(q \<mapsto> UserPage r (vpn a))) s1 qs" "same_outside {q} (pmem s) (pmem s1)"
      "zero_page (pmem s1) q" "kend s1 = kend s" "mach.more s1 = mach.more s"
      "\<And>r' va. is_root G r' \<Longrightarrow> pte_of (pmem s1) r' va = pte_of (pmem s) r' va"
    and "map_post R (G(q \<mapsto> UserPage r (vpn a))) s1 qs r a q UPERM s2 G2 ps2 1"
  shows "alloc_post R G s (q # qs) r (vpn a) 1 s2 G2 ps2"
proof -
  let ?G = "G(q \<mapsto> UserPage r (vpn a))"
  note q = page_alloc_facts [OF assms(1)]
  note up = map_post_user [OF assms(11,5)]
  have tp: "table_pages ?G = table_pages G" using q(1) by (auto simp: table_pages_def)
  have fr: "vm_frame ?G s1 qs s2" "maps_run ?G (pmem s1) (pmem s2) r a 1 q UPERM" "vm_ok R G2 s2 ps2"
    using assms(11) by (simp_all add: map_post_def)
  have so: "same_outside (table_pages G \<union> set (q # qs)) (pmem s) (pmem s2)"
    by (rule same_outside_trans [OF assms(6), of "table_pages G \<union> set qs"])
      (use fr(1) in \<open>auto simp: vm_frame_def tp\<close>)
  have kp: "G2 p = Some ow" if "G p = Some ow" for p ow
    using up(1) [of p ow] that q(1) by (cases "p = q") auto
  have dm: "dom G2 \<union> set ps2 = dom G \<union> set (q # qs)" using up(2) by auto
  have "q \<notin> table_pages G" using q(1) by (auto simp: table_pages_def)
  then have z: "zero_page (pmem s2) q"
    using fr(1) assms(7) q(5) by (auto simp: vm_frame_def same_outside_def zero_page_def tp)
  have G2q: "G2 q = Some (UserPage r (vpn a))" using up(1) [of q] by simp
  have pt: "if r' = r \<and> vpn a \<le> vpn va \<and> vpn va < vpn a + 1 then fresh_pte G2 (pmem s2) (q # qs) r va
       else pte_of (pmem s2) r' va = pte_of (pmem s) r' va" if "is_root G r'" "va < MAXVA" for r' va
  proof -
    have "is_root ?G r'" using that(1) q(1) by (auto simp: is_root_def)
    from maps_runD [OF fr(2) this that(2)] assms(10) [OF that(1)] G2q z
    show ?thesis by (auto simp: fresh_pte_def mapped_pte_def)
  qed
  show ?thesis unfolding alloc_post_def
    using fr so kp dm pt assms(8,9) by (auto simp: vm_frame_def)
qed

lemma alloc_one_full:
  assumes "vm_ok R G s (q # qs)" "is_root G r" "a < MAXVA" "\<not> pte_valid (pte_of (pmem s) r a)"
    and "vm_ok R (G(q \<mapsto> UserPage r (vpn a))) s1 qs" "same_outside {q} (pmem s) (pmem s1)"
      "kend s1 = kend s" "mach.more s1 = mach.more s"
      "\<And>r' va. is_root G r' \<Longrightarrow> pte_of (pmem s1) r' va = pte_of (pmem s) r' va"
    and "map_post R (G(q \<mapsto> UserPage r (vpn a))) s1 qs r a q UPERM s2 G2 ps2 0"
  shows "\<exists>s3. kfree q s2 = Ok s3 \<and> alloc_post R G s (q # qs) r v 0 s3 (G2(q := None)) (q # ps2)"
proof -
  let ?G = "G(q \<mapsto> UserPage r (vpn a))"
  note q = page_alloc_facts [OF assms(1)]
  note up = map_post_user [OF assms(10,5)]
  have tp: "table_pages ?G = table_pages G" using q(1) by (auto simp: table_pages_def)
  have fr: "vm_frame ?G s1 qs s2" "maps_run ?G (pmem s1) (pmem s2) r a 0 q UPERM" "vm_ok R G2 s2 ps2"
    using assms(10) by (simp_all add: map_post_def)
  have rt: "is_root ?G r'" if "is_root G r'" for r' using that q(1) by (auto simp: is_root_def)
  have rt2: "is_root G2 r'" if "is_root G r'" for r'
    using up(1) rt [OF that] by (simp add: is_root_def)
  have pt: "pte_of (pmem s2) r' va = pte_of (pmem s) r' va" if "is_root G r'" "va < MAXVA" for r' va
    using maps_runD [OF fr(2) rt [OF that(1)] that(2)] assms(9) [OF that(1)] by auto
  have G2q: "G2 q = Some (UserPage r (vpn a))" using up(1) [of q] by simp
  have "\<not> pte_valid (pte_of (pmem s2) r a)" using pt [OF assms(2,3)] assms(4) by simp
  from give_back [OF fr(3) rt2 [OF assms(2)] G2q this] obtain s3 where
    s3: "kfree q s2 = Ok s3" "vm_ok R (G2(q := None)) s3 (q # ps2)" "same_outside {q} (pmem s2) (pmem s3)"
    "kend s3 = kend s2" "mach.more s3 = mach.more s2"
    "\<And>r' va. is_root G2 r' \<Longrightarrow> pte_of (pmem s3) r' va = pte_of (pmem s2) r' va" by blast
  have "same_outside (table_pages G \<union> set (q # qs)) (pmem s) (pmem s2)"
    by (rule same_outside_trans [OF assms(6), of "table_pages G \<union> set qs"])
      (use fr(1) in \<open>auto simp: vm_frame_def tp\<close>)
  then have so: "same_outside (table_pages G \<union> set (q # qs)) (pmem s) (pmem s3)"
    by (rule same_outside_trans [OF _ s3(3)]) auto
  have kp: "(G2(q := None)) p = Some ow" if "G p = Some ow" for p ow
    using up(1) [of p ow] that q(1) by (cases "p = q") auto
  have dm: "dom (G2(q := None)) \<union> set (q # ps2) = dom G \<union> set (q # qs)" using up(2) by auto
  have "alloc_post R G s (q # qs) r v 0 s3 (G2(q := None)) (q # ps2)"
    unfolding alloc_post_def using s3 so kp dm pt rt2 fr(1) assms(7,8) by (auto simp: vm_frame_def)
  with s3(1) show ?thesis by blast
qed

lemma alloc_postD:
  assumes "alloc_post R G s ps r v n s' G' ps'"
  shows "vm_ok R G' s' ps'" "G p = Some ow \<Longrightarrow> G' p = Some ow" "dom G' \<union> set ps' = dom G \<union> set ps"
    "same_outside (table_pages G \<union> set ps) (pmem s) (pmem s')" "kend s' = kend s" "mach.more s' = mach.more s"
    "is_root G r' \<Longrightarrow> is_root G' r'"
    "is_root G r' \<Longrightarrow> va < MAXVA \<Longrightarrow> \<not> (r' = r \<and> v \<le> vpn va \<and> vpn va < v + n) \<Longrightarrow>
      pte_of (pmem s') r' va = pte_of (pmem s) r' va"
    "is_root G r \<Longrightarrow> va < MAXVA \<Longrightarrow> v \<le> vpn va \<Longrightarrow> vpn va < v + n \<Longrightarrow> fresh_pte G' (pmem s') ps r va"
proof -
  note a = assms [unfolded alloc_post_def]
  show "vm_ok R G' s' ps'" "dom G' \<union> set ps' = dom G \<union> set ps" "kend s' = kend s" "mach.more s' = mach.more s"
    "same_outside (table_pages G \<union> set ps) (pmem s) (pmem s')" using a by simp_all
  show k: "\<And>p ow. G p = Some ow \<Longrightarrow> G' p = Some ow" using a by blast
  show "is_root G r' \<Longrightarrow> is_root G' r'" unfolding is_root_def by (rule k)
  have pt: "if r' = r \<and> v \<le> vpn va \<and> vpn va < v + n then fresh_pte G' (pmem s') ps r va
       else pte_of (pmem s') r' va = pte_of (pmem s) r' va" if "is_root G r'" "va < MAXVA" for r' va
    using a that by blast
  show "is_root G r' \<Longrightarrow> va < MAXVA \<Longrightarrow> \<not> (r' = r \<and> v \<le> vpn va \<and> vpn va < v + n) \<Longrightarrow>
      pte_of (pmem s') r' va = pte_of (pmem s) r' va" using pt [of r' va] by simp
  show "is_root G r \<Longrightarrow> va < MAXVA \<Longrightarrow> v \<le> vpn va \<Longrightarrow> vpn va < v + n \<Longrightarrow> fresh_pte G' (pmem s') ps r va"
    using pt [of r va] by simp
qed

lemma alloc_post_pages:
  assumes "alloc_post R G s ps r v n s' G' ps'" "vm_ok R G s ps"
  shows "table_pages G' \<union> set ps' \<subseteq> table_pages G \<union> set ps" "set ps' \<subseteq> set ps"
proof -
  note d = alloc_postD [OF assms(1)]
  have "x \<in> table_pages G \<union> set ps" if "x \<in> table_pages G' \<union> set ps'" for x
  proof (cases "x \<in> dom G")
    case True
    then obtain ow where ow: "G x = Some ow" by blast
    from d(2) [OF this] have "G' x = Some ow" .
    moreover from this have "x \<notin> set ps'" using vm_okD(2) [OF d(1)] by auto
    ultimately show ?thesis using that ow by (auto simp: table_pages_def)
  next
    case False
    with that d(3) show ?thesis by (auto simp: table_pages_def)
  qed
  then show "table_pages G' \<union> set ps' \<subseteq> table_pages G \<union> set ps" by blast
  have "dom G \<subseteq> dom G'" using d(2) by blast
  with vm_okD(2) [OF d(1)] d(3) show "set ps' \<subseteq> set ps" by blast
qed

lemma alloc_post_trans:
  assumes "alloc_post R G s ps r v n s1 G1 ps1" "alloc_post R G1 s1 ps1 r (v + n) k s2 G2 ps2"
    and "vm_ok R G s ps" "is_root G r"
  shows "alloc_post R G s ps r v (n + k) s2 G2 ps2"
proof -
  note d1 = alloc_postD [OF assms(1)] and d2 = alloc_postD [OF assms(2)]
  note pg = alloc_post_pages [OF assms(1,3)]
  have so: "same_outside (table_pages G \<union> set ps) (pmem s) (pmem s2)"
    by (rule same_outside_trans [OF d1(4) d2(4)]) (use pg in auto)
  have pt: "if r' = r \<and> v \<le> vpn va \<and> vpn va < v + (n + k) then fresh_pte G2 (pmem s2) ps r va
       else pte_of (pmem s2) r' va = pte_of (pmem s) r' va" if a: "is_root G r'" "va < MAXVA" for r' va
  proof (cases "r' = r \<and> v \<le> vpn va \<and> vpn va < v + (n + k)")
    case False
    with d1(8) [OF a] d2(8) [OF d1(7) [OF a(1)] a(2)] show ?thesis by auto
  next
    case True
    show ?thesis
    proof (cases "vpn va < v + n")
      case lt: True
      from d1(9) [OF assms(4) a(2)] True lt obtain q where q: "q \<in> set ps" "G1 q = Some (UserPage r (vpn va))"
        "zero_page (pmem s1) q" "pte_of (pmem s1) r va = PA2PTE q OR UPERM OR PTE_V"
        by (auto simp: fresh_pte_def)
      have "q \<notin> table_pages G1 \<union> set ps1" using q(2) vm_okD(2) [OF d1(1)] by (auto simp: table_pages_def)
      then have "zero_page (pmem s2) q" using q(3) d2(4) by (auto simp: zero_page_def same_outside_def)
      moreover have "pte_of (pmem s2) r va = pte_of (pmem s1) r va"
        using d2(8) [OF d1(7) [OF assms(4)] a(2)] lt by simp
      ultimately have "fresh_pte G2 (pmem s2) ps r va"
        using q d2(2) [OF q(2)] unfolding fresh_pte_def by auto
      with True show ?thesis by simp
    next
      case False
      with d2(9) [OF d1(7) [OF assms(4)] a(2)] True have "fresh_pte G2 (pmem s2) ps1 r va" by simp
      then have "fresh_pte G2 (pmem s2) ps r va" using pg(2) unfolding fresh_pte_def by blast
      with True show ?thesis by simp
    qed
  qed
  show ?thesis unfolding alloc_post_def using d1 d2 so pt by auto
qed

section \<open>The loop\<close>

text \<open>Unmapping what was allocated restores every translation.\<close>

lemma unalloc:
  assumes "alloc_post R G s ps r v n s1 G1 ps1" "unmap_post R G1 s1 ps1 r v n s2 G2 ps2"
    and "vm_ok R G s ps" "is_root G r"
    and "\<And>va. va < MAXVA \<Longrightarrow> v \<le> vpn va \<Longrightarrow> vpn va < v + n \<Longrightarrow> pte_of (pmem s) r va = 0"
  shows "alloc_post R G s ps r v 0 s2 G2 ps2"
proof -
  note d = alloc_postD [OF assms(1)] and pg = alloc_post_pages [OF assms(1,3)]
  obtain fs where fs: "ps2 = fs @ ps1" "G2 = (\<lambda>p. if p \<in> set fs then None else G1 p)"
    "\<And>p. p \<in> set fs \<Longrightarrow> \<exists>va. va < MAXVA \<and> v \<le> vpn va \<and> vpn va < v + n \<and>
        G1 p = Some (UserPage r (vpn va)) \<and> p = PTE2PA (pte_of (pmem s1) r va)"
    using assms(2) unfolding unmap_post_def by blast
  have fresh: "p \<in> set ps" if p: "p \<in> set fs" for p
  proof -
    from fs(3) [OF p] obtain va where va: "va < MAXVA" "v \<le> vpn va" "vpn va < v + n"
      "p = PTE2PA (pte_of (pmem s1) r va)" by blast
    from d(9) [OF assms(4) va(1-3)] obtain q where q: "q \<in> set ps"
      "pte_of (pmem s1) r va = PA2PTE q OR UPERM OR PTE_V" by (auto simp: fresh_pte_def)
    with UPERM_pte(1) [OF vm_ok_pages(3) [OF assms(3) q(1)]] va(4) show ?thesis by simp
  qed
  then have new: "set fs \<inter> dom G = {}" using vm_okD(2) [OF assms(3)] by blast
  have kp: "G2 p = Some ow" if "G p = Some ow" for p ow
  proof -
    have "p \<notin> set fs" using new that by auto
    with d(2) [OF that] show ?thesis by (simp add: fs(2))
  qed
  have "set fs \<subseteq> dom G1" using fs(3) by blast
  then have "dom G2 \<union> set ps2 = dom G1 \<union> set ps1" unfolding fs(1,2) by (auto simp: dom_def split: if_splits)
  with d(3) have dm: "dom G2 \<union> set ps2 = dom G \<union> set ps" by simp
  have so2: "same_outside (table_pages G1 \<union> set ps2) (pmem s1) (pmem s2)" "vm_ok R G2 s2 ps2"
    "kend s2 = kend s1" "mach.more s2 = mach.more s1"
    using assms(2) unfolding unmap_post_def by blast+
  have "same_outside (table_pages G \<union> set ps) (pmem s) (pmem s2)"
    by (rule same_outside_trans [OF d(4) so2(1)]) (use pg fresh fs(1) in auto)
  moreover have "pte_of (pmem s2) r' va = pte_of (pmem s) r' va" if "is_root G r'" "va < MAXVA" for r' va
    using unmap_post_pte [OF assms(2) d(7) [OF that(1)] that(2)] d(8) [OF that] assms(5) [OF that(2)]
    by auto
  ultimately show ?thesis unfolding alloc_post_def using kp dm so2 d(5,6) by auto
qed

lemma vpn_offset:
  assumes "page_aligned b" "vpn b + k \<le> TFVPN"
  shows "unat (b + of_nat k * PGSIZE) = unat b + 4096 * k" "vpn (b + of_nat k * PGSIZE) = vpn b + k"
    "page_aligned (b + of_nat k * PGSIZE)"
proof -
  have ub: "unat b = 4096 * vpn b" using assms(1) by (rule aligned_vpn)
  have "b + of_nat k * PGSIZE = of_nat (unat b + 4096 * k)" by (simp add: PGSIZE_def)
  moreover have "unat b + 4096 * k < 18446744073709551616" using assms(2) ub by (simp add: TFVPN_def)
  ultimately show u: "unat (b + of_nat k * PGSIZE) = unat b + 4096 * k" by (simp only: unat_of_nat64)
  show "vpn (b + of_nat k * PGSIZE) = vpn b + k" unfolding vpn_def u by simp
  show "page_aligned (b + of_nat k * PGSIZE)" unfolding aligned_unat u ub by simp
qed

lemma unmap_count:
  assumes "unmap_post R G s ps r v n s' G' ps'"
  shows "length ps' \<le> n + length ps"
proof -
  obtain fs where fs: "ps' = fs @ ps"
    "\<And>p. p \<in> set fs \<Longrightarrow> \<exists>va. va < MAXVA \<and> v \<le> vpn va \<and> vpn va < v + n \<and> p = PTE2PA (pte_of (pmem s) r va)"
    using assms unfolding unmap_post_def by blast
  let ?f = "\<lambda>w. PTE2PA (pte_of (pmem s) r (of_nat (w * 4096)))"
  have "p \<in> ?f ` {v..<v + n}" if p: "p \<in> set fs" for p
  proof -
    from fs(2) [OF p] obtain va where va: "va < MAXVA" "v \<le> vpn va" "vpn va < v + n"
      "p = PTE2PA (pte_of (pmem s) r va)" by blast
    have "vpn va * 4096 \<le> unat va" by (simp add: vpn_def)
    then have "unat (of_nat (vpn va * 4096) :: uint64) = vpn va * 4096"
      using unat64_bound [of va] by (intro unat_of_nat64) linarith
    then have "vpn (of_nat (vpn va * 4096)) = vpn va" by (simp only: vpn_def)
    from pte_of_cong [OF this] va show ?thesis by (intro image_eqI [of _ _ "vpn va"]) auto
  qed
  then have "card (set fs) \<le> n"
    using card_mono [of "?f ` {v..<v + n}" "set fs"] card_image_le [of "{v..<v + n}" ?f] by force
  moreover have "distinct ps'" using assms by (simp add: unmap_post_def vm_ok_def free_pages_def)
  ultimately show ?thesis by (simp add: fs(1) distinct_card)
qed

lemma uvmdealloc_unalloc:
  assumes "vm_ok R G0 s0 ps0" "is_root G0 r" "r \<in> R" "page_aligned b" "vpn b + k \<le> TFVPN"
    and "\<And>va. va < MAXVA \<Longrightarrow> vpn b \<le> vpn va \<Longrightarrow> vpn va < vpn b + k \<Longrightarrow> pte_of (pmem s0) r va = 0"
    and "alloc_post R G0 s0 ps0 r (vpn b) k s G ps"
  shows "\<exists>s' G' ps'. uvmdealloc r (b + of_nat k * PGSIZE) b s = Ok (b, s') \<and>
    alloc_post R G0 s0 ps0 r (vpn b) 0 s' G' ps' \<and> length ps' \<le> k + length ps"
proof -
  note d = alloc_postD [OF assms(7)] and off = vpn_offset [OF assms(4,5)]
  have "pte_valid (pte_of (pmem s) r va)"
    if va: "va < MAXVA" "vpn b \<le> vpn va" "vpn va < vpn (b + of_nat k * PGSIZE)" for va
  proof -
    from d(9) [OF assms(2) va(1,2)] va(3) off(2) obtain q where "q \<in> set ps0"
      "pte_of (pmem s) r va = PA2PTE q OR UPERM OR PTE_V" by (auto simp: fresh_pte_def)
    with UPERM_pte(3) [OF vm_ok_pages(3) [OF assms(1)]] show ?thesis by simp
  qed
  moreover have "b \<le> b + of_nat k * PGSIZE" using off(1) by (simp add: word_le_nat_alt)
  ultimately obtain s' G' ps' where u: "uvmdealloc r (b + of_nat k * PGSIZE) b s = Ok (b, s')"
    "unmap_post R G s ps r (vpn b) k s' G' ps'"
    using uvmdealloc_run [OF d(1) d(7) [OF assms(2)] assms(3) off(3) assms(4)] off(2) assms(5) by auto
  from unalloc [OF assms(7) u(2) assms(1,2,6)] u(1) unmap_count [OF u(2)] show ?thesis by blast
qed

lemma uvmalloc_loop_step:
  assumes "vm_ok R G s ps" "is_root G r" "r \<in> R" "page_aligned a" "vpn a < TFVPN" "a < MAXVA"
    and "pte_of (pmem s) r a = 0" "a < newsz"
  obtains (next_page) s' G' ps' where "alloc_post R G s ps r (vpn a) 1 s' G' ps'"
      "uvmalloc_loop r a b newsz s = uvmalloc_loop r (a + PGSIZE) b newsz s'"
    | (no_page) s' G' ps' where "alloc_post R G s ps r (vpn a) 0 s' G' ps'" "length ps' \<le> 1"
      "uvmalloc_loop r a b newsz s = bindr (uvmdealloc r a b s') (\<lambda>(_, s). Ok (0, s))"
proof (cases ps)
  case Nil
  with assms(1) have "kalloc s = (0, s)" by (intro kalloc_Nil) (simp add: vm_ok_def)
  with assms(8) have "uvmalloc_loop r a b newsz s = bindr (uvmdealloc r a b s) (\<lambda>(_, s). Ok (0, s))"
    by (subst uvmalloc_loop.simps) simp
  with alloc_post_refl [OF assms(1)] Nil show ?thesis by (intro no_page [of s G ps]) simp_all
next
  case (Cons q qs)
  note ok = assms(1) [unfolded Cons]
  from take_page [OF ok, of r "vpn a"] obtain s1 s2 where
    t: "kalloc s = (q, s1)" "s2 = s1\<lparr>pmem := memset q 0 4096 (pmem s1)\<rparr>" "q \<noteq> 0"
    "vm_ok R (G(q \<mapsto> UserPage r (vpn a))) s2 qs" "same_outside {q} (pmem s) (pmem s2)" "zero_page (pmem s2) q"
    "kend s2 = kend s" "mach.more s2 = mach.more s"
    "\<And>r' va. is_root G r' \<Longrightarrow> pte_of (pmem s2) r' va = pte_of (pmem s) r' va" by blast
  let ?G = "G(q \<mapsto> UserPage r (vpn a))"
  note qf = page_alloc_facts [OF ok]
  have r2: "is_root ?G r" using assms(2) qf(1) by (auto simp: is_root_def)
  have "leaf_ok ?G r (vpn a) (PA2PTE q OR UPERM OR PTE_V)"
    using UPERM_pte [OF qf(3)] assms(5) by (simp add: leaf_ok_def)
  moreover have "\<not> pte_valid (pte_of (pmem s2) r a)" using t(9) [OF assms(2)] assms(7) by simp
  ultimately obtain ret s3 G3 ps3 j where
    m: "mappages r a PGSIZE q UPERM s2 = Ok (ret, s3)" "map_post R ?G s2 qs r a q UPERM s3 G3 ps3 j"
    "ret = 0 \<and> j = 1 \<or> ret = -1 \<and> j = 0 \<and> ps3 = []"
    using mappages_page [OF t(4) r2 assms(6,4)] by blast
  show ?thesis
  proof (cases "ret = 0")
    case True
    with m have "map_post R ?G s2 qs r a q UPERM s3 G3 ps3 1" by auto
    from alloc_one_ok [OF ok assms(2,4,6) t(4-9) this] show ?thesis
      using assms(8) t(1-3) m(1) True
      by (intro next_page [of s3 G3 ps3]) (simp_all add: Cons, subst uvmalloc_loop.simps, simp)
  next
    case False
    with m have m0: "map_post R ?G s2 qs r a q UPERM s3 G3 ps3 0" by auto
    have "\<not> pte_valid (pte_of (pmem s) r a)" using assms(7) by simp
    from alloc_one_full [OF ok assms(2,6) this t(4,5,7-9) m0, of "vpn a"] obtain s4 where
      "kfree q s3 = Ok s4" "alloc_post R G s (q # qs) r (vpn a) 0 s4 (G3(q := None)) (q # ps3)" by blast
    then show ?thesis using assms(8) t(1-3) m(1,3) False
      by (intro no_page [of s4 "G3(q := None)" "q # ps3"]) (simp_all add: Cons, subst uvmalloc_loop.simps, simp)
  qed
qed

lemma uvmalloc_loop_run:
  assumes "vm_ok R G0 s0 ps0" "is_root G0 r" "r \<in> R" "page_aligned b" "vpn b + N \<le> TFVPN"
    and zero: "\<And>va. va < MAXVA \<Longrightarrow> vpn b \<le> vpn va \<Longrightarrow> vpn va < vpn b + N \<Longrightarrow> pte_of (pmem s0) r va = 0"
    and lim: "\<And>k. k \<le> N \<Longrightarrow> b + of_nat k * PGSIZE < newsz \<longleftrightarrow> k < N"
    and "alloc_post R G0 s0 ps0 r (vpn b) k s G ps" "k \<le> N"
  shows "\<exists>ret s' G' ps' n. uvmalloc_loop r (b + of_nat k * PGSIZE) b newsz s = Ok (ret, s') \<and>
    alloc_post R G0 s0 ps0 r (vpn b) n s' G' ps' \<and>
    (ret = newsz \<and> n = N \<or> ret = 0 \<and> n = 0 \<and> length ps' \<le> N)"
  using assms(8,9)
proof (induction "N - k" arbitrary: k s G ps)
  case 0
  then have "k = N" by simp
  with 0 lim [of N] show ?case by (subst uvmalloc_loop.simps) auto
next
  case (Suc x)
  then have k: "k < N" by simp
  let ?a = "b + of_nat k * PGSIZE"
  have tf: "vpn b + k \<le> TFVPN" "vpn b + k < TFVPN" using k assms(5) by simp_all
  note off = vpn_offset [OF assms(4) tf(1)] and d = alloc_postD [OF Suc.prems(1)]
  have aM: "?a < MAXVA" using off(1) tf(2) aligned_vpn [OF assms(4)]
    by (simp add: word_less_nat_alt MAXVA_unat TFVPN_def)
  have guard: "?a < newsz" using lim [of k] k by simp
  have nv: "pte_of (pmem s) r ?a = 0"
    using d(8) [OF assms(2) aM] zero [OF aM] off(2) k by simp
  have vt: "vpn ?a < TFVPN" using off(2) tf(2) by simp
  have zero': "\<And>va. va < MAXVA \<Longrightarrow> vpn b \<le> vpn va \<Longrightarrow> vpn va < vpn b + k \<Longrightarrow> pte_of (pmem s0) r va = 0"
    using zero k by simp
  show ?case
  proof (rule uvmalloc_loop_step [OF d(1) d(7) [OF assms(2)] assms(3) off(3) vt aM nv guard, of b],
      goal_cases next_page no_page)
    case (next_page s3 G3 ps3)
    then have one: "alloc_post R G s ps r (vpn b + k) 1 s3 G3 ps3" unfolding off(2) by simp
    from alloc_post_trans [OF Suc.prems(1) one assms(1,2)]
    have "alloc_post R G0 s0 ps0 r (vpn b) (Suc k) s3 G3 ps3" by simp
    moreover have "x = N - Suc k" "Suc k \<le> N" using Suc.hyps(2) k by simp_all
    moreover have "b + of_nat (Suc k) * PGSIZE = ?a + PGSIZE" by (simp add: algebra_simps)
    ultimately show ?case using Suc.hyps(1) next_page(2) by metis
  next
    case (no_page s4 G4 ps4)
    then have "alloc_post R G s ps r (vpn b + k) 0 s4 G4 ps4" unfolding off(2) by simp
    from alloc_post_trans [OF Suc.prems(1) this assms(1,2)]
    have "alloc_post R G0 s0 ps0 r (vpn b) k s4 G4 ps4" by simp
    from uvmdealloc_unalloc [OF assms(1-4) tf(1) zero' this] obtain s' G' ps' where
      "uvmdealloc r ?a b s4 = Ok (b, s')" "alloc_post R G0 s0 ps0 r (vpn b) 0 s' G' ps'"
      "length ps' \<le> k + length ps4" by blast
    with no_page(2,3) k show ?case by fastforce
  qed
qed

lemma PGROUNDUP_bound:
  assumes "vpn a < TFVPN"
  shows "unat (PGROUNDUP a) = (unat a + 4095) div 4096 * 4096"
proof -
  have "unat a < 4096 * TFVPN" using assms by (simp add: vpn_def div_less_iff_less_mult mult.commute)
  then have "unat (a + PGSIZE - 1) = unat a + 4095"
    by (simp add: PGSIZE_def TFVPN_def unat_word_ariths flip: add_diff_eq)
  then show ?thesis using unat_PGROUNDDOWN [of "a + PGSIZE - 1"]
    by (simp add: PGROUNDUP_def PGROUNDDOWN_def)
qed

lemma uvmalloc_limit:
  assumes "vpn oldsz < TFVPN" "vpn newsz < TFVPN" "oldsz \<le> newsz"
  defines "b \<equiv> PGROUNDUP oldsz" and "N \<equiv> vpn (PGROUNDUP newsz) - vpn (PGROUNDUP oldsz)"
  shows "vpn b + N \<le> TFVPN" and "k \<le> N \<Longrightarrow> b + of_nat k * PGSIZE < newsz \<longleftrightarrow> k < N"
proof -
  have v: "vpn (PGROUNDUP a) = (unat a + 4095) div 4096" if "vpn a < TFVPN" for a
    using PGROUNDUP_bound [OF that] by (simp add: vpn_def)
  have le: "vpn b \<le> vpn (PGROUNDUP newsz)"
    unfolding b_def v [OF assms(1)] v [OF assms(2)] using assms(3)
    by (intro div_le_mono) (simp add: word_le_nat_alt)
  have "unat newsz < 4096 * TFVPN" using assms(2) by (simp add: vpn_def div_less_iff_less_mult mult.commute)
  then have "vpn (PGROUNDUP newsz) < Suc TFVPN"
    unfolding v [OF assms(2)] by (subst div_less_iff_less_mult) (simp_all add: TFVPN_def)
  then have top: "vpn (PGROUNDUP newsz) \<le> TFVPN" by simp
  with le show bound: "vpn b + N \<le> TFVPN" by (simp add: N_def b_def)
  show "b + of_nat k * PGSIZE < newsz \<longleftrightarrow> k < N" if "k \<le> N"
  proof -
    have al: "page_aligned b" unfolding b_def by (rule PGROUNDUP_aligned)
    have "vpn b + k \<le> TFVPN" using that bound by simp
    from vpn_offset(1) [OF al this] aligned_vpn [OF al]
    have "b + of_nat k * PGSIZE < newsz \<longleftrightarrow> 4096 * (vpn b + k) < unat newsz"
      by (simp add: word_less_nat_alt)
    also have "\<dots> \<longleftrightarrow> Suc (vpn b + k) \<le> (unat newsz + 4095) div 4096"
      by (subst less_eq_div_iff_mult_less_eq) auto
    also have "\<dots> \<longleftrightarrow> k < N" using le unfolding N_def v [OF assms(2), symmetric] b_def by auto
    finally show ?thesis .
  qed
qed

section \<open>Address spaces from scratch\<close>

text \<open>\<^verbatim>\<open>uvmcreate\<close>: a new address space maps nothing.\<close>

lemma vm_ok_new_root:
  assumes "vm_ok R G s ps" "G q = None" "q \<notin> set ps" "page_ok (kend s) q" "zero_page (pmem s) q"
  shows "vm_ok (insert q R) (G(q \<mapsto> Table q 2 0)) s ps" "pte_of (pmem s) q va = 0"
proof -
  note ok = vm_okD [OF assms(1)]
  let ?G = "G(q \<mapsto> Table q 2 0)"
  have al: "page_aligned q" using assms(4) by (rule page_ok_aligned)
  have old: "G p = Some ow" if "?G p = Some ow" "p \<noteq> q" for p ow using that by simp
  have up: "?G p = Some ow" if "G p = Some ow" for p ow using that assms(2) by auto
  note z = zero_page_load [OF assms(5) al]
  have "tables_ok (kend s) ?G (pmem s)" unfolding tables_ok_def
  proof (intro conjI allI impI)
    fix p r l n i assume a: "?G p = Some (Table r (Suc l) n)" "i < 512" "pte_valid (load64 (pmem s) (slot p i))"
    then have "p \<noteq> q" using z by auto
    from tables_okD(2) [OF ok(3) old [OF a(1) this] a(2,3)] up
    show "?G (PTE2PA (load64 (pmem s) (slot p i))) = Some (Table r l (n * 512 + i))" by blast
  next
    fix p ow assume "?G p = Some ow"
    then show "page_ok (kend s) p" using assms(4) tables_okD(1) [OF ok(3)] by (cases "p = q") auto
  qed
  moreover have "users_ok (insert q R) ?G (pmem s)" unfolding users_ok_def
  proof (intro allI impI)
    fix p r n i
    assume a: "?G p = Some (Table r 0 n)" "r \<in> insert q R" "i < 512" "pte_valid (load64 (pmem s) (slot p i))"
    then have "p \<noteq> q" using z by auto
    note Gp = old [OF a(1) this]
    have "r \<noteq> q"
    proof
      assume "r = q"
      with linked_up_root [OF ok(5) Gp] assms(2) show False by simp
    qed
    with a users_okD [OF ok(4) Gp _ a(3,4)] assms(2)
    show "leaf_ok ?G r (n * 512 + i) (load64 (pmem s) (slot p i))" by (blast intro: leaf_ok_upd)
  qed
  moreover have "linked_up ?G (pmem s)" unfolding linked_up_def
  proof (intro allI impI)
    fix p r l k assume a: "?G p = Some (Table r l k)"
    show "if l < 2 then \<exists>pp. ?G pp = Some (Table r (Suc l) (k div 512)) \<and>
         pte_valid (load64 (pmem s) (slot pp (k mod 512))) \<and>
         PTE2PA (load64 (pmem s) (slot pp (k mod 512))) = p
       else l = 2 \<and> p = r \<and> k = 0"
    proof (cases "p = q")
      case True
      with a show ?thesis by auto
    next
      case False
      from linked_upD [OF ok(5) old [OF a False]] show ?thesis
        by (simp del: fun_upd_apply) (use up in blast)
    qed
  qed
  ultimately show "vm_ok (insert q R) ?G s ps" using ok(1,2) assms(3) by (simp add: vm_ok_def)
  show "pte_of (pmem s) q va = 0" unfolding pte_of_def by (rule pte_at_zero [OF assms(5) al])
qed

section \<open>Properties\<close>

text \<open>A machine with one empty address space and one free page, for the concrete instances.\<close>

definition one_page_vm :: mach where
  "one_page_vm = \<lparr>pmem = (\<lambda>_. 0), freelist = 0x80003000, kend = 0x80001000\<rparr>"

lemma one_page_vm_ok:
  "vm_ok {0x80002000} [0x80002000 \<mapsto> Table 0x80002000 2 0] one_page_vm [0x80003000]"
proof -
  have "load64 (\<lambda>_. 0) 0x80003000 = 0"
    by (simp add: load64_def mread_def upt_rec)
  then have "vm_ok {} Map.empty one_page_vm [0x80003000]"
    by (simp add: vm_ok_def free_pages_def one_page_vm_def page_ok_def aligned_unat PHYSTOP_def KERNBASE_def
        tables_ok_def users_ok_def linked_up_def)
  from vm_ok_new_root(1) [OF this, of "0x80002000"] show ?thesis
    by (simp add: zero_page_def one_page_vm_def page_ok_def aligned_unat PHYSTOP_def KERNBASE_def)
qed

lemma one_page_vm_root: "is_root [0x80002000 \<mapsto> Table 0x80002000 2 0] 0x80002000"
  by (simp add: is_root_def)

lemma one_page_vm_pte: "pte_of (pmem one_page_vm) 0x80002000 va = 0"
  unfolding pte_of_def
  by (rule pte_at_zero) (simp_all add: zero_page_def one_page_vm_def aligned_unat)

text \<open>
  Claim C6. \<^verbatim>\<open>uvmalloc\<close> either grows the address space from \<open>oldsz\<close> to \<open>newsz\<close>, every new page
  mapped read-write-execute-user to a fresh page of zeroes that no other address space has, or
  returns 0 with every translation of every address space as it was. It returns 0 only when memory
  ran out: what it gave back is all that is free. In both cases the owner invariant holds again
  and no physical page is lost.
\<close>

theorem uvmalloc_correct:
  assumes "vm_ok R G s ps" "is_root G r" "r \<in> R" "oldsz \<le> newsz" "vpn newsz < TFVPN"
    and "\<And>va. va < MAXVA \<Longrightarrow> vpn (PGROUNDUP oldsz) \<le> vpn va \<Longrightarrow> vpn va < vpn (PGROUNDUP newsz) \<Longrightarrow>
      pte_of (pmem s) r va = 0"
  shows "\<exists>ret s' G' ps' n. uvmalloc r oldsz newsz s = Ok (ret, s') \<and>
    alloc_post R G s ps r (vpn (PGROUNDUP oldsz)) n s' G' ps' \<and>
    (ret = newsz \<and> n = vpn (PGROUNDUP newsz) - vpn (PGROUNDUP oldsz) \<or>
     ret = 0 \<and> n = 0 \<and> length ps' \<le> vpn (PGROUNDUP newsz) - vpn (PGROUNDUP oldsz))"
proof -
  have "vpn oldsz < TFVPN"
    using assms(4,5) div_le_mono [of "unat oldsz" "unat newsz" 4096] by (simp add: vpn_def word_le_nat_alt)
  note lim = uvmalloc_limit [OF this assms(5,4)]
  let ?b = "PGROUNDUP oldsz" and ?N = "vpn (PGROUNDUP newsz) - vpn (PGROUNDUP oldsz)"
  have zero: "pte_of (pmem s) r va = 0" if "va < MAXVA" "vpn ?b \<le> vpn va" "vpn va < vpn ?b + ?N" for va
    using that assms(6) by simp
  from uvmalloc_loop_run [OF assms(1-3) PGROUNDUP_aligned lim(1) zero lim(2) alloc_post_refl [OF assms(1)]]
  have "\<exists>ret s' G' ps' n. uvmalloc_loop r ?b ?b newsz s = Ok (ret, s') \<and>
    alloc_post R G s ps r (vpn ?b) n s' G' ps' \<and>
    (ret = newsz \<and> n = ?N \<or> ret = 0 \<and> n = 0 \<and> length ps' \<le> ?N)" by simp
  moreover have "\<not> newsz < oldsz" using assms(4) by simp
  ultimately show ?thesis unfolding uvmalloc_def Let_def by simp
qed

theorem uvmalloc_correct_witness:
  "\<exists>ret s' G' ps' n. uvmalloc 0x80002000 0 8192 one_page_vm = Ok (ret, s') \<and>
    alloc_post {0x80002000} [0x80002000 \<mapsto> Table 0x80002000 2 0] one_page_vm [0x80003000] 0x80002000
      (vpn (PGROUNDUP 0)) n s' G' ps' \<and>
    (ret = 8192 \<and> n = vpn (PGROUNDUP 8192) - vpn (PGROUNDUP 0) \<or>
     ret = 0 \<and> n = 0 \<and> length ps' \<le> vpn (PGROUNDUP 8192) - vpn (PGROUNDUP 0))"
  by (rule uvmalloc_correct [OF one_page_vm_ok one_page_vm_root])
    (simp_all add: one_page_vm_pte vpn_def TFVPN_def)

text \<open>
  Claim C21. \<^verbatim>\<open>uvmcreate\<close> takes the first free page as the root of a new address space that maps
  nothing, and leaves the translations of the others alone; without free pages it returns 0 and
  changes nothing.
\<close>

theorem uvmcreate_correct:
  assumes "vm_ok R G s ps"
  shows "case ps of [] \<Rightarrow> uvmcreate s = (0, s)
    | q # qs \<Rightarrow> \<exists>s'. uvmcreate s = (q, s') \<and> vm_ok (insert q R) (G(q \<mapsto> Table q 2 0)) s' qs \<and>
        (\<forall>va. pte_of (pmem s') q va = 0) \<and>
        (\<forall>r va. is_root G r \<longrightarrow> pte_of (pmem s') r va = pte_of (pmem s) r va)"
proof (cases ps)
  case Nil
  with assms have "kalloc s = (0, s)" by (intro kalloc_Nil) (simp add: vm_ok_def)
  with Nil show ?thesis by (simp add: uvmcreate_def)
next
  case (Cons q qs)
  note ok = assms [unfolded Cons] and q = page_alloc_facts [OF assms [unfolded Cons]]
  from take_page [OF ok, of q 0] obtain s0 s1 where
    t: "kalloc s = (q, s0)" "s1 = s0\<lparr>pmem := memset q 0 4096 (pmem s0)\<rparr>"
    "q \<noteq> 0" "vm_ok R (G(q \<mapsto> UserPage q 0)) s1 qs" "same_outside {q} (pmem s) (pmem s1)"
    "zero_page (pmem s1) q" "kend s1 = kend s" "mach.more s1 = mach.more s"
    "\<And>r' va. is_root G r' \<Longrightarrow> pte_of (pmem s1) r' va = pte_of (pmem s) r' va" by blast
  have "{q} \<inter> table_pages G = {}" "set qs \<inter> dom G = {}" using q(1) vm_okD(2) [OF ok] by (auto simp: table_pages_def)
  with vm_ok_same(1) [OF ok t(5)] vm_okD(1) [OF t(4)] t(7) have "vm_ok R G s1 qs" by simp
  from vm_ok_new_root [OF this q(1,5) _ t(6)] q(2) t(7)
  have "vm_ok (insert q R) (G(q \<mapsto> Table q 2 0)) s1 qs" "\<And>va. pte_of (pmem s1) q va = 0" by simp_all
  moreover have "uvmcreate s = (q, s1)" using t(1,2) q(4) by (simp add: uvmcreate_def)
  ultimately show ?thesis using Cons t(9) by auto
qed

theorem uvmcreate_correct_witness:
  "\<exists>s'. uvmcreate one_page_vm = (0x80003000, s') \<and>
    vm_ok {0x80003000, 0x80002000} [0x80002000 \<mapsto> Table 0x80002000 2 0, 0x80003000 \<mapsto> Table 0x80003000 2 0] s' [] \<and>
    (\<forall>va. pte_of (pmem s') 0x80003000 va = 0)"
  using uvmcreate_correct [OF one_page_vm_ok] by auto

end
