(* ===== verification/Copyio.thy ===== *)
theory Copyio
  imports Uvmalloc
begin

text \<open>
  \<^verbatim>\<open>walkaddr\<close>, \<^verbatim>\<open>copyout\<close>, \<^verbatim>\<open>copyin\<close> and \<^verbatim>\<open>copyinstr\<close> of
  \<^verbatim>\<open>kernel/vm.c\<close> against the memory a user process sees: \<open>ubyte r va s\<close> is the byte at
  virtual address \<open>va\<close> of address space \<open>r\<close>, where user code may access it.
\<close>

lemma walkaddr_pte:
  assumes "vm_ok R G s ps" "is_root G r"
  shows "walkaddr r va s =
    (if va < MAXVA \<and> pte_valid (pte_of (pmem s) r va) \<and> pte_user (pte_of (pmem s) r va)
     then PTE2PA (pte_of (pmem s) r va) else 0)"
proof (cases "va < MAXVA")
  case True
  from walk_lookup [OF assms True] obtain e where
    e: "walk r va False s = Ok (e, s)" "if e = 0 then lookup 2 (pmem s) r va = None
      else lookup 2 (pmem s) r va = Some e" by blast
  from e(1) True have w: "walk_level 2 r va False s = (e, s)" by (auto simp: walk_def split: if_splits)
  show ?thesis
  proof (cases "e = 0")
    case True
    with e(2) w \<open>va < MAXVA\<close> show ?thesis by (simp add: walkaddr_def pte_of_def pte_at_lookup)
  next
    case False
    with e(2) have "load64 (pmem s) e = pte_of (pmem s) r va" using lookup_load by simp
    with False w \<open>va < MAXVA\<close> show ?thesis
      by (auto simp: walkaddr_def pte_valid_def pte_user_def Let_def)
  qed
next
  case False
  then show ?thesis by (auto simp: walkaddr_def not_less)
qed

lemma walkaddr_owner:
  assumes "vm_ok R G s ps" "is_root G r" "r \<in> R" "walkaddr r va s \<noteq> 0"
  shows "G (walkaddr r va s) = Some (UserPage r (vpn va))" "va < MAXVA"
proof -
  let ?e = "pte_of (pmem s) r va"
  from assms(4) have v: "va < MAXVA" "pte_valid ?e" "pte_user ?e" "walkaddr r va s = PTE2PA ?e"
    unfolding walkaddr_pte [OF assms(1,2)] by (simp_all split: if_splits)
  with pte_of_leaf [OF assms(1-3) v(1,2)] show "G (walkaddr r va s) = Some (UserPage r (vpn va))" "va < MAXVA"
    by (auto simp: leaf_ok_def split: if_splits)
qed

section \<open>The memory of a user process\<close>

definition ubyte :: "uint64 \<Rightarrow> uint64 \<Rightarrow> 'a mach_scheme \<Rightarrow> uchar option" where
  "ubyte r va s =
    (let pa = walkaddr r (PGROUNDDOWN va) s in
     if pa = 0 then None else Some (pmem s (pa + (va - PGROUNDDOWN va))))"

lemma rounddown_twice [simp]: "PGROUNDDOWN (PGROUNDDOWN va) = PGROUNDDOWN va"
  by (simp add: PGROUNDDOWN_def flip: and.assoc)

lemma vpn_rounddown [simp]: "vpn (PGROUNDDOWN va) = vpn va"
  by (simp add: vpn_eq_iff)

lemma rounddown_aligned: "page_aligned (PGROUNDDOWN va)"
  by (simp add: aligned_unat unat_PGROUNDDOWN)

lemma in_user_page:
  "page_aligned p \<Longrightarrow> PGROUNDDOWN (p + (va - PGROUNDDOWN va)) = p"
  using in_page_iff [of p "p + (va - PGROUNDDOWN va)"] page_room(2) [of va] by simp

lemma unat_add_page: "unat (x :: uint64) + unat y < 4096 \<Longrightarrow> unat (x + y) < 4096"
  by (simp add: unat_word_ariths)

text \<open>Writing inside one page of an address space.\<close>

lemma mwrite_page_apply:
  assumes "page_aligned p" "page_aligned q" "unat d + length bs \<le> 4096" "unat e < 4096"
  shows "mwrite m (p + d) bs (q + e) =
    (if q = p \<and> unat d \<le> unat e \<and> unat e < unat d + length bs then bs ! (unat e - unat d) else m (q + e))"
proof -
  have l: "length bs \<le> 18446744073709551616" using assms(3) by simp
  show ?thesis
  proof (cases "q = p")
    case True
    have "unat (q + e - (p + d)) = (if unat d \<le> unat e then unat e - unat d else unat e + 18446744073709551616 - unat d)"
      using True unat_sub_cases [of e d] by simp
    then show ?thesis using True assms(3,4) by (auto simp: mwrite_apply [OF l])
  next
    case False
    have "\<not> unat (q + e - (p + d)) < length bs"
    proof
      assume lt: "unat (q + e - (p + d)) < length bs"
      then have "unat (q + e - (p + d)) + unat d < 4096" using assms(3) by simp
      then have "unat (q + e - (p + d) + d) < 4096" by (rule unat_add_page)
      moreover have "q + e - (p + d) + d = q + e - p" by simp
      ultimately have "PGROUNDDOWN (q + e) = p" using in_page_iff [OF assms(1), of "q + e"] by metis
      moreover have "PGROUNDDOWN (q + e) = q" using in_page_iff [OF assms(2), of "q + e"] assms(4) by simp
      ultimately show False using False by simp
    qed
    with False show ?thesis by (simp add: mwrite_apply [OF l])
  qed
qed

lemma write_user_page:
  assumes "vm_ok R G s ps" "G p = Some (UserPage r v)" "unat d + length bs \<le> 4096"
  defines "s' \<equiv> s\<lparr>pmem := mwrite (pmem s) (p + d) bs\<rparr>"
  shows "vm_ok R G s' ps" "is_root G r' \<Longrightarrow> walkaddr r' va s' = walkaddr r' va s"
proof -
  have al: "page_aligned p" using vm_ok_pages(1) [OF assms(1,2)] .
  have so: "same_outside {p} (pmem s) (pmem s')"
  proof (unfold same_outside_def, intro allI impI)
    fix x assume "PGROUNDDOWN x \<notin> {p}"
    then show "pmem s' x = pmem s x"
      using mwrite_page_apply [OF al rounddown_aligned assms(3), of "x - PGROUNDDOWN x" "pmem s" x] page_room(2) [of x]
      by (simp add: s'_def)
  qed
  have tp: "{p} \<inter> table_pages G = {}" using assms(2) by (auto simp: table_pages_def)
  have "set ps \<inter> {p} = {}" using vm_okD(2) [OF assms(1)] assms(2) by auto
  then have fp: "free_pages s' ps" unfolding s'_def
    using free_pages_same [OF vm_okD(1) [OF assms(1)]] so by (simp add: s'_def)
  note same = vm_ok_same [OF assms(1) so tp fp vm_okD(2) [OF assms(1)]]
  then show ok: "vm_ok R G s' ps" by (simp add: s'_def)
  show "walkaddr r' va s' = walkaddr r' va s" if "is_root G r'"
    unfolding walkaddr_pte [OF ok that] walkaddr_pte [OF assms(1) that]
    using same(2) [OF _ that] by (simp add: s'_def)
qed

lemma ubyte_write:
  assumes "vm_ok R G s ps" "is_root G r" "r \<in> R" "is_root G r'" "r' \<in> R"
    and "walkaddr r (PGROUNDDOWN a) s \<noteq> 0" "unat (a - PGROUNDDOWN a) + length bs \<le> 4096"
  shows "ubyte r' va (s\<lparr>pmem := mwrite (pmem s) (walkaddr r (PGROUNDDOWN a) s + (a - PGROUNDDOWN a)) bs\<rparr>) =
    (if r' = r \<and> unat (va - a) < length bs then Some (bs ! unat (va - a)) else ubyte r' va s)"
proof -
  let ?p = "walkaddr r (PGROUNDDOWN a) s" and ?q = "walkaddr r' (PGROUNDDOWN va) s"
  let ?d = "a - PGROUNDDOWN a" and ?e = "va - PGROUNDDOWN va"
  let ?s = "s\<lparr>pmem := mwrite (pmem s) (?p + ?d) bs\<rparr>"
  have Gp: "G ?p = Some (UserPage r (vpn a))" using walkaddr_owner(1) [OF assms(1-3,6)] by simp
  note w = write_user_page(2) [OF assms(1) Gp assms(7) assms(4)]
  have inr: "unat (va - a) < length bs \<longleftrightarrow> PGROUNDDOWN va = PGROUNDDOWN a \<and> unat ?d \<le> unat ?e \<and>
      unat ?e < unat ?d + length bs" and ix: "PGROUNDDOWN va = PGROUNDDOWN a \<Longrightarrow> unat ?d \<le> unat ?e \<Longrightarrow>
      unat (va - a) = unat ?e - unat ?d"
  proof -
    have "va - a = ?e - ?d" if "PGROUNDDOWN va = PGROUNDDOWN a" using that by simp
    then have u: "unat (va - a) = (if unat ?d \<le> unat ?e then unat ?e - unat ?d else unat ?e + 18446744073709551616 - unat ?d)"
      if "PGROUNDDOWN va = PGROUNDDOWN a" using that unat_sub_cases [of ?e ?d] by simp
    have pg: "PGROUNDDOWN va = PGROUNDDOWN a" if "unat (va - a) < length bs"
    proof -
      have "unat (va - a) + unat ?d < 4096" using that assms(7) by simp
      then have "unat (va - a + ?d) < 4096" by (rule unat_add_page)
      moreover have "va - a + ?d = va - PGROUNDDOWN a" by simp
      ultimately show ?thesis using in_page_iff [OF rounddown_aligned, of va a] by metis
    qed
    show "unat (va - a) < length bs \<longleftrightarrow> PGROUNDDOWN va = PGROUNDDOWN a \<and> unat ?d \<le> unat ?e \<and>
      unat ?e < unat ?d + length bs"
      using pg u assms(7) page_room(2) [of va] by (auto split: if_splits)
    show "PGROUNDDOWN va = PGROUNDDOWN a \<Longrightarrow> unat ?d \<le> unat ?e \<Longrightarrow> unat (va - a) = unat ?e - unat ?d"
      using u by simp
  qed
  show ?thesis
  proof (cases "?q = 0")
    case True
    then have "\<not> (r' = r \<and> PGROUNDDOWN va = PGROUNDDOWN a)" using assms(6) by auto
    with True w inr show ?thesis by (auto simp: ubyte_def Let_def)
  next
    case False
    have Gq: "G ?q = Some (UserPage r' (vpn va))" using walkaddr_owner(1) [OF assms(1,4,5) False] by simp
    have same: "?q = ?p \<longleftrightarrow> r' = r \<and> PGROUNDDOWN va = PGROUNDDOWN a"
    proof
      assume "?q = ?p"
      with Gp Gq show "r' = r \<and> PGROUNDDOWN va = PGROUNDDOWN a" by (simp add: vpn_eq_iff)
    qed simp
    have al: "page_aligned ?p" "page_aligned ?q" using vm_ok_pages(1) [OF assms(1)] Gp Gq by blast+
    have "ubyte r' va ?s = Some (mwrite (pmem s) (?p + ?d) bs (?q + ?e))"
      using False w by (simp add: ubyte_def Let_def)
    also have "\<dots> = (if r' = r \<and> unat (va - a) < length bs then Some (bs ! unat (va - a)) else ubyte r' va s)"
      unfolding mwrite_page_apply [OF al assms(7) page_room(2)]
      using same inr ix False by (auto simp: ubyte_def Let_def)
    finally show ?thesis .
  qed
qed

section \<open>copyout\<close>

text \<open>
  \<open>n\<close> bytes of \<open>src\<close> were stored at \<open>a\<close> in address space \<open>r\<close>, and no address space (of \<open>R\<close>)
  sees any other change.
\<close>

definition stored ::
  "uint64 set \<Rightarrow> owners \<Rightarrow> uint64 \<Rightarrow> uint64 \<Rightarrow> uchar list \<Rightarrow> nat \<Rightarrow> 'a mach_scheme \<Rightarrow> 'a mach_scheme \<Rightarrow> bool" where
  "stored R G r a src n s s' \<longleftrightarrow> (\<forall>r' va. is_root G r' \<longrightarrow> r' \<in> R \<longrightarrow> ubyte r' va s' =
    (if r' = r \<and> unat (va - a) < n then Some (src ! unat (va - a)) else ubyte r' va s))"

lemma unat_sub_split:
  assumes "unat a + n + k \<le> 18446744073709551616" "unat (b :: uint64) = unat a + n"
  shows "unat (va - a) < n + k \<longleftrightarrow> unat (va - a) < n \<or> unat (va - b) < k"
    and "unat (va - b) < k \<Longrightarrow> unat (va - a) = n + unat (va - b)"
  using assms unat64_bound [of va] unat64_bound [of b] by (auto simp: unat_sub_cases split: if_splits)

lemma stored_append:
  assumes "stored R G r a (take n src) n s s1" "stored R G r b (drop n src) k s1 s2" "n \<le> length src"
    and "unat a + n + k \<le> 18446744073709551616" "unat b = unat a + n" "n + k \<le> length src"
  shows "stored R G r a src (n + k) s s2"
  unfolding stored_def
proof (intro allI impI)
  fix r' va assume r': "is_root G r'" "r' \<in> R"
  note sp = unat_sub_split [OF assms(4,5), of va]
  have "unat (va - b) < k \<Longrightarrow> drop n src ! unat (va - b) = src ! unat (va - a)"
    using sp(2) assms(3) by simp
  moreover have "unat (va - a) < n \<Longrightarrow> \<not> unat (va - b) < k" using sp(2) by auto
  ultimately show "ubyte r' va s2 =
      (if r' = r \<and> unat (va - a) < n + k then Some (src ! unat (va - a)) else ubyte r' va s)"
    using assms(1,2) r' sp(1) unfolding stored_def by auto
qed

lemma next_page_unat:
  assumes "va < MAXVA"
  shows "unat (PGROUNDDOWN va + PGSIZE) = unat va + (4096 - unat (va - PGROUNDDOWN va))"
    "unat (PGROUNDDOWN va + PGSIZE) \<le> unat MAXVA"
proof -
  have le: "unat (PGROUNDDOWN va) \<le> unat va" by (simp add: unat_PGROUNDDOWN)
  then have "PGROUNDDOWN va < MAXVA" using assms by (simp add: word_less_nat_alt)
  note u = unat_add_PGSIZE [OF this]
  moreover have d: "unat (va - PGROUNDDOWN va) = unat va - unat (PGROUNDDOWN va)" using le by (simp add: unat_sub_cases)
  ultimately show "unat (PGROUNDDOWN va + PGSIZE) = unat va + (4096 - unat (va - PGROUNDDOWN va))"
    using le page_room(2) [of va] by simp
  obtain k where k: "unat (PGROUNDDOWN va) = 4096 * k" using aligned_multiple [OF rounddown_aligned] by blast
  from assms le have "4096 * k < 4096 * 67108864" unfolding k [symmetric] by (simp add: word_less_nat_alt MAXVA_unat)
  then show "unat (PGROUNDDOWN va + PGSIZE) \<le> unat MAXVA" unfolding u k MAXVA_unat by simp
qed

lemma copyout_page:
  assumes "vm_ok R G s ps" "is_root G r" "r \<in> R" "src \<noteq> []" "walkaddr r (PGROUNDDOWN a) s \<noteq> 0"
  obtains n b s1 where "copyout r a src s = copyout r b (drop n src) s1" "0 < n" "n \<le> length src"
    "vm_ok R G s1 ps" "stored R G r a (take n src) n s s1" "unat a + n \<le> unat MAXVA"
    "n < length src \<Longrightarrow> unat b = unat a + n \<and> b = a + of_nat n"
    "\<And>r' va. is_root G r' \<Longrightarrow> walkaddr r' va s1 = walkaddr r' va s"
proof -
  let ?p = "walkaddr r (PGROUNDDOWN a) s" and ?d = "a - PGROUNDDOWN a"
  have aM: "a < MAXVA" using walkaddr_owner(2) [OF assms(1-3,5)] by (rule PGROUNDDOWN_mono_less)
  define n where "n = min (4096 - unat ?d) (length src)"
  have n: "0 < n" "n \<le> length src" "unat ?d + length (take n src) \<le> 4096" "unat ?d + n \<le> 4096"
    using assms(4) page_room [of a] by (auto simp: n_def)
  let ?s = "s\<lparr>pmem := mwrite (pmem s) (?p + ?d) (take n src)\<rparr>"
  let ?b = "PGROUNDDOWN a + PGSIZE"
  have Gp: "G ?p = Some (UserPage r (vpn a))" using walkaddr_owner(1) [OF assms(1-3,5)] by simp
  note w = write_user_page [OF assms(1) Gp n(3)]
  have st: "stored R G r a (take n src) n s ?s"
    using ubyte_write [OF assms(1-3) _ _ assms(5) n(3)] n(2) by (simp add: stored_def)
  have step: "copyout r a src s = copyout r ?b (drop n src) ?s"
    using assms(4,5) by (subst copyout.simps) (simp add: Let_def n_def)
  have bd: "unat a + n \<le> unat MAXVA" using next_page_unat [OF aM] n(4) by linarith
  have nx: "unat ?b = unat a + n \<and> ?b = a + of_nat n" if "n < length src"
  proof -
    have "n = 4096 - unat ?d" using that by (simp add: n_def)
    then have "unat ?b = unat a + n" using next_page_unat(1) [OF aM] by simp
    moreover from this have "?b = of_nat (unat a + n)" by (rule unat_eq_imp)
    ultimately show ?thesis by simp
  qed
  show ?thesis by (rule that [OF step n(1,2) w(1) st bd nx w(2)])
qed

definition copyout_post ::
  "uint64 set \<Rightarrow> owners \<Rightarrow> uint64 list \<Rightarrow> uint64 \<Rightarrow> uint64 \<Rightarrow> uchar list \<Rightarrow> 'a mach_scheme \<Rightarrow>
    int \<Rightarrow> 'a mach_scheme \<Rightarrow> nat \<Rightarrow> bool" where
  "copyout_post R G ps r a src s ret s' n \<longleftrightarrow> vm_ok R G s' ps \<and> n \<le> length src \<and>
    (n = 0 \<or> unat a + n \<le> unat MAXVA) \<and> stored R G r a src n s s' \<and>
    (\<forall>r' va. is_root G r' \<longrightarrow> walkaddr r' va s' = walkaddr r' va s) \<and>
    (ret = 0 \<and> n = length src \<or> ret = -1 \<and> n < length src \<and> ubyte r (a + of_nat n) s = None)"

lemma copyout_stored:
  assumes "vm_ok R G s ps" "is_root G r" "r \<in> R"
  shows "\<exists>ret s' n. copyout r a src s = (ret, s') \<and> copyout_post R G ps r a src s ret s' n"
  using assms(1)
proof (induction "length src" arbitrary: a src s rule: less_induct)
  case less
  consider "src = []" | "src \<noteq> []" "walkaddr r (PGROUNDDOWN a) s = 0"
    | "src \<noteq> []" "walkaddr r (PGROUNDDOWN a) s \<noteq> 0" by blast
  then show ?case
  proof cases
    case 1
    then have "copyout r a src s = (0, s)" by (subst copyout.simps) simp
    with 1 less.prems show ?thesis by (auto simp: copyout_post_def stored_def)
  next
    case 2
    then have "copyout r a src s = (-1, s)" by (subst copyout.simps) simp
    moreover have "copyout_post R G ps r a src s (-1) s 0"
      using 2 less.prems by (simp add: copyout_post_def stored_def ubyte_def)
    ultimately show ?thesis by blast
  next
    case 3
    obtain n b s1 where
      p: "copyout r a src s = copyout r b (drop n src) s1" "0 < n" "n \<le> length src"
      "vm_ok R G s1 ps" "stored R G r a (take n src) n s s1" "unat a + n \<le> unat MAXVA"
      "n < length src \<Longrightarrow> unat b = unat a + n \<and> b = a + of_nat n"
      "\<And>r' va. is_root G r' \<Longrightarrow> walkaddr r' va s1 = walkaddr r' va s"
      by (rule copyout_page [OF less.prems assms(2,3) 3]) blast
    from p(2,3) have "length (drop n src) < length src" by simp
    from less.hyps [OF this p(4)] obtain ret s' k where
      c: "copyout r b (drop n src) s1 = (ret, s')" "copyout_post R G ps r b (drop n src) s1 ret s' k" by blast
    have "copyout_post R G ps r a src s ret s' (n + k)"
    proof (cases "n = length src")
      case True
      with c(2) p(5,6,8) show ?thesis by (auto simp: copyout_post_def stored_def)
    next
      case False
      with p(3,7) have b: "unat b = unat a + n" "b = a + of_nat n" by auto
      have bd: "unat a + n + k \<le> unat MAXVA" using c(2) b(1) p(6) by (auto simp: copyout_post_def)
      then have "unat a + n + k \<le> 18446744073709551616" by (simp add: MAXVA_unat)
      from stored_append [OF p(5) _ p(3) this b(1)] c(2) p(3) have "stored R G r a src (n + k) s s'"
        by (auto simp: copyout_post_def)
      moreover have "ubyte r (a + of_nat (n + k)) s = None" if "ubyte r (b + of_nat k) s1 = None"
        using that p(5) assms(2,3) by (simp add: b(2) stored_def add.assoc split: if_splits)
      ultimately show ?thesis using c(2) p(3,8) bd by (auto simp: copyout_post_def)
    qed
    with p(1) c(1) show ?thesis by auto
  qed
qed

section \<open>copyin and copyinstr\<close>

lemma walkaddr_bound: "walkaddr r va s \<noteq> 0 \<Longrightarrow> va < MAXVA"
  by (auto simp: walkaddr_def not_le split: if_splits)

text \<open>The bytes a loop iteration looks at are consecutive user bytes.\<close>

lemma ubyte_page:
  assumes "walkaddr r (PGROUNDDOWN a) s \<noteq> 0" "unat (a - PGROUNDDOWN a) + i < 4096"
  shows "ubyte r (a + of_nat i) s =
    Some (pmem s (walkaddr r (PGROUNDDOWN a) s + (a - PGROUNDDOWN a) + of_nat i))"
proof -
  have i: "unat (of_nat i :: uint64) = i" using assms(2) by simp
  have "unat (a - PGROUNDDOWN a + of_nat i) < 4096" using assms(2) i by (intro unat_add_page) simp
  moreover have "a - PGROUNDDOWN a + of_nat i = a + of_nat i - PGROUNDDOWN a" by simp
  ultimately have "PGROUNDDOWN (a + of_nat i) = PGROUNDDOWN a"
    using in_page_iff [OF rounddown_aligned, of "a + of_nat i" a] by metis
  with assms(1) show ?thesis by (simp add: ubyte_def Let_def algebra_simps)
qed

lemma next_page_eq:
  assumes "walkaddr r (PGROUNDDOWN a) s \<noteq> 0" "n = 4096 - unat (a - PGROUNDDOWN a)"
  shows "PGROUNDDOWN a + PGSIZE = a + of_nat n"
proof -
  have "a < MAXVA" using walkaddr_bound [OF assms(1)] by (rule PGROUNDDOWN_mono_less)
  from next_page_unat(1) [OF this] assms(2) have "unat (PGROUNDDOWN a + PGSIZE) = unat a + n" by simp
  then have "PGROUNDDOWN a + PGSIZE = of_nat (unat a + n)" by (rule unat_eq_imp)
  then show ?thesis by simp
qed

definition ubytes :: "uint64 \<Rightarrow> uint64 \<Rightarrow> 'a mach_scheme \<Rightarrow> uchar list \<Rightarrow> bool" where
  "ubytes r a s bs \<longleftrightarrow> (\<forall>i < length bs. ubyte r (a + of_nat i) s = Some (bs ! i))"

lemma all_less_add: "(\<forall>i < m + n. P i) \<longleftrightarrow> (\<forall>i < m. P i) \<and> (\<forall>i < n. P (m + i))" for m n :: nat
proof (intro iffI conjI allI impI)
  fix i assume a: "(\<forall>i < m. P i) \<and> (\<forall>i < n. P (m + i))" "i < m + n"
  show "P i"
  proof (cases "i < m")
    case False
    then obtain j where "i = m + j" using le_Suc_ex not_less by blast
    with a show ?thesis by simp
  qed (use a in simp)
qed simp_all

lemma ubytes_append:
  "ubytes r a s (xs @ ys) \<longleftrightarrow> ubytes r a s xs \<and> ubytes r (a + of_nat (length xs)) s ys"
  by (simp add: ubytes_def all_less_add nth_append add.assoc)

lemma copyin_reads:
  "\<exists>ret bs. copyin r a len s = (ret, bs) \<and> ubytes r a s bs \<and>
    (ret = 0 \<and> length bs = len \<or> ret = -1 \<and> length bs < len \<and> ubyte r (a + of_nat (length bs)) s = None)"
proof (induction len arbitrary: a rule: less_induct)
  case (less len)
  let ?p = "walkaddr r (PGROUNDDOWN a) s" and ?d = "a - PGROUNDDOWN a"
  consider "len = 0" | "len \<noteq> 0" "?p = 0" | "len \<noteq> 0" "?p \<noteq> 0" by blast
  then show ?case
  proof cases
    case 1
    then show ?thesis by (subst copyin.simps) (auto simp: ubytes_def)
  next
    case 2
    then show ?thesis by (subst copyin.simps) (auto simp: ubytes_def ubyte_def Let_def)
  next
    case 3
    define n where "n = min (4096 - unat ?d) len"
    have n: "0 < n" "n \<le> len" "unat ?d + n \<le> 4096" using 3(1) page_room [of a] by (auto simp: n_def)
    let ?bs = "mread (pmem s) (?p + ?d) n"
    have bs: "ubytes r a s ?bs"
      using ubyte_page [OF 3(2)] n(3) by (simp add: ubytes_def)
    from less.IH [of "len - n" "PGROUNDDOWN a + PGSIZE"] n obtain ret rest where
      c: "copyin r (PGROUNDDOWN a + PGSIZE) (len - n) s = (ret, rest)" "ubytes r (PGROUNDDOWN a + PGSIZE) s rest"
      "ret = 0 \<and> length rest = len - n \<or>
       ret = -1 \<and> length rest < len - n \<and> ubyte r (PGROUNDDOWN a + PGSIZE + of_nat (length rest)) s = None"
      by auto
    have "copyin r a len s = (ret, ?bs @ rest)"
      using 3 c(1) by (subst copyin.simps) (simp add: Let_def n_def)
    moreover have "ubytes r a s (?bs @ rest) \<and> (ret = 0 \<and> length (?bs @ rest) = len \<or>
        ret = -1 \<and> length (?bs @ rest) < len \<and> ubyte r (a + of_nat (length (?bs @ rest))) s = None)"
    proof (cases "n = len")
      case True
      with c bs show ?thesis by auto
    next
      case False
      then have "n = 4096 - unat ?d" using n(2) by (simp add: n_def)
      from next_page_eq [OF 3(2) this] c(2,3) bs n(2) show ?thesis
        by (auto simp: ubytes_append add.assoc)
    qed
    ultimately show ?thesis by blast
  qed
qed

lemma copyinstr_page_reads:
  assumes "copyinstr_page m p n = (bs, got)"
  shows "length bs \<le> n" "\<forall>i < length bs. bs ! i = m (p + of_nat i)"
    "got \<Longrightarrow> \<exists>xs. bs = xs @ [0] \<and> 0 \<notin> set xs" "\<not> got \<Longrightarrow> length bs = n \<and> 0 \<notin> set bs"
proof -
  have "length bs \<le> n \<and> (\<forall>i < length bs. bs ! i = m (p + of_nat i)) \<and>
    (if got then \<exists>xs. bs = xs @ [0] \<and> 0 \<notin> set xs else length bs = n \<and> 0 \<notin> set bs)"
    using assms
  proof (induction m p n arbitrary: bs got rule: copyinstr_page.induct)
    case (1 m p)
    then show ?case by auto
  next
    case (2 m p n)
    show ?case
    proof (cases "m p = 0")
      case True
      with "2.prems" show ?thesis by auto
    next
      case False
      with "2.prems" obtain cs where c: "copyinstr_page m (p + 1) n = (cs, got)" "bs = m p # cs"
        by (auto split: prod.splits)
      from "2.IH" [OF False c(1)] False show ?thesis
        by (auto simp: c(2) nth_Cons' of_nat_diff intro: exI [of _ "m p # _"])
    qed
  qed
  then show "length bs \<le> n" "\<forall>i < length bs. bs ! i = m (p + of_nat i)"
    "got \<Longrightarrow> \<exists>xs. bs = xs @ [0] \<and> 0 \<notin> set xs" "\<not> got \<Longrightarrow> length bs = n \<and> 0 \<notin> set bs"
    by auto
qed

lemma copyinstr_reads:
  "\<exists>ret bs. copyinstr r a maxlen s = (ret, bs) \<and> ubytes r a s bs \<and> length bs \<le> maxlen \<and>
    (ret = 0 \<and> (\<exists>xs. bs = xs @ [0] \<and> 0 \<notin> set xs) \<or>
     ret = -1 \<and> 0 \<notin> set bs \<and> (length bs = maxlen \<or> ubyte r (a + of_nat (length bs)) s = None))"
proof (induction maxlen arbitrary: a rule: less_induct)
  case (less maxlen)
  let ?p = "walkaddr r (PGROUNDDOWN a) s" and ?d = "a - PGROUNDDOWN a"
  consider "maxlen = 0" | "maxlen \<noteq> 0" "?p = 0" | "maxlen \<noteq> 0" "?p \<noteq> 0" by blast
  then show ?case
  proof cases
    case 1
    then show ?thesis by (subst copyinstr.simps) (auto simp: ubytes_def)
  next
    case 2
    then show ?thesis by (subst copyinstr.simps) (auto simp: ubytes_def ubyte_def Let_def)
  next
    case 3
    define n where "n = min (4096 - unat ?d) maxlen"
    have n: "0 < n" "n \<le> maxlen" "unat ?d + n \<le> 4096" using 3(1) page_room [of a] by (auto simp: n_def)
    obtain bs got where pg: "copyinstr_page (pmem s) (?p + ?d) n = (bs, got)" by fastforce
    note rd = copyinstr_page_reads [OF pg]
    have bs: "ubytes r a s bs" using ubyte_page [OF 3(2)] n(3) rd(1,2) by (simp add: ubytes_def)
    show ?thesis
    proof (cases got)
      case True
      then have "copyinstr r a maxlen s = (0, bs)"
        using 3 pg by (subst copyinstr.simps) (simp add: Let_def n_def)
      with bs rd(1) rd(3) [OF True] n(2) show ?thesis by auto
    next
      case False
      note nz = rd(4) [OF False]
      from less.IH [of "maxlen - n" "PGROUNDDOWN a + PGSIZE"] n obtain ret rest where
        c: "copyinstr r (PGROUNDDOWN a + PGSIZE) (maxlen - n) s = (ret, rest)"
        "ubytes r (PGROUNDDOWN a + PGSIZE) s rest" "length rest \<le> maxlen - n"
        "ret = 0 \<and> (\<exists>xs. rest = xs @ [0] \<and> 0 \<notin> set xs) \<or> ret = -1 \<and> 0 \<notin> set rest \<and>
         (length rest = maxlen - n \<or> ubyte r (PGROUNDDOWN a + PGSIZE + of_nat (length rest)) s = None)"
        by auto
      have eq: "copyinstr r a maxlen s = (ret, bs @ rest)"
        using 3 c(1) pg False by (subst copyinstr.simps) (simp add: Let_def n_def)
      show ?thesis
      proof (cases "n = maxlen")
        case True
        then have "copyinstr r (PGROUNDDOWN a + PGSIZE) (maxlen - n) s = (-1, [])"
          by (subst copyinstr.simps) simp
        with True c eq bs nz show ?thesis by auto
      next
        case lt: False
        then have "n = 4096 - unat ?d" using n(2) by (simp add: n_def)
        note nx = next_page_eq [OF 3(2) this]
        have "(\<exists>xs. bs @ rest = xs @ [0] \<and> 0 \<notin> set xs)" if "rest = ys @ [0]" "0 \<notin> set ys" for ys
          using that nz by (intro exI [of _ "bs @ ys"]) simp
        with eq c bs nz n(2) show ?thesis by (auto simp: ubytes_append nx add.assoc)
      qed
    qed
  qed
qed

section \<open>A mapped address space\<close>

lemma link_zero_page:
  assumes "vm_ok R G s ps" "G p = Some (Table r (Suc l) n)" "i < 512"
    and "\<not> pte_valid (load64 (pmem s) (slot p i))"
    and "G q = None" "q \<notin> set ps" "page_ok (kend s) q" "zero_page (pmem s) q"
  shows "vm_ok R (G(q \<mapsto> Table r l (n * 512 + i)))
    (s\<lparr>pmem := store64 (pmem s) (slot p i) (PA2PTE q OR PTE_V)\<rparr>) ps"
proof -
  note ok = vm_okD [OF assms(1)]
  let ?m = "store64 (pmem s) (slot p i) (PA2PTE q OR PTE_V)"
  have p: "page_aligned p" "p \<noteq> q" using vm_ok_pages(1) [OF assms(1,2)] assms(2,5) by auto
  have q: "page_aligned q" using assms(7) by (rule page_ok_aligned)
  have out: "same_outside {p} (pmem s) ?m" using p assms(3) by (intro store64_slot_outside)
  have z: "zero_page ?m q" using out p(2) assms(8) by (auto simp: same_outside_def zero_page_def)
  have ld: "load64 ?m (slot p' j) = load64 (pmem s) (slot p' j)"
    if "G p' = Some (Table r' l' n')" "j < 512" "\<not> (p' = p \<and> j = i)" for p' r' l' n' j
    using that assms(3) p(1) vm_ok_pages(1) [OF assms(1) that(1)] by (intro load64_store64_slot) auto
  have "set ps \<inter> {p} = {}" using ok(2) assms(2) by auto
  then have "free_pages (s\<lparr>pmem := ?m\<rparr>) ps" by (rule free_pages_same [OF ok(1) out])
  moreover have "tables_ok (kend s) (G(q \<mapsto> Table r l (n * 512 + i))) ?m"
    by (rule tables_ok_link [OF ok(3) assms(2,3,5,7) _ z ld]) simp_all
  moreover have "users_ok R (G(q \<mapsto> Table r l (n * 512 + i))) ?m"
    by (rule users_ok_link [OF ok(4) assms(2,3,5,7) z ld])
  moreover have "linked_up (G(q \<mapsto> Table r l (n * 512 + i))) ?m"
    by (rule linked_up_link [OF ok(5,3) assms(2-5) q _ ld]) simp_all
  ultimately show ?thesis using ok(2) assms(6) by (simp add: vm_ok_def)
qed

text \<open>
  Root \<^verbatim>\<open>0x80002000\<close> with tables \<^verbatim>\<open>0x80003000\<close>, \<^verbatim>\<open>0x80004000\<close> and one user page
  \<^verbatim>\<open>0x80005000\<close> at virtual address 0.
\<close>

definition mem1 :: mem where "mem1 = store64 (\<lambda>_. 0) 0x80002000 (PA2PTE 0x80003000 OR PTE_V)"
definition mem2 :: mem where "mem2 = store64 mem1 0x80003000 (PA2PTE 0x80004000 OR PTE_V)"
definition mem3 :: mem where "mem3 = store64 mem2 0x80004000 (PA2PTE 0x80005000 OR UPERM OR PTE_V)"

definition user_vm :: mach where
  "user_vm = \<lparr>pmem = mem3, freelist = 0, kend = 0x80001000\<rparr>"

definition user_owners :: owners where
  "user_owners = [0x80002000 \<mapsto> Table 0x80002000 2 0, 0x80003000 \<mapsto> Table 0x80002000 1 0,
    0x80004000 \<mapsto> Table 0x80002000 0 0, 0x80005000 \<mapsto> UserPage 0x80002000 0]"

lemma load64_zero [simp]: "load64 (\<lambda>_. 0) a = 0"
  by (simp add: load64_def mread_def upt_rec)

lemma store64_zero_page:
  "zero_page m q \<Longrightarrow> page_aligned p \<Longrightarrow> p \<noteq> q \<Longrightarrow> zero_page (store64 m p e) q"
  using store64_slot_outside [of p 0 m e] by (auto simp: zero_page_def same_outside_def)

lemma demo_zero:
  "zero_page (\<lambda>_. 0) q" "page_aligned 0x80002000" "page_aligned 0x80003000" "page_aligned 0x80004000"
  by (simp_all add: zero_page_def aligned_unat)

lemma demo_pages:
  "page_ok 0x80001000 0x80002000" "page_ok 0x80001000 0x80003000" "page_ok 0x80001000 0x80004000"
  "page_ok 0x80001000 0x80005000"
  by (simp_all add: page_ok_def aligned_unat PHYSTOP_def KERNBASE_def)

lemma user_vm_ok: "vm_ok {0x80002000} user_owners user_vm []"
proof -
  let ?r = "0x80002000 :: uint64"
  let ?s = "\<lambda>m. \<lparr>pmem = m, freelist = 0, kend = 0x80001000\<rparr> :: mach"
  let ?G1 = "[?r \<mapsto> Table ?r 2 0]" let ?G2 = "?G1(0x80003000 \<mapsto> Table ?r 1 0)"
  let ?G3 = "?G2(0x80004000 \<mapsto> Table ?r 0 0)"
  have "vm_ok {} Map.empty (?s (\<lambda>_. 0)) []"
    by (simp add: vm_ok_def free_pages_def tables_ok_def users_ok_def linked_up_def)
  from vm_ok_new_root(1) [OF this, of ?r] have "vm_ok {?r} ?G1 (?s (\<lambda>_. 0)) []"
    by (simp add: demo_zero demo_pages)
  from link_zero_page [OF this, of ?r ?r 1 0 0 "0x80003000"] have 1: "vm_ok {?r} ?G2 (?s mem1) []"
    by (simp add: demo_zero demo_pages mem1_def)
  have "zero_page mem1 0x80004000" "load64 mem1 0x80003000 = 0"
    using zero_page_load [of mem1 "0x80003000" 0]
    by (simp_all add: mem1_def store64_zero_page demo_zero)
  with link_zero_page [OF 1, of "0x80003000" ?r 0 0 0 "0x80004000"] have 2: "vm_ok {?r} ?G3 (?s mem2) []"
    by (simp add: demo_pages mem2_def)
  have 3: "vm_ok {?r} (?G3(0x80005000 \<mapsto> UserPage ?r 0)) (?s mem2) []"
    by (rule add_user_page [OF 2]) (simp_all add: demo_pages)
  from set_leaf_ok [OF 3, of "0x80004000" ?r 0 0 "PA2PTE 0x80005000 OR UPERM OR PTE_V"]
  show ?thesis using UPERM_pte [of "0x80005000"] demo_pages(4)
    by (simp add: user_vm_def user_owners_def mem3_def leaf_ok_def TFVPN_def page_ok_def)
qed

lemma user_vm_root: "is_root user_owners 0x80002000"
  by (simp add: is_root_def user_owners_def)

lemma user_vm_walkaddr: "walkaddr 0x80002000 0 user_vm = 0x80005000"
proof -
  have "vpath 0 0 = 0" "PX 0 0 = 0" by (simp_all add: vpath_def PX_def)
  then have "lookup 2 mem3 0x80002000 0 = Some 0x80004000"
    using linked_lookup [OF vm_okD(5) [OF user_vm_ok], of "0x80004000" "0x80002000" 0]
    by (simp add: user_owners_def user_vm_def)
  from lookup_load [OF this] have "pte_of mem3 0x80002000 0 = PA2PTE 0x80005000 OR UPERM OR PTE_V"
    by (simp add: mem3_def)
  with UPERM_pte [of "0x80005000"] show ?thesis
    unfolding walkaddr_pte [OF user_vm_ok user_vm_root]
    by (simp add: user_vm_def aligned_unat MAXVA_def)
qed

lemma user_vm_mapped: "va < 4096 \<Longrightarrow> ubyte 0x80002000 va user_vm \<noteq> None"
proof -
  assume "va < 4096"
  then have "PGROUNDDOWN va = 0"
    using in_page_iff [of 0 va] by (simp add: word_less_nat_alt aligned_unat)
  then show ?thesis by (simp add: ubyte_def user_vm_walkaddr)
qed

section \<open>Properties\<close>

text \<open>
  Claim C3. Isolation: a user-accessible virtual page of one address space is never backed by the
  physical page of another address space, of another virtual page, of a page table, or by a free
  page.
\<close>

theorem user_pages_isolated:
  assumes "vm_ok R G s ps" "is_root G r" "r \<in> R" "walkaddr r va s \<noteq> 0"
  shows "walkaddr r va s \<notin> set ps \<and> walkaddr r va s \<notin> table_pages G \<and>
    (\<forall>r' va'. is_root G r' \<longrightarrow> r' \<in> R \<longrightarrow> walkaddr r' va' s = walkaddr r va s \<longrightarrow>
      r' = r \<and> PGROUNDDOWN va' = PGROUNDDOWN va)"
proof -
  note o = walkaddr_owner(1) [OF assms]
  have "r' = r \<and> PGROUNDDOWN va' = PGROUNDDOWN va"
    if "is_root G r'" "r' \<in> R" "walkaddr r' va' s = walkaddr r va s" for r' va'
    using walkaddr_owner(1) [OF assms(1) that(1,2), of va'] that(3) assms(4) o by (simp flip: vpn_eq_iff)
  moreover have "walkaddr r va s \<notin> set ps" using o vm_okD(2) [OF assms(1)] by auto
  ultimately show ?thesis using o by (auto simp: table_pages_def)
qed

theorem user_pages_isolated_witness:
  "walkaddr 0x80002000 0 user_vm = 0x80005000 \<and>
    {va. walkaddr 0x80002000 va user_vm = 0x80005000} \<subseteq> {va. PGROUNDDOWN va = 0}"
  using user_pages_isolated [OF user_vm_ok user_vm_root, of 0] user_vm_root
  by (auto simp: user_vm_walkaddr PGROUNDDOWN_def)

text \<open>
  Claim C8. \<^verbatim>\<open>copyout\<close> returns 0 exactly if every destination byte is mapped for the user; then
  \<^verbatim>\<open>copyin\<close> of the same range returns the bytes that were stored. In any case the only bytes
  that any address space sees changed are a prefix of the destination range, in the one address
  space written to, and the owner invariant holds again.
\<close>

theorem copyout_copyin:
  assumes "vm_ok R G s ps" "is_root G r" "r \<in> R"
  shows "\<exists>ret s' n. copyout r a src s = (ret, s') \<and> vm_ok R G s' ps \<and>
    (ret = 0 \<longleftrightarrow> (\<forall>i < length src. ubyte r (a + of_nat i) s \<noteq> None)) \<and>
    (ret = 0 \<longrightarrow> copyin r a (length src) s' = (0, src)) \<and>
    stored R G r a src n s s' \<and> n \<le> length src"
proof -
  from copyout_stored [OF assms] obtain ret s' n where
    c: "copyout r a src s = (ret, s')" "copyout_post R G ps r a src s ret s' n" by blast
  have none: "ubyte r va s' = None \<longleftrightarrow> ubyte r va s = None" for va
    using c(2) assms(2) by (simp add: copyout_post_def ubyte_def Let_def)
  have st: "stored R G r a src n s s'" "n = 0 \<or> unat a + n \<le> unat MAXVA" "n \<le> length src"
    using c(2) by (simp_all add: copyout_post_def)
  have val: "ubyte r (a + of_nat i) s' = Some (src ! i)" if "i < n" for i
  proof -
    have "unat (of_nat i :: uint64) = i" using that st(2) by (intro unat_of_nat64) (auto simp: MAXVA_unat)
    then show ?thesis using st(1) assms(2,3) that by (simp add: stored_def)
  qed
  have iff: "ret = 0 \<longleftrightarrow> (\<forall>i < length src. ubyte r (a + of_nat i) s \<noteq> None)"
  proof (cases "ret = 0")
    case True
    then have "n = length src" using c(2) by (auto simp: copyout_post_def)
    then have "ubyte r (a + of_nat i) s \<noteq> None" if "i < length src" for i
      using val [of i] that none [of "a + of_nat i"] by simp
    with True show ?thesis by simp
  next
    case False
    then have "n < length src" "ubyte r (a + of_nat n) s = None" using c(2) by (auto simp: copyout_post_def)
    with False show ?thesis by blast
  qed
  have "copyin r a (length src) s' = (0, src)" if "ret = 0"
  proof -
    from that c(2) have n: "n = length src" by (auto simp: copyout_post_def)
    from copyin_reads [of r a "length src" s'] obtain ret2 bs where
      b: "copyin r a (length src) s' = (ret2, bs)" "ubytes r a s' bs"
      "ret2 = 0 \<and> length bs = length src \<or>
       ret2 = -1 \<and> length bs < length src \<and> ubyte r (a + of_nat (length bs)) s' = None" by blast
    then have "ret2 = 0" "length bs = length src" using val n by auto
    moreover have "bs = src"
      by (rule nth_equalityI) (use b(2) val n calculation in \<open>auto simp: ubytes_def\<close>)
    ultimately show ?thesis using b(1) by simp
  qed
  with c iff st show ?thesis by (auto simp: copyout_post_def)
qed

theorem copyout_copyin_witness:
  "\<exists>s'. copyout 0x80002000 4000 [104, 105, 0] user_vm = (0, s') \<and>
    copyin 0x80002000 4000 3 s' = (0, [104, 105, 0])"
proof -
  have "ubyte 0x80002000 (4000 + of_nat i) user_vm \<noteq> None" if "i < 3" for i
  proof -
    from that have "i = 0 \<or> i = 1 \<or> i = 2" by auto
    then show ?thesis using user_vm_mapped [of "4000 + of_nat i"] by auto
  qed
  then show ?thesis
    using copyout_copyin [OF user_vm_ok user_vm_root, of 4000 "[104, 105, 0]"] by (auto simp: numeral_3_eq_3)
qed

text \<open>
  Claim C20. \<^verbatim>\<open>copyinstr\<close> reads consecutive user bytes, at most \<open>maxlen\<close> of them: it returns 0 with
  a string that ends in its only zero byte, or -1 when there is no zero byte among them or the
  next byte is not mapped.
\<close>

theorem copyinstr_string:
  "case copyinstr r a maxlen s of (ret, bs) \<Rightarrow>
    length bs \<le> maxlen \<and> list_all2 (\<lambda>i b. ubyte r (a + of_nat i) s = Some b) [0..<length bs] bs \<and>
    (if ret = 0 then bs \<noteq> [] \<and> last bs = 0 \<and> 0 \<notin> set (butlast bs)
     else ret = -1 \<and> 0 \<notin> set bs \<and> (length bs = maxlen \<or> ubyte r (a + of_nat (length bs)) s = None))"
  using copyinstr_reads [of r a maxlen s]
  by (auto simp: ubytes_def list_all2_conv_all_nth)

end
