(* ===== verification/Proc.thy ===== *)
theory Proc
  imports Copyio
begin

text \<open>
  Processes, \<^verbatim>\<open>kernel/proc.c\<close> and \<^verbatim>\<open>kernel/proc.h\<close>: the process table, allocation and
  release of its slots, page tables of processes, the scheduler's choice, \<^verbatim>\<open>sleep\<close> and
  \<^verbatim>\<open>wakeup\<close>, \<^verbatim>\<open>kill\<close> and \<^verbatim>\<open>wait\<close>.  (\<^verbatim>\<open>fork\<close> and \<^verbatim>\<open>exit\<close> also
  touch files and inodes and are in \<open>Sysproc\<close>.)

  A slot of \<^verbatim>\<open>proc[NPROC]\<close> is named by its index.  A critical section of a \<^verbatim>\<open>p->lock\<close>
  is one step; \<^verbatim>\<open>swtch\<close> is the change of \<open>cpus\<close>, which holds the \<^verbatim>\<open>c->proc\<close> of every
  CPU.  \<open>hart\<close> is the CPU that runs the routine.
\<close>

section \<open>The process table\<close>

datatype procstate = UNUSED | SLEEPING | RUNNABLE | RUNNING | ZOMBIE

record proc =
  p_state :: procstate
  p_parent :: "nat option"
  p_chan :: "chan option"
  p_killed :: bool
  p_xstate :: uint
  p_pid :: uint
  p_kstack :: uint64
  p_sz :: uint64
  p_pagetable :: uint64
  p_trapframe :: uint64
  p_context :: "uint64 list"
  p_ofile :: "nat option list"
  p_cwd :: "nat option"
  p_name :: "uchar list"

record pstate = mach +
  procs :: "proc list"
  initproc :: nat
  nextpid :: uint
  cpus :: "nat option list"
  hart :: nat
  trampoline :: uint64
  forkret_addr :: uint64

definition NCPU :: nat where "NCPU = 8"
definition NOFILE :: nat where "NOFILE = 16"

definition set_proc :: "nat \<Rightarrow> (proc \<Rightarrow> proc) \<Rightarrow> 'a pstate_scheme \<Rightarrow> 'a pstate_scheme" where
  "set_proc i f s = s\<lparr>procs := (procs s)[i := f (procs s ! i)]\<rparr>"

definition procinit :: "'a pstate_scheme \<Rightarrow> 'a pstate_scheme" where
  "procinit s = s\<lparr>procs := map (\<lambda>i. (procs s ! i)\<lparr>p_kstack := KSTACK i\<rparr>) [0..<length (procs s)]\<rparr>"

definition myproc :: "'a pstate_scheme \<Rightarrow> nat option" where
  "myproc s = cpus s ! hart s"

definition cur :: "'a pstate_scheme \<Rightarrow> nat" where
  "cur s = the (myproc s)"

definition curproc :: "'a pstate_scheme \<Rightarrow> proc" where
  "curproc s = procs s ! cur s"

definition allocpid :: "'a pstate_scheme \<Rightarrow> uint \<times> 'a pstate_scheme" where
  "allocpid s = (let pid = nextpid s in (pid, s\<lparr>nextpid := nextpid s + 1\<rparr>))"

section \<open>Page tables of processes\<close>

definition proc_pagetable :: "nat \<Rightarrow> 'a pstate_scheme \<Rightarrow> (uint64 \<times> 'a pstate_scheme) res" where
  "proc_pagetable i s =
    (let (pagetable, s) = uvmcreate s in
     if pagetable = 0 then Ok (0, s)
     else
       bindr (mappages pagetable TRAMPOLINE PGSIZE (trampoline s) (PTE_R OR PTE_X) s) (\<lambda>(r, s).
       if r < 0 then bindr (uvmfree3 pagetable 0 s) (\<lambda>s. Ok (0, s))
       else
         bindr (mappages pagetable TRAPFRAME PGSIZE (p_trapframe (procs s ! i)) (PTE_R OR PTE_W) s) (\<lambda>(r, s).
         if r < 0 then
           bindr (uvmunmap pagetable TRAMPOLINE 1 False s) (\<lambda>s.
           bindr (uvmfree3 pagetable 0 s) (\<lambda>s. Ok (0, s)))
         else Ok (pagetable, s))))"

definition proc_freepagetable :: "uint64 \<Rightarrow> uint64 \<Rightarrow> 'a mach_scheme \<Rightarrow> 'a mach_scheme res" where
  "proc_freepagetable pagetable sz s =
    bindr (uvmunmap pagetable TRAMPOLINE 1 False s) (\<lambda>s.
    bindr (uvmunmap pagetable TRAPFRAME 1 False s) (\<lambda>s.
    uvmfree3 pagetable sz s))"

section \<open>Slots\<close>

definition freeproc :: "nat \<Rightarrow> 'a pstate_scheme \<Rightarrow> 'a pstate_scheme res" where
  "freeproc i s =
    (let p = procs s ! i in
     bindr (if p_trapframe p \<noteq> 0 then kfree (p_trapframe p) s else Ok s) (\<lambda>s.
     bindr (if p_pagetable p \<noteq> 0 then proc_freepagetable (p_pagetable p) (p_sz p) s else Ok s) (\<lambda>s.
     Ok (set_proc i (\<lambda>p. p\<lparr>p_trapframe := 0, p_pagetable := 0, p_sz := 0, p_pid := 0, p_parent := None,
        p_name := (p_name p)[0 := 0], p_chan := None, p_killed := False, p_xstate := 0,
        p_state := UNUSED\<rparr>) s))))"

fun find_proc :: "(proc \<Rightarrow> bool) \<Rightarrow> proc list \<Rightarrow> nat \<Rightarrow> nat option" where
  "find_proc P [] i = None"
| "find_proc P (p # ps) i = (if P p then Some i else find_proc P ps (Suc i))"

definition allocproc :: "'a pstate_scheme \<Rightarrow> (nat option \<times> 'a pstate_scheme) res" where
  "allocproc s =
    (case find_proc (\<lambda>p. p_state p = UNUSED) (procs s) 0 of
       None \<Rightarrow> Ok (None, s)
     | Some i \<Rightarrow>
         let (pid, s) = allocpid s;
             s = set_proc i (\<lambda>p. p\<lparr>p_pid := pid\<rparr>) s;
             (tf, s) = kalloc s;
             s = set_proc i (\<lambda>p. p\<lparr>p_trapframe := tf\<rparr>) s
         in
         if tf = 0 then Ok (None, s)
         else
           bindr (proc_pagetable i s) (\<lambda>(pt, s).
           let s = set_proc i (\<lambda>p. p\<lparr>p_pagetable := pt\<rparr>) s in
           if pt = 0 then bindr (freeproc i s) (\<lambda>s. Ok (None, s))
           else
             Ok (Some i, set_proc i (\<lambda>p. p\<lparr>p_context := forkret_addr s # (p_kstack p + PGSIZE) # replicate 12 0\<rparr>) s)))"

definition growproc :: "int \<Rightarrow> 'a pstate_scheme \<Rightarrow> (int \<times> 'a pstate_scheme) res" where
  "growproc n s =
    (let i = cur s;
         pt = p_pagetable (procs s ! i);
         sz = (ucast (p_sz (procs s ! i)) :: uint)
     in
     if n > 0 then
       bindr (uvmalloc pt (ucast sz) (ucast (sz + of_int n)) s) (\<lambda>(r, s).
       let sz = (ucast r :: uint) in
       if sz = 0 then Ok (-1, s)
       else Ok (0, set_proc i (\<lambda>p. p\<lparr>p_sz := ucast sz\<rparr>) s))
     else if n < 0 then
       bindr (uvmdealloc pt (ucast sz) (ucast (sz + of_int n)) s) (\<lambda>(r, s).
       Ok (0, set_proc i (\<lambda>p. p\<lparr>p_sz := ucast (ucast r :: uint)\<rparr>) s))
     else Ok (0, set_proc i (\<lambda>p. p\<lparr>p_sz := ucast sz\<rparr>) s))"

section \<open>Sleeping, waking, killing\<close>

definition wakeup :: "chan \<Rightarrow> 'a pstate_scheme \<Rightarrow> 'a pstate_scheme" where
  "wakeup c s = s\<lparr>procs := map (\<lambda>p. if p_state p = SLEEPING \<and> p_chan p = Some c
      then p\<lparr>p_state := RUNNABLE\<rparr> else p) (procs s)\<rparr>"

definition wakeup1 :: "nat \<Rightarrow> 'a pstate_scheme \<Rightarrow> 'a pstate_scheme" where
  "wakeup1 i s =
    (if p_chan (procs s ! i) = Some (ChProc i) \<and> p_state (procs s ! i) = SLEEPING
     then set_proc i (\<lambda>p. p\<lparr>p_state := RUNNABLE\<rparr>) s else s)"

definition kill :: "uint \<Rightarrow> 'a pstate_scheme \<Rightarrow> int \<times> 'a pstate_scheme" where
  "kill pid s =
    (case find_proc (\<lambda>p. p_pid p = pid) (procs s) 0 of
       None \<Rightarrow> (-1, s)
     | Some i \<Rightarrow> (0, set_proc i (\<lambda>p. p\<lparr>p_killed := True,
          p_state := (if p_state p = SLEEPING then RUNNABLE else p_state p)\<rparr>) s))"

definition reparent :: "nat \<Rightarrow> 'a pstate_scheme \<Rightarrow> 'a pstate_scheme" where
  "reparent i s = s\<lparr>procs := map (\<lambda>pp. if p_parent pp = Some i
      then pp\<lparr>p_parent := Some (initproc s)\<rparr> else pp) (procs s)\<rparr>"

text \<open>
  \<^verbatim>\<open>sched\<close> hands the CPU back to the scheduler, which sets \<^verbatim>\<open>c->proc\<close> to 0; its checks of
  lock and interrupt state belong to the lock level (\<open>Spinlock\<close>), the check of the state is here.
\<close>

definition sched :: "'a pstate_scheme \<Rightarrow> 'a pstate_scheme res" where
  "sched s =
    (if p_state (curproc s) = RUNNING then Panic ''sched running''
     else Ok (s\<lparr>cpus := (cpus s)[hart s := None]\<rparr>))"

definition yield :: "'a pstate_scheme \<Rightarrow> 'a pstate_scheme res" where
  "yield s = sched (set_proc (cur s) (\<lambda>p. p\<lparr>p_state := RUNNABLE\<rparr>) s)"

text \<open>
  \<^verbatim>\<open>sleep\<close> up to its call of \<^verbatim>\<open>sched\<close>, and the part after it, which runs when the
  process has been chosen again.
\<close>

definition sleep :: "chan \<Rightarrow> 'a pstate_scheme \<Rightarrow> 'a pstate_scheme res" where
  "sleep c s = sched (set_proc (cur s) (\<lambda>p. p\<lparr>p_chan := Some c, p_state := SLEEPING\<rparr>) s)"

definition sleep_return :: "'a pstate_scheme \<Rightarrow> 'a pstate_scheme" where
  "sleep_return s = set_proc (cur s) (\<lambda>p. p\<lparr>p_chan := None\<rparr>) s"

text \<open>
  One iteration of the scheduler's inner loop, for slot \<open>i\<close>: a \<^verbatim>\<open>RUNNABLE\<close> process is put
  on this CPU.  One pass of the loop also counts the slots in use.
\<close>

definition scheduler_slot :: "nat \<Rightarrow> 'a pstate_scheme \<Rightarrow> bool \<times> 'a pstate_scheme" where
  "scheduler_slot i s =
    (if p_state (procs s ! i) = RUNNABLE
     then (True, set_proc i (\<lambda>p. p\<lparr>p_state := RUNNING\<rparr>) (s\<lparr>cpus := (cpus s)[hart s := Some i]\<rparr>))
     else (False, s))"

definition scheduler_idle :: "'a pstate_scheme \<Rightarrow> bool" where
  "scheduler_idle s = (length (filter (\<lambda>p. p_state p \<noteq> UNUSED) (procs s)) \<le> 2)"

text \<open>
  \<^verbatim>\<open>wait\<close>: one pass over the table.  \<open>WaitSleep\<close> is the call of \<^verbatim>\<open>sleep(p, &p->lock)\<close>,
  after which the loop scans again.
\<close>

datatype wait_result = WaitReturn int | WaitSleep

definition wait :: "uint64 \<Rightarrow> 'a pstate_scheme \<Rightarrow> (wait_result \<times> 'a pstate_scheme) res" where
  "wait addr s =
    (let i = cur s in
     case find_proc (\<lambda>p. p_parent p = Some i \<and> p_state p = ZOMBIE) (procs s) 0 of
       Some j \<Rightarrow>
         let pid = p_pid (procs s ! j);
             (r, s) = (if addr \<noteq> 0 then copyout (p_pagetable (procs s ! i)) addr (le_bytes 4 (p_xstate (procs s ! j))) s
                       else (0, s))
         in
         if r < 0 then Ok (WaitReturn (-1), s)
         else bindr (freeproc j s) (\<lambda>s. Ok (WaitReturn (sint pid), s))
     | None \<Rightarrow>
         if find_proc (\<lambda>p. p_parent p = Some i) (procs s) 0 = None \<or> p_killed (procs s ! i)
         then Ok (WaitReturn (-1), s)
         else bindr (sleep (ChProc i) s) (\<lambda>s. Ok (WaitSleep, s)))"

section \<open>Copying to and from either space\<close>

text \<open>Kernel addresses are physical addresses (the kernel maps memory one to one).\<close>

definition either_copyout :: "bool \<Rightarrow> uint64 \<Rightarrow> uchar list \<Rightarrow> 'a pstate_scheme \<Rightarrow> int \<times> 'a pstate_scheme" where
  "either_copyout user_dst dst src s =
    (if user_dst then copyout (p_pagetable (curproc s)) dst src s
     else (0, s\<lparr>pmem := mwrite (pmem s) dst src\<rparr>))"

definition either_copyin :: "bool \<Rightarrow> uint64 \<Rightarrow> nat \<Rightarrow> 'a pstate_scheme \<Rightarrow> int \<times> uchar list" where
  "either_copyin user_src src len s =
    (if user_src then copyin (p_pagetable (curproc s)) src len s
     else (0, mread (pmem s) src len))"

definition procdump :: "'a pstate_scheme \<Rightarrow> (uint \<times> string \<times> uchar list) list" where
  "procdump s =
    map (\<lambda>p. (p_pid p, case p_state p of UNUSED \<Rightarrow> ''unused'' | SLEEPING \<Rightarrow> ''sleep '' | RUNNABLE \<Rightarrow> ''runble''
        | RUNNING \<Rightarrow> ''run   '' | ZOMBIE \<Rightarrow> ''zombie'', p_name p))
      (filter (\<lambda>p. p_state p \<noteq> UNUSED) (procs s))"

text \<open>
  The last part of \<^verbatim>\<open>exit\<close>, once files and the current directory are released: children go
  to \<^verbatim>\<open>initproc\<close>, the parent is woken, the process becomes a zombie and leaves the CPU.
\<close>

definition exit_zombie :: "uint \<Rightarrow> 'a pstate_scheme \<Rightarrow> 'a pstate_scheme res" where
  "exit_zombie status s =
    (let i = cur s;
         s = wakeup1 (initproc s) s;
         original_parent = the (p_parent (procs s ! i));
         s = reparent i s;
         s = wakeup1 original_parent s;
         s = set_proc i (\<lambda>p. p\<lparr>p_xstate := status, p_state := ZOMBIE\<rparr>) s
     in sched s)"

section \<open>Memory routines leave the process table alone\<close>

named_theorems keeps "routines that keep the part of the state above memory"

lemma kfree_more [keeps]: "kfree p s = Ok s' \<Longrightarrow> mach.more s' = mach.more s \<and> kend s' = kend s"
  by (auto simp: kfree_def Let_def split: if_splits)

lemma kalloc_more [keeps]: "kalloc s = (p, s') \<Longrightarrow> mach.more s' = mach.more s \<and> kend s' = kend s"
  by (auto simp: kalloc_def Let_def split: if_splits)

lemma walk_level_more [keeps]:
  "walk_level l pt va al s = (e, s') \<Longrightarrow> mach.more s' = mach.more s \<and> kend s' = kend s"
proof (induction l arbitrary: pt s)
  case 0
  then show ?case by simp
next
  case (Suc l)
  show ?case
  proof (cases "load64 (pmem s) (pt + 8 * PX (Suc l) va) AND PTE_V \<noteq> 0 \<or> \<not> al")
    case True
    with Suc show ?thesis by (auto simp: Let_def split: if_splits)
  next
    case False
    obtain q s1 where k: "kalloc s = (q, s1)" by fastforce
    with False Suc.prems Suc.IH kalloc_more [OF k] show ?thesis
      by (fastforce simp: Let_def split: if_splits)
  qed
qed

lemma walk_more [keeps]:
  "walk pt va al s = Ok (e, s') \<Longrightarrow> mach.more s' = mach.more s \<and> kend s' = kend s"
  by (auto simp: walk_def split: if_splits dest: walk_level_more)

lemma mappages_loop_more [keeps]:
  "mappages_loop pt a lim pa perm s = Ok (r, s') \<Longrightarrow> mach.more s' = mach.more s \<and> kend s' = kend s"
proof (induction pt a lim pa perm s arbitrary: s' rule: mappages_loop.induct)
  case (1 pt a lim pa perm s)
  from "1.prems" obtain e s1 where w: "walk pt a True s = Ok (e, s1)"
    by (subst (asm) mappages_loop.simps) (auto simp: res_simps)
  note k = walk_more [OF w]
  from "1.prems" w show ?case
    by (subst (asm) mappages_loop.simps)
      (use k "1.IH" [OF w refl] in \<open>auto simp: Let_def split: if_splits\<close>)
qed

lemma mappages_more [keeps]:
  "mappages pt va n pa perm s = Ok (r, s') \<Longrightarrow> mach.more s' = mach.more s \<and> kend s' = kend s"
  unfolding mappages_def by (rule mappages_loop_more)

lemma uvmunmap_loop_more [keeps]:
  "uvmunmap_loop pt a lim fr s = Ok s' \<Longrightarrow> mach.more s' = mach.more s \<and> kend s' = kend s"
proof (induction pt a lim fr s arbitrary: s' rule: uvmunmap_loop.induct)
  case (1 pt a lim fr s)
  show ?case
  proof (cases "a < lim")
    case False
    with "1.prems" show ?thesis by (subst (asm) uvmunmap_loop.simps) simp
  next
    case True
    with "1.prems" obtain e s1 where w: "walk pt a False s = Ok (e, s1)"
      by (subst (asm) uvmunmap_loop.simps) (auto simp: res_simps)
    from "1.prems" True w obtain s2 where
      "(if fr then kfree (PTE2PA (load64 (pmem s1) e)) s1 else Ok s1) = Ok s2"
      "uvmunmap_loop pt (a + PGSIZE) lim fr (s2\<lparr>pmem := store64 (pmem s2) e 0\<rparr>) = Ok s'"
      "e \<noteq> 0" "\<not> load64 (pmem s1) e AND PTE_V = 0" "PTE_FLAGS (load64 (pmem s1) e) \<noteq> PTE_V"
      by (subst (asm) uvmunmap_loop.simps) (auto simp: res_simps split: if_splits)
    with "1.IH" [OF True w refl] walk_more [OF w] kfree_more show ?thesis
      by (fastforce split: if_splits)
  qed
qed

lemma uvmunmap_more [keeps]:
  "uvmunmap pt va n fr s = Ok s' \<Longrightarrow> mach.more s' = mach.more s \<and> kend s' = kend s"
  by (auto simp: uvmunmap_def split: if_splits dest: uvmunmap_loop_more)

lemma freewalk_entries_more:
  assumes "\<And>p s s'. rec p s = Some (Ok s') \<Longrightarrow> mach.more s' = mach.more s \<and> kend s' = kend s"
  shows "freewalk_entries rec pt is s = Some (Ok s') \<Longrightarrow> mach.more s' = mach.more s \<and> kend s' = kend s"
proof (induction "is" arbitrary: s)
  case Nil
  then show ?case by simp
next
  case (Cons i "is")
  from Cons.prems Cons.IH assms show ?case
    by (fastforce simp: Let_def split: if_splits option.splits res.splits)
qed

lemma freewalk_more [keeps]:
  "freewalk d pt s = Some (Ok s') \<Longrightarrow> mach.more s' = mach.more s \<and> kend s' = kend s"
proof (induction d arbitrary: pt s s')
  case 0
  then show ?case by simp
next
  case (Suc d)
  from Suc.prems obtain s1 where "freewalk_entries (freewalk d) pt [0..<512] s = Some (Ok s1)" "kfree pt s1 = Ok s'"
    by (auto simp: res_simps)
  with freewalk_entries_more [of "freewalk d"] Suc.IH kfree_more show ?case by metis
qed

lemma uvmfree3_more [keeps]:
  "uvmfree3 pt n s = Ok s' \<Longrightarrow> mach.more s' = mach.more s \<and> kend s' = kend s"
  by (auto simp: uvmfree3_def uvmfree_def split: option.splits res.splits if_splits
      dest!: freewalk_more uvmunmap_more)

lemma uvmcreate_more [keeps]: "uvmcreate s = (p, s') \<Longrightarrow> mach.more s' = mach.more s \<and> kend s' = kend s"
  by (auto simp: uvmcreate_def Let_def split: prod.splits if_splits dest: kalloc_more)

lemma uvmdealloc_more [keeps]:
  "uvmdealloc pt a b s = Ok (r, s') \<Longrightarrow> mach.more s' = mach.more s \<and> kend s' = kend s"
  by (auto simp: uvmdealloc_def Let_def res_simps split: if_splits dest: uvmunmap_more)

lemma uvmalloc_loop_more [keeps]:
  "uvmalloc_loop pt a b n s = Ok (r, s') \<Longrightarrow> mach.more s' = mach.more s \<and> kend s' = kend s"
proof (induction pt a b n s arbitrary: s' rule: uvmalloc_loop.induct)
  case (1 pt a b n s)
  obtain q s1 where k: "kalloc s = (q, s1)" by fastforce
  consider "\<not> a < n" | "a < n" "q = 0" | "a < n" "q \<noteq> 0" by blast
  then show ?case
  proof cases
    case 1
    with "1.prems" show ?thesis by (subst (asm) uvmalloc_loop.simps) simp
  next
    case 2
    with "1.prems" k kalloc_more [OF k] show ?thesis
      by (subst (asm) uvmalloc_loop.simps) (auto simp: res_simps dest!: uvmdealloc_more)
  next
    case 3
    let ?s = "s1\<lparr>pmem := memset q 0 4096 (pmem s1)\<rparr>"
    from "1.prems" k 3 obtain ret s2 where m: "mappages pt a PGSIZE q UPERM ?s = Ok (ret, s2)"
      by (subst (asm) uvmalloc_loop.simps) (auto simp: res_simps)
    note km = kalloc_more [OF k] mappages_more [OF m]
    show ?thesis
    proof (cases "ret = 0")
      case True
      with "1.prems" k 3 m have "uvmalloc_loop pt (a + PGSIZE) b n s2 = Ok (r, s')"
        by (subst (asm) uvmalloc_loop.simps) simp
      with "1.IH" [OF 3(1) k [symmetric] refl 3(2) refl m refl] True km show ?thesis by simp
    next
      case False
      with "1.prems" k 3 m km show ?thesis
        by (subst (asm) uvmalloc_loop.simps) (auto simp: res_simps dest!: uvmdealloc_more kfree_more)
    qed
  qed
qed

lemma uvmalloc_more [keeps]:
  "uvmalloc pt a b s = Ok (r, s') \<Longrightarrow> mach.more s' = mach.more s \<and> kend s' = kend s"
  by (auto simp: uvmalloc_def Let_def split: if_splits dest: uvmalloc_loop_more)

lemma uvmcopy_loop_more [keeps]:
  "uvmcopy_loop old new i n s = Ok (r, s') \<Longrightarrow> mach.more s' = mach.more s \<and> kend s' = kend s"
proof (induction old new i n s arbitrary: s' rule: uvmcopy_loop.induct)
  case (1 old new i n s)
  show ?case
  proof (cases "i < n")
    case False
    with "1.prems" show ?thesis by (subst (asm) uvmcopy_loop.simps) simp
  next
    case True
    with "1.prems" obtain e s1 where w: "walk old i False s = Ok (e, s1)"
      and g: "e \<noteq> 0" "\<not> load64 (pmem s1) e AND PTE_V = 0"
      by (subst (asm) uvmcopy_loop.simps) (auto simp: res_simps split: if_splits)
    obtain q s2 where k: "kalloc s1 = (q, s2)" by fastforce
    note wk = walk_more [OF w] kalloc_more [OF k]
    show ?thesis
    proof (cases "q = 0")
      case True
      with "1.prems" \<open>i < n\<close> w g k wk show ?thesis
        by (subst (asm) uvmcopy_loop.simps) (auto simp: res_simps dest!: uvmunmap_more)
    next
      case False
      let ?s = "s2\<lparr>pmem := memmove q (PTE2PA (load64 (pmem s1) e)) 4096 (pmem s2)\<rparr>"
      let ?fl = "PTE_FLAGS (load64 (pmem s1) e)"
      from "1.prems" True w g k False obtain ret s3 where m: "mappages new i PGSIZE q ?fl ?s = Ok (ret, s3)"
        by (subst (asm) uvmcopy_loop.simps) (auto simp: res_simps)
      note km = mappages_more [OF m]
      show ?thesis
      proof (cases "ret = 0")
        case ret: True
        with "1.prems" True w g k False m have "uvmcopy_loop old new (i + PGSIZE) n s3 = Ok (r, s')"
          by (subst (asm) uvmcopy_loop.simps) simp
        with "1.IH" [OF True w refl g refl refl k [symmetric] refl False refl m refl] ret wk km show ?thesis by simp
      next
        case ret: False
        with "1.prems" True w g k False m wk km show ?thesis
          by (subst (asm) uvmcopy_loop.simps) (auto simp: res_simps dest!: uvmunmap_more kfree_more)
      qed
    qed
  qed
qed

lemma copyout_more [keeps]:
  "copyout pt a src s = (r, s') \<Longrightarrow> mach.more s' = mach.more s \<and> kend s' = kend s"
proof (induction pt a src s rule: copyout.induct)
  case (1 pt a src s)
  show ?case
  proof (cases "0 < length src \<and> walkaddr pt (PGROUNDDOWN a) s \<noteq> 0")
    case True
    with "1.prems" "1.IH" [OF _ refl refl _ refl refl] show ?thesis
      by (subst (asm) copyout.simps) (auto simp: Let_def)
  next
    case False
    with "1.prems" show ?thesis by (subst (asm) copyout.simps) (auto split: if_splits)
  qed
qed

lemma proc_freepagetable_more [keeps]:
  "proc_freepagetable pt n s = Ok s' \<Longrightarrow> mach.more s' = mach.more s \<and> kend s' = kend s"
  by (auto simp: proc_freepagetable_def res_simps dest!: uvmunmap_more uvmfree3_more)

lemma proc_pagetable_more [keeps]:
  "proc_pagetable i s = Ok (pt, s') \<Longrightarrow> mach.more s' = mach.more s \<and> kend s' = kend s"
  by (auto simp: proc_pagetable_def res_simps Let_def split: prod.splits if_splits
      dest!: uvmcreate_more mappages_more uvmfree3_more uvmunmap_more)

text \<open>What the fields above memory are after such a routine.\<close>

lemma pstate_same:
  assumes "mach.more s' = mach.more (s :: 'a pstate_scheme)"
  shows "procs s' = procs s" "initproc s' = initproc s" "nextpid s' = nextpid s" "cpus s' = cpus s"
    "hart s' = hart s" "trampoline s' = trampoline s" "forkret_addr s' = forkret_addr s"
    "pstate.more s' = pstate.more s"
  using assms by (cases s; cases s'; simp)+

section \<open>Functional behaviour of slots\<close>

definition cleared :: "proc \<Rightarrow> proc" where
  "cleared p = p\<lparr>p_trapframe := 0, p_pagetable := 0, p_sz := 0, p_pid := 0, p_parent := None,
    p_name := (p_name p)[0 := 0], p_chan := None, p_killed := False, p_xstate := 0, p_state := UNUSED\<rparr>"

lemma freeproc_procs:
  assumes "freeproc i s = Ok s'"
  shows "procs s' = (procs s)[i := cleared (procs s ! i)]" "cpus s' = cpus s" "nextpid s' = nextpid s"
    "initproc s' = initproc s" "hart s' = hart s" "pstate.more s' = pstate.more s"
proof -
  let ?p = "procs s ! i"
  from assms obtain s1 s2 where
    1: "(if p_trapframe ?p \<noteq> 0 then kfree (p_trapframe ?p) s else Ok s) = Ok s1" and
    2: "(if p_pagetable ?p \<noteq> 0 then proc_freepagetable (p_pagetable ?p) (p_sz ?p) s1 else Ok s1) = Ok s2" and
    3: "s' = set_proc i cleared s2"
    by (auto simp: freeproc_def Let_def res_simps cleared_def [abs_def])
  have "mach.more s1 = mach.more s" using 1 kfree_more by (auto split: if_splits)
  moreover have "mach.more s2 = mach.more s1" using 2 proc_freepagetable_more by (auto split: if_splits)
  ultimately have "mach.more s2 = mach.more s" by simp
  note same = pstate_same [OF this]
  show "procs s' = (procs s)[i := cleared ?p]" "cpus s' = cpus s" "nextpid s' = nextpid s"
    "initproc s' = initproc s" "hart s' = hart s" "pstate.more s' = pstate.more s"
    using 3 same by (simp_all add: set_proc_def)
qed

lemma find_proc_Some:
  "find_proc P ps k = Some i \<Longrightarrow> k \<le> i \<and> i < k + length ps \<and> P (ps ! (i - k)) \<and> (\<forall>j < i - k. \<not> P (ps ! j))"
proof (induction ps arbitrary: k)
  case Nil
  then show ?case by simp
next
  case (Cons p ps)
  show ?case
  proof (cases "P p")
    case True
    with Cons.prems show ?thesis by simp
  next
    case False
    with Cons.prems have "find_proc P ps (Suc k) = Some i" by simp
    from Cons.IH [OF this] have IH: "Suc k \<le> i \<and> i < Suc k + length ps \<and> P (ps ! (i - Suc k)) \<and>
        (\<forall>j < i - Suc k. \<not> P (ps ! j))" .
    then obtain d where d: "i - k = Suc d" "i - Suc k = d" by (metis Suc_diff_le diff_Suc_Suc)
    have "\<not> P ((p # ps) ! j)" if "j < Suc d" for j
      using that IH False d(2) by (cases j) auto
    with IH d show ?thesis by auto
  qed
qed

lemma find_proc_None: "find_proc P ps k = None \<longleftrightarrow> (\<forall>p \<in> set ps. \<not> P p)"
  by (induction ps arbitrary: k) auto

lemma find_procD:
  assumes "find_proc P ps 0 = Some i"
  shows "i < length ps" "P (ps ! i)" "\<And>j. j < i \<Longrightarrow> \<not> P (ps ! j)"
  using find_proc_Some [OF assms] by auto

text \<open>
  The outcome of \<^verbatim>\<open>allocproc\<close>: the first unused slot, with a new pid, or none; the other
  slots are untouched.
\<close>

definition alloc_slot :: "'a pstate_scheme \<Rightarrow> nat option \<Rightarrow> 'a pstate_scheme \<Rightarrow> nat \<Rightarrow> proc \<Rightarrow> bool" where
  "alloc_slot s r s' k p \<longleftrightarrow> k < length (procs s) \<and> p_state (procs s ! k) = UNUSED \<and>
    (\<forall>j < k. p_state (procs s ! j) \<noteq> UNUSED) \<and>
    procs s' = (procs s)[k := p] \<and> p_state p = UNUSED \<and> nextpid s' = nextpid s + 1 \<and>
    p_killed p = (p_killed (procs s ! k) \<and> p_pid p \<noteq> 0) \<and>
    (if r = None then p_pid p = nextpid s \<or> p_pid p = 0
     else r = Some k \<and> p_pid p = nextpid s \<and> p_parent p = p_parent (procs s ! k) \<and>
      p_pagetable p \<noteq> 0 \<and> p_trapframe p \<noteq> 0)"

definition above_same :: "'a pstate_scheme \<Rightarrow> 'a pstate_scheme \<Rightarrow> bool" where
  "above_same s s' \<longleftrightarrow> cpus s' = cpus s \<and> initproc s' = initproc s \<and> hart s' = hart s \<and>
    pstate.more s' = pstate.more s"

lemma allocproc_slot:
  assumes "allocproc s = Ok (r, s')" "nextpid s \<noteq> 0"
  shows "above_same s s' \<and> (r = None \<and> s' = s \<and> (\<forall>p \<in> set (procs s). p_state p \<noteq> UNUSED) \<or>
    (\<exists>k p. alloc_slot s r s' k p))"
proof (cases "find_proc (\<lambda>p. p_state p = UNUSED) (procs s) 0")
  case None
  with assms show ?thesis by (auto simp: allocproc_def above_same_def find_proc_None)
next
  case (Some k)
  note k = find_procD [OF Some]
  let ?s1 = "set_proc k (\<lambda>p. p\<lparr>p_pid := nextpid s\<rparr>) (s\<lparr>nextpid := nextpid s + 1\<rparr>)"
  obtain tf s2 where ka: "kalloc ?s1 = (tf, s2)" by fastforce
  note same2 = pstate_same [OF conjunct1 [OF kalloc_more [OF ka]]]
  let ?s3 = "set_proc k (\<lambda>p. p\<lparr>p_trapframe := tf\<rparr>) s2"
  show ?thesis
  proof (cases "tf = 0")
    case True
    with assms Some ka have "r = None" "s' = ?s3" by (auto simp: allocproc_def allocpid_def)
    then have "above_same s s'"
      "alloc_slot s r s' k ((procs s ! k)\<lparr>p_pid := nextpid s, p_trapframe := tf\<rparr>)"
      using same2 k assms(2) by (simp_all add: set_proc_def above_same_def alloc_slot_def)
    then show ?thesis by blast
  next
    case False
    with assms Some ka obtain pt s4 where pp: "proc_pagetable k ?s3 = Ok (pt, s4)"
      by (auto simp: allocproc_def allocpid_def res_simps Let_def)
    note same4 = pstate_same [OF conjunct1 [OF proc_pagetable_more [OF pp]]]
    let ?s5 = "set_proc k (\<lambda>p. p\<lparr>p_pagetable := pt\<rparr>) s4"
    let ?p = "(procs s ! k)\<lparr>p_pid := nextpid s, p_trapframe := tf, p_pagetable := pt\<rparr>"
    show ?thesis
    proof (cases "pt = 0")
      case True
      with assms Some ka False pp obtain s6 where fp: "freeproc k ?s5 = Ok s6" and rs: "r = None" "s' = s6"
        by (auto simp: allocproc_def allocpid_def res_simps Let_def)
      from freeproc_procs [OF fp] rs same2 same4 k
      have "above_same s s'" "alloc_slot s r s' k (cleared ?p)"
        by (simp_all add: set_proc_def cleared_def above_same_def alloc_slot_def)
      then show ?thesis by blast
    next
      case pt: False
      with assms Some ka False pp have "r = Some k"
        "s' = set_proc k (\<lambda>p. p\<lparr>p_context := forkret_addr ?s5 # (p_kstack p + PGSIZE) # replicate 12 0\<rparr>) ?s5"
        by (auto simp: allocproc_def allocpid_def res_simps Let_def)
      then have "above_same s s'"
        "alloc_slot s r s' k (?p\<lparr>p_context := forkret_addr ?s5 # (p_kstack ?p + PGSIZE) # replicate 12 0\<rparr>)"
        using same2 same4 k False pt assms(2) by (simp_all add: set_proc_def above_same_def alloc_slot_def)
      then show ?thesis by blast
    qed
  qed
qed

end
