(* ===== verification/Sched.thy ===== *)
theory Sched
  imports Proc
begin

text \<open>
  The life of processes: an abstract state machine over the states of the process slots and the
  CPUs, the invariant that the scheduler keeps, and the proof that the routines of \<open>Proc\<close> make
  only steps of that machine.
\<close>

section \<open>The abstract machine\<close>

type_synonym astate = "procstate list \<times> nat option list"

text \<open>
  A free CPU takes a runnable process; the process on a CPU leaves it as runnable, sleeping or
  zombie; sleepers are woken; an unused slot becomes a runnable process; a zombie is reaped.
\<close>

inductive sstep :: "astate \<Rightarrow> astate \<Rightarrow> bool" where
  dispatch: "h < length cs \<Longrightarrow> cs ! h = None \<Longrightarrow> i < length ps \<Longrightarrow> ps ! i = RUNNABLE \<Longrightarrow>
    sstep (ps, cs) (ps[i := RUNNING], cs[h := Some i])"
| leave: "h < length cs \<Longrightarrow> cs ! h = Some i \<Longrightarrow> st \<in> {RUNNABLE, SLEEPING, ZOMBIE} \<Longrightarrow>
    sstep (ps, cs) (ps[i := st], cs[h := None])"
| wake: "i < length ps \<Longrightarrow> ps ! i = SLEEPING \<Longrightarrow> sstep (ps, cs) (ps[i := RUNNABLE], cs)"
| create: "i < length ps \<Longrightarrow> ps ! i = UNUSED \<Longrightarrow> sstep (ps, cs) (ps[i := RUNNABLE], cs)"
| reap: "i < length ps \<Longrightarrow> ps ! i = ZOMBIE \<Longrightarrow> sstep (ps, cs) (ps[i := UNUSED], cs)"

inductive_cases sstepE: "sstep (ps, cs) (ps', cs')"

abbreviation ssteps :: "astate \<Rightarrow> astate \<Rightarrow> bool" where
  "ssteps \<equiv> sstep\<^sup>*\<^sup>*"

fun on_one_cpu :: "astate \<Rightarrow> bool" where
  "on_one_cpu (ps, cs) \<longleftrightarrow>
    (\<forall>h < length cs. \<forall>i. cs ! h = Some i \<longrightarrow> i < length ps \<and> ps ! i = RUNNING) \<and>
    (\<forall>h < length cs. \<forall>h' < length cs. \<forall>i. cs ! h = Some i \<longrightarrow> cs ! h' = Some i \<longrightarrow> h = h') \<and>
    (\<forall>i < length ps. ps ! i = RUNNING \<longrightarrow> (\<exists>h < length cs. cs ! h = Some i))"

lemma on_one_cpuD:
  assumes "on_one_cpu (ps, cs)"
  shows "h < length cs \<Longrightarrow> cs ! h = Some i \<Longrightarrow> i < length ps \<and> ps ! i = RUNNING"
    and "h < length cs \<Longrightarrow> h' < length cs \<Longrightarrow> cs ! h = Some i \<Longrightarrow> cs ! h' = Some i \<Longrightarrow> h = h'"
    and "i < length ps \<Longrightarrow> ps ! i = RUNNING \<Longrightarrow> \<exists>h < length cs. cs ! h = Some i"
  using assms by auto

lemma on_one_cpuI:
  assumes "\<And>h i. h < length cs \<Longrightarrow> cs ! h = Some i \<Longrightarrow> i < length ps \<and> ps ! i = RUNNING"
    and "\<And>h h' i. h < length cs \<Longrightarrow> h' < length cs \<Longrightarrow> cs ! h = Some i \<Longrightarrow> cs ! h' = Some i \<Longrightarrow> h = h'"
    and "\<And>i. i < length ps \<Longrightarrow> ps ! i = RUNNING \<Longrightarrow> \<exists>h < length cs. cs ! h = Some i"
  shows "on_one_cpu (ps, cs)"
  using assms by simp

declare on_one_cpu.simps [simp del]

lemma on_one_cpu_other:
  assumes "on_one_cpu (ps, cs)" "i < length ps" "ps ! i \<noteq> RUNNING" "st \<noteq> RUNNING"
  shows "on_one_cpu (ps[i := st], cs)"
proof (rule on_one_cpuI)
  note d = on_one_cpuD [OF assms(1)]
  show "j < length (ps[i := st]) \<and> ps[i := st] ! j = RUNNING" if "h < length cs" "cs ! h = Some j" for h j
    using d(1) [OF that] assms(3) by (cases "j = i") auto
  show "h = h'" if "h < length cs" "h' < length cs" "cs ! h = Some j" "cs ! h' = Some j" for h h' j
    using d(2) that by blast
  show "\<exists>h < length cs. cs ! h = Some j" if "j < length (ps[i := st])" "ps[i := st] ! j = RUNNING" for j
    using d(3) [of j] that assms(2,4) by (cases "j = i") auto
qed

lemma on_one_cpu_dispatch:
  assumes "on_one_cpu (ps, cs)" "h < length cs" "cs ! h = None" "i < length ps" "ps ! i = RUNNABLE"
  shows "on_one_cpu (ps[i := RUNNING], cs[h := Some i])"
proof (rule on_one_cpuI)
  note d = on_one_cpuD [OF assms(1)]
  have free: "cs ! k \<noteq> Some i" if "k < length cs" for k using d(1) [OF that, of i] assms(5) by auto
  show "j < length (ps[i := RUNNING]) \<and> ps[i := RUNNING] ! j = RUNNING"
    if "k < length (cs[h := Some i])" "cs[h := Some i] ! k = Some j" for k j
    using that d(1) [of k j] assms(4) by (cases "k = h"; cases "j = i") auto
  show "k = k'" if "k < length (cs[h := Some i])" "k' < length (cs[h := Some i])"
    "cs[h := Some i] ! k = Some j" "cs[h := Some i] ! k' = Some j" for k k' j
    using that d(2) [of k k' j] free by (cases "k = h"; cases "k' = h") auto
  show "\<exists>k < length (cs[h := Some i]). cs[h := Some i] ! k = Some j"
    if "j < length (ps[i := RUNNING])" "ps[i := RUNNING] ! j = RUNNING" for j
  proof (cases "j = i")
    case True
    with assms(2) show ?thesis by (intro exI [of _ h]) simp
  next
    case False
    with that d(3) [of j] obtain k where "k < length cs" "cs ! k = Some j" by auto
    moreover from this assms(3) have "k \<noteq> h" by auto
    ultimately show ?thesis by (intro exI [of _ k]) simp
  qed
qed

lemma on_one_cpu_leave:
  assumes "on_one_cpu (ps, cs)" "h < length cs" "cs ! h = Some i" "st \<noteq> RUNNING"
  shows "on_one_cpu (ps[i := st], cs[h := None])"
proof (rule on_one_cpuI)
  note d = on_one_cpuD [OF assms(1)]
  show "j < length (ps[i := st]) \<and> ps[i := st] ! j = RUNNING"
    if "k < length (cs[h := None])" "cs[h := None] ! k = Some j" for k j
    using that d(1) [of k j] d(2) [of h k i] assms(2,3) by (cases "k = h"; cases "j = i") auto
  show "k = k'" if "k < length (cs[h := None])" "k' < length (cs[h := None])"
    "cs[h := None] ! k = Some j" "cs[h := None] ! k' = Some j" for k k' j
    using that d(2) [of k k' j] by (cases "k = h"; cases "k' = h") auto
  show "\<exists>k < length (cs[h := None]). cs[h := None] ! k = Some j"
    if "j < length (ps[i := st])" "ps[i := st] ! j = RUNNING" for j
  proof -
    have "j \<noteq> i" using that assms(4) by auto
    with that d(3) [of j] obtain k where "k < length cs" "cs ! k = Some j" by auto
    moreover from this \<open>j \<noteq> i\<close> assms(3) have "k \<noteq> h" by auto
    ultimately show ?thesis by (intro exI [of _ k]) simp
  qed
qed

lemma sstep_on_one_cpu:
  assumes "sstep a a'" "on_one_cpu a"
  shows "on_one_cpu a'"
  using assms
proof (induction rule: sstep.induct)
  case (dispatch h cs i ps)
  then show ?case by (intro on_one_cpu_dispatch)
next
  case (leave h cs i st ps)
  then show ?case by (intro on_one_cpu_leave) auto
qed (intro on_one_cpu_other; simp)+

lemma ssteps_on_one_cpu: "ssteps a a' \<Longrightarrow> on_one_cpu a \<Longrightarrow> on_one_cpu a'"
  by (induction rule: rtranclp_induct) (auto intro: sstep_on_one_cpu)

section \<open>The routines refine it\<close>

definition abs_sched :: "'a pstate_scheme \<Rightarrow> astate" where
  "abs_sched s = (map p_state (procs s), cpus s)"

text \<open>What the code relies on: the CPU exists, and the process it runs is in the table.\<close>

definition cpu_ok :: "'a pstate_scheme \<Rightarrow> bool" where
  "cpu_ok s \<longleftrightarrow> hart s < length (cpus s) \<and> on_one_cpu (abs_sched s)"

definition running :: "'a pstate_scheme \<Rightarrow> bool" where
  "running s \<longleftrightarrow> cpu_ok s \<and> myproc s \<noteq> None"

lemma runningD:
  assumes "running s"
  shows "hart s < length (cpus s)" "cpus s ! hart s = Some (cur s)" "cur s < length (procs s)"
    "p_state (procs s ! cur s) = RUNNING"
proof -
  show h: "hart s < length (cpus s)" "cpus s ! hart s = Some (cur s)"
    using assms by (auto simp: running_def cpu_ok_def myproc_def cur_def)
  have "on_one_cpu (map p_state (procs s), cpus s)"
    using assms by (simp add: running_def cpu_ok_def abs_sched_def)
  from on_one_cpuD(1) [OF this h] show "cur s < length (procs s)" "p_state (procs s ! cur s) = RUNNING" by auto
qed

lemma map_state_set_proc:
  "map p_state (procs (set_proc i f s)) = (map p_state (procs s))[i := p_state (f (procs s ! i))]"
  by (simp add: set_proc_def map_update)

lemma scheduler_slot_refines:
  assumes "cpu_ok s" "myproc s = None" "i < length (procs s)" "scheduler_slot i s = (b, s')"
  shows "ssteps (abs_sched s) (abs_sched s')"
proof (cases "p_state (procs s ! i) = RUNNABLE")
  case True
  let ?s = "s\<lparr>cpus := (cpus s)[hart s := Some i]\<rparr>"
  from True assms(4) have "s' = set_proc i (\<lambda>p. p\<lparr>p_state := RUNNING\<rparr>) ?s"
    by (simp add: scheduler_slot_def)
  then have "abs_sched s' = ((map p_state (procs s))[i := RUNNING], (cpus s)[hart s := Some i])"
    using map_state_set_proc [of i "\<lambda>p. p\<lparr>p_state := RUNNING\<rparr>" ?s] by (simp add: abs_sched_def) (simp add: set_proc_def)
  moreover have "sstep (abs_sched s) ((map p_state (procs s))[i := RUNNING], (cpus s)[hart s := Some i])"
    unfolding abs_sched_def using assms(1-3) True by (intro dispatch) (auto simp: cpu_ok_def myproc_def)
  ultimately show ?thesis by (metis r_into_rtranclp)
next
  case False
  with assms(4) show ?thesis by (simp add: scheduler_slot_def)
qed

lemma leave_refines:
  assumes "running s" "sched (set_proc (cur s) f s) = Ok s'" "\<And>p. p_state (f p) = st"
    "st \<in> {RUNNABLE, SLEEPING, ZOMBIE}"
  shows "ssteps (abs_sched s) (abs_sched s')"
proof -
  note r = runningD [OF assms(1)]
  have h: "hart (set_proc (cur s) f s) = hart s" "cpus (set_proc (cur s) f s) = cpus s" by (simp_all add: set_proc_def)
  have "s' = (set_proc (cur s) f s)\<lparr>cpus := (cpus s)[hart s := None]\<rparr>"
    using assms(2) by (simp add: sched_def h split: if_splits)
  then have "abs_sched s' = ((map p_state (procs s))[cur s := st], (cpus s)[hart s := None])"
    using map_state_set_proc [of "cur s" f s] assms(3) by (simp add: abs_sched_def)
  moreover have "sstep (abs_sched s) ((map p_state (procs s))[cur s := st], (cpus s)[hart s := None])"
    unfolding abs_sched_def by (rule leave [OF r(1,2) assms(4)])
  ultimately show ?thesis by (metis r_into_rtranclp)
qed

lemma yield_refines: "running s \<Longrightarrow> yield s = Ok s' \<Longrightarrow> ssteps (abs_sched s) (abs_sched s')"
  unfolding yield_def
  by (rule leave_refines [where st = RUNNABLE and f = "\<lambda>p. p\<lparr>p_state := RUNNABLE\<rparr>"]) simp_all

lemma sleep_refines: "running s \<Longrightarrow> sleep c s = Ok s' \<Longrightarrow> ssteps (abs_sched s) (abs_sched s')"
  unfolding sleep_def
  by (rule leave_refines [where st = SLEEPING and f = "\<lambda>p. p\<lparr>p_chan := Some c, p_state := SLEEPING\<rparr>"])
    simp_all

text \<open>Waking any set of sleepers.\<close>

lemma wake_many:
  assumes "length qs = length ps" "\<And>i. i < length ps \<Longrightarrow> qs ! i = ps ! i \<or> ps ! i = SLEEPING \<and> qs ! i = RUNNABLE"
  shows "ssteps (ps, cs) (qs, cs)"
proof -
  have "ssteps (ps, cs) (take n qs @ drop n ps, cs)" if "n \<le> length ps" for n
    using that
  proof (induction n)
    case 0
    then show ?case by simp
  next
    case (Suc n)
    then have n: "n < length ps" by simp
    let ?xs = "take n qs @ drop n ps"
    have up: "take (Suc n) qs @ drop (Suc n) ps = ?xs[n := qs ! n]"
      using n assms(1) by (simp add: take_Suc_conv_app_nth list_update_append Cons_nth_drop_Suc [symmetric])
    have nth: "?xs ! n = ps ! n" "n < length ?xs" using n assms(1) by (simp_all add: nth_append)
    have "ssteps (?xs, cs) (?xs[n := qs ! n], cs)"
    proof (cases "qs ! n = ps ! n")
      case True
      then have "?xs[n := qs ! n] = ?xs" using nth by (metis list_update_id)
      then show ?thesis by simp
    next
      case False
      with assms(2) [OF n] have "ps ! n = SLEEPING" "qs ! n = RUNNABLE" by auto
      with nth wake [of n ?xs cs] show ?thesis by (simp add: r_into_rtranclp)
    qed
    with Suc n up show ?case by (metis Suc_leD rtranclp_trans)
  qed
  from this [of "length ps"] assms(1) show ?thesis by simp
qed

lemma wakes_refine:
  assumes "cpus s' = cpus s" "length (procs s') = length (procs s)"
    and "\<And>i. i < length (procs s) \<Longrightarrow> p_state (procs s' ! i) = p_state (procs s ! i) \<or>
      p_state (procs s ! i) = SLEEPING \<and> p_state (procs s' ! i) = RUNNABLE"
  shows "ssteps (abs_sched s) (abs_sched s')"
  unfolding abs_sched_def assms(1) using assms(2,3) by (intro wake_many) auto

lemma wakeup_refines: "ssteps (abs_sched s) (abs_sched (wakeup c s))"
  by (rule wakes_refine) (auto simp: wakeup_def)

lemma nth_update: "xs[i := v] ! j = (if i = j \<and> i < length xs then v else xs ! j)"
  by (cases "i < length xs") (simp_all add: nth_list_update list_update_beyond)

lemma wakeup1_refines: "ssteps (abs_sched s) (abs_sched (wakeup1 i s))"
  by (rule wakes_refine) (auto simp: wakeup1_def set_proc_def nth_update)

lemma reparent_refines: "abs_sched (reparent i s) = abs_sched s"
  by (auto simp: abs_sched_def reparent_def)

lemma kill_refines: "kill pid s = (r, s') \<Longrightarrow> ssteps (abs_sched s) (abs_sched s')"
  by (rule wakes_refine) (auto simp: kill_def set_proc_def nth_update split: option.splits if_splits)

lemma wakeup1_same:
  "cpus (wakeup1 i s) = cpus s" "hart (wakeup1 i s) = hart s" "length (procs (wakeup1 i s)) = length (procs s)"
  "p_state (procs s ! j) = RUNNING \<Longrightarrow> p_state (procs (wakeup1 i s) ! j) = RUNNING"
  "initproc (wakeup1 i s) = initproc s"
  by (auto simp: wakeup1_def set_proc_def nth_update)

lemma exit_zombie_refines:
  assumes "running s" "exit_zombie status s = Ok s'"
  shows "ssteps (abs_sched s) (abs_sched s')"
proof -
  define s1 where "s1 = wakeup1 (initproc s) s"
  define s2 where "s2 = reparent (cur s) s1"
  define s3 where "s3 = wakeup1 (the (p_parent (procs s1 ! cur s))) s2"
  have "ssteps (abs_sched s) (abs_sched s1)" unfolding s1_def by (rule wakeup1_refines)
  also have "abs_sched s1 = abs_sched s2" unfolding s2_def by (rule reparent_refines [symmetric])
  also have "ssteps (abs_sched s2) (abs_sched s3)" unfolding s3_def by (rule wakeup1_refines)
  finally have 3: "ssteps (abs_sched s) (abs_sched s3)" .
  have cur: "cur s3 = cur s"
    by (simp add: s3_def s2_def s1_def cur_def myproc_def wakeup1_same reparent_def)
  have "running s3"
    using assms(1) ssteps_on_one_cpu [OF 3]
    by (simp add: running_def cpu_ok_def myproc_def s3_def s2_def s1_def wakeup1_same reparent_def)
  moreover have "sched (set_proc (cur s3) (\<lambda>p. p\<lparr>p_xstate := status, p_state := ZOMBIE\<rparr>) s3) = Ok s'"
    using assms(2) by (simp add: exit_zombie_def Let_def s1_def s2_def s3_def cur [unfolded s1_def s2_def s3_def])
  ultimately have "ssteps (abs_sched s3) (abs_sched s')"
    by (rule leave_refines [where st = ZOMBIE and f = "\<lambda>p. p\<lparr>p_xstate := status, p_state := ZOMBIE\<rparr>"]) simp_all
  with 3 show ?thesis by (rule rtranclp_trans)
qed

lemma freeproc_reaps:
  assumes "freeproc i s = Ok s'" "i < length (procs s)" "p_state (procs s ! i) = ZOMBIE"
  shows "ssteps (abs_sched s) (abs_sched s')"
proof -
  have "abs_sched s' = ((map p_state (procs s))[i := UNUSED], cpus s)"
    using freeproc_procs [OF assms(1)] by (simp add: abs_sched_def map_update cleared_def)
  moreover have "sstep (abs_sched s) ((map p_state (procs s))[i := UNUSED], cpus s)"
    unfolding abs_sched_def using assms(2,3) by (intro reap) auto
  ultimately show ?thesis by (metis r_into_rtranclp)
qed

lemma wait_refines:
  assumes "running s" "wait addr s = Ok (w, s')"
  shows "ssteps (abs_sched s) (abs_sched s')"
proof (cases "find_proc (\<lambda>p. p_parent p = Some (cur s) \<and> p_state p = ZOMBIE) (procs s) 0")
  case None
  with assms show ?thesis by (auto simp: wait_def Let_def res_simps split: if_splits intro: sleep_refines)
next
  case (Some j)
  note j = find_procD(1,2) [OF Some]
  define c where "c = (if addr \<noteq> 0 then copyout (p_pagetable (procs s ! cur s)) addr
      (le_bytes 4 (p_xstate (procs s ! j))) s else (0, s))"
  obtain r s1 where c1: "c = (r, s1)" by fastforce
  have "mach.more s1 = mach.more s" using c1 unfolding c_def by (auto split: if_splits dest!: copyout_more)
  note same = pstate_same [OF this]
  have abs: "abs_sched s1 = abs_sched s" by (simp add: abs_sched_def same)
  show ?thesis
  proof (cases "r < 0")
    case True
    with assms(2) Some c1 have "s' = s1" by (auto simp: wait_def Let_def c_def)
    with abs show ?thesis by simp
  next
    case False
    with assms(2) Some c1 have "freeproc j s1 = Ok s'" by (auto simp: wait_def Let_def c_def res_simps)
    from freeproc_reaps [OF this] j abs same show ?thesis by simp
  qed
qed

text \<open>A slot from \<^verbatim>\<open>allocproc\<close> that is made runnable (by \<^verbatim>\<open>fork\<close> and \<^verbatim>\<open>userinit\<close>).\<close>

lemma allocproc_refines:
  assumes "allocproc s = Ok (r, s')" "nextpid s \<noteq> 0"
  shows "abs_sched s' = abs_sched s"
    and "r = Some i \<Longrightarrow> i < length (procs s') \<and> p_state (procs s' ! i) = UNUSED"
proof -
  from allocproc_slot [OF assms] have c: "r = None \<and> s' = s \<or> (\<exists>k p. above_same s s' \<and> alloc_slot s r s' k p)"
    by blast
  then show "abs_sched s' = abs_sched s"
    by (auto simp: abs_sched_def alloc_slot_def above_same_def list_eq_iff_nth_eq nth_update)
  show "r = Some i \<Longrightarrow> i < length (procs s') \<and> p_state (procs s' ! i) = UNUSED"
    using c by (auto simp: alloc_slot_def split: if_splits)
qed

lemma create_refines:
  assumes "i < length (procs s)" "p_state (procs s ! i) = UNUSED" "\<And>p. p_state (f p) = RUNNABLE"
  shows "ssteps (abs_sched s) (abs_sched (set_proc i f s))"
proof -
  have "abs_sched (set_proc i f s) = ((map p_state (procs s))[i := RUNNABLE], cpus s)"
    using map_state_set_proc [of i f s] assms(3) by (simp add: abs_sched_def) (simp add: set_proc_def)
  moreover have "sstep (abs_sched s) ((map p_state (procs s))[i := RUNNABLE], cpus s)"
    unfolding abs_sched_def using assms(1,2) by (intro create) auto
  ultimately show ?thesis by (metis r_into_rtranclp)
qed

section \<open>Process ids\<close>

text \<open>
  Live pids are distinct and below \<^verbatim>\<open>nextpid\<close>, as long as the 32-bit counter has not wrapped.
\<close>

definition pids_ok :: "uint list \<Rightarrow> uint \<Rightarrow> bool" where
  "pids_ok pids next \<longleftrightarrow> 0 < next \<and> (\<forall>i < length pids. pids ! i < next) \<and>
    (\<forall>i < length pids. \<forall>j < length pids. pids ! i \<noteq> 0 \<longrightarrow> pids ! i = pids ! j \<longrightarrow> i = j)"

abbreviation pids_of :: "'a pstate_scheme \<Rightarrow> uint list" where
  "pids_of s \<equiv> map p_pid (procs s)"

lemma pids_ok_new:
  assumes "pids_ok pids next" "next + 1 \<noteq> 0"
  shows "pids_ok (pids[k := next]) (next + 1)"
proof -
  have lt: "x < next + 1" if "x \<le> next" for x
  proof -
    have "next \<noteq> -1" using assms(2) by auto
    then have "unat next \<noteq> unat (-1 :: uint)" by (metis word_unat_eq_iff)
    then have "unat next < 4294967295"
      using unat32_bound [of "next"] by (simp add: unsigned_minus_1_eq_mask mask_eq_exp_minus_1)
    then have "unat (next + 1) = unat next + 1" by (simp add: unat_word_ariths)
    with that show ?thesis by (simp add: word_less_nat_alt word_le_nat_alt)
  qed
  have "pids[k := next] ! i < next + 1" if "i < length pids" for i
    using that assms(1) lt [of "pids[k := next] ! i"] by (auto simp: nth_update pids_ok_def)
  moreover have "i = j" if "i < length pids" "j < length pids" "pids[k := next] ! i \<noteq> 0"
    "pids[k := next] ! i = pids[k := next] ! j" for i j
    using that assms(1) by (auto simp: nth_update pids_ok_def split: if_splits)
  moreover have "0 < next + 1" using lt [of 0] by simp
  ultimately show ?thesis by (simp add: pids_ok_def)
qed

lemma pids_ok_clear: "pids_ok pids next \<Longrightarrow> pids_ok (pids[k := 0]) next"
  by (auto simp: pids_ok_def nth_update)

lemma allocproc_pids:
  assumes "allocproc s = Ok (r, s')" "pids_ok (pids_of s) (nextpid s)" "nextpid s + 1 \<noteq> 0"
  shows "pids_ok (pids_of s') (nextpid s')"
    and "r = Some i \<Longrightarrow> p_pid (procs s' ! i) = nextpid s \<and> (\<forall>p \<in> set (procs s). p_pid p \<noteq> nextpid s)"
proof -
  have n0: "nextpid s \<noteq> 0" using assms(2) by (auto simp: pids_ok_def)
  from allocproc_slot [OF assms(1) n0] have c: "r = None \<and> s' = s \<or> (\<exists>k p. alloc_slot s r s' k p)" by blast
  then show "pids_ok (pids_of s') (nextpid s')"
  proof (elim disjE exE conjE)
    fix k p assume a: "alloc_slot s r s' k p"
    then have "pids_of s' = (pids_of s)[k := p_pid p]" "nextpid s' = nextpid s + 1"
      "p_pid p = nextpid s \<or> p_pid p = 0" by (auto simp: alloc_slot_def map_update split: if_splits)
    moreover have "(pids_of s)[k := 0] = (pids_of s)[k := nextpid s, k := 0]" by simp
    ultimately show ?thesis
      using pids_ok_new [OF assms(2,3), of k] pids_ok_clear by metis
  qed (use assms(2) in simp)
  have "p_pid p \<noteq> nextpid s" if "p \<in> set (procs s)" for p
    using assms(2) that unfolding pids_ok_def by (metis in_set_conv_nth length_map less_irrefl nth_map)
  then show "r = Some i \<Longrightarrow> p_pid (procs s' ! i) = nextpid s \<and> (\<forall>p \<in> set (procs s). p_pid p \<noteq> nextpid s)"
    using c by (auto simp: alloc_slot_def split: if_splits)
qed

lemma freeproc_pids:
  "freeproc i s = Ok s' \<Longrightarrow> pids_ok (pids_of s) (nextpid s) \<Longrightarrow> pids_ok (pids_of s') (nextpid s')"
  by (auto simp: freeproc_procs map_update cleared_def intro: pids_ok_clear)

section \<open>Killing pid 0\<close>

text \<open>
  Unused slots have pid 0, and \<^verbatim>\<open>kill\<close> does not look at the state of the slot it finds.  A
  machine whose only process is the first one, for the concrete instance.
\<close>

definition fresh_proc :: proc where
  "fresh_proc = \<lparr>p_state = UNUSED, p_parent = None, p_chan = None, p_killed = False, p_xstate = 0, p_pid = 0,
    p_kstack = 0, p_sz = 0, p_pagetable = 0, p_trapframe = 0, p_context = replicate 14 0,
    p_ofile = replicate NOFILE None, p_cwd = None, p_name = replicate 16 0\<rparr>"

lemma kill_hits_first:
  assumes "i < length (procs s)" "p_pid (procs s ! i) = pid" "\<And>j. j < i \<Longrightarrow> p_pid (procs s ! j) \<noteq> pid"
  shows "find_proc (\<lambda>p. p_pid p = pid) (procs s) 0 = Some i"
proof (cases "find_proc (\<lambda>p. p_pid p = pid) (procs s) 0")
  case None
  with assms(1,2) show ?thesis by (auto simp: find_proc_None)
next
  case (Some k)
  from find_procD [OF Some] assms have "k = i" by (metis linorder_neqE_nat)
  with Some show ?thesis by simp
qed

text \<open>
  Claim C22. \<^verbatim>\<open>kill(0)\<close> does not fail: it marks the first slot whose pid is 0. If that is an
  unused slot, a process later allocated there starts out killed.
\<close>

theorem kill_zero_marks_unused_slot:
  assumes "i < length (procs s)" "p_state (procs s ! i) = UNUSED" "p_pid (procs s ! i) = 0"
    and "\<forall>j < i. p_pid (procs s ! j) \<noteq> 0 \<and> p_state (procs s ! j) \<noteq> UNUSED" "nextpid s \<noteq> 0"
  shows "\<exists>s'. kill 0 s = (0, s') \<and> p_killed (procs s' ! i) \<and> p_state (procs s' ! i) = UNUSED \<and>
    (\<forall>r s''. allocproc s' = Ok (Some r, s'') \<longrightarrow> r = i \<and> p_killed (procs s'' ! i))"
proof -
  have "find_proc (\<lambda>p. p_pid p = 0) (procs s) 0 = Some i"
    using assms by (intro kill_hits_first) auto
  then obtain s' where k: "kill 0 s = (0, s')"
    "procs s' = (procs s)[i := (procs s ! i)\<lparr>p_killed := True, p_state := UNUSED\<rparr>]" "nextpid s' = nextpid s"
    using assms(1,2) by (auto simp: kill_def set_proc_def)
  have "r = i \<and> p_killed (procs s'' ! i)" if a: "allocproc s' = Ok (Some r, s'')" for r s''
  proof -
    from allocproc_slot [OF a] k(3) assms(5) obtain p where p: "alloc_slot s' (Some r) s'' r p"
      by (auto simp: alloc_slot_def)
    have "p_state (procs s' ! i) = UNUSED" "\<forall>j < i. p_state (procs s' ! j) \<noteq> UNUSED"
      using assms(1,2,4) k(2) by auto
    moreover from p have "p_state (procs s' ! r) = UNUSED" "\<forall>j < r. p_state (procs s' ! j) \<noteq> UNUSED"
      by (simp_all add: alloc_slot_def)
    ultimately have "r = i" by (metis linorder_neqE_nat)
    with p k(2) assms(1,5) k(3) show ?thesis by (auto simp: alloc_slot_def)
  qed
  with k assms(1,2) show ?thesis by auto
qed

definition one_proc :: pstate where
  "one_proc = \<lparr>pmem = (\<lambda>_. 0), freelist = 0, kend = 0x80001000,
    procs = fresh_proc\<lparr>p_state := RUNNING, p_pid := 1\<rparr> # replicate 63 fresh_proc, initproc = 0, nextpid = 2,
    cpus = Some 0 # replicate 7 None, hart = 0, trampoline = 0x80000000, forkret_addr = 0x80000100\<rparr>"

theorem kill_zero_marks_unused_slot_witness:
  "\<exists>s'. kill 0 one_proc = (0, s') \<and> p_killed (procs s' ! 1) \<and> p_state (procs s' ! 1) = UNUSED"
  using kill_zero_marks_unused_slot [of 1 one_proc] by (auto simp: one_proc_def fresh_proc_def)

end
