(* ===== verification/Sleeplock.thy ===== *)
theory Sleeplock
  imports Sched
begin

text \<open>
  Sleep locks, \<^verbatim>\<open>kernel/sleeplock.c\<close>.

  A lock is a value; the routine that owns it stores the result back.  \<^verbatim>\<open>acquiresleep\<close>
  on a held lock calls \<^verbatim>\<open>sleep\<close> on the lock's channel: the result is \<open>Block\<close>, and the
  caller tries again when it runs next.  The step relation \<open>slstep\<close> lets any number of
  processes on any CPUs do this, with arbitrary scheduling in between.
\<close>

record sleeplock =
  sl_locked :: bool
  sl_pid :: uint

definition initsleeplock :: sleeplock where
  "initsleeplock = \<lparr>sl_locked = False, sl_pid = 0\<rparr>"

definition acquiresleep :: "chan \<Rightarrow> sleeplock \<Rightarrow> 'a pstate_scheme \<Rightarrow> sleeplock res" where
  "acquiresleep c lk s =
    (if sl_locked lk then Block c
     else Ok (lk\<lparr>sl_locked := True, sl_pid := p_pid (curproc s)\<rparr>))"

definition releasesleep :: "chan \<Rightarrow> sleeplock \<Rightarrow> 'a pstate_scheme \<Rightarrow> sleeplock \<times> 'a pstate_scheme" where
  "releasesleep c lk s = (lk\<lparr>sl_locked := False, sl_pid := 0\<rparr>, wakeup c s)"

definition holdingsleep :: "sleeplock \<Rightarrow> 'a pstate_scheme \<Rightarrow> bool" where
  "holdingsleep lk s = (sl_locked lk \<and> sl_pid lk = p_pid (curproc s))"

lemma releasesleep_free: "releasesleep c lk s = (initsleeplock, wakeup c s)"
  by (simp add: releasesleep_def initsleeplock_def)

text \<open>No process waits on a channel; then \<^verbatim>\<open>wakeup\<close> has nothing to do.\<close>

definition no_sleeper :: "chan \<Rightarrow> 'a pstate_scheme \<Rightarrow> bool" where
  "no_sleeper c s = list_all (\<lambda>p. \<not> (p_state p = SLEEPING \<and> p_chan p = Some c)) (procs s)"

lemma wakeup_no_sleeper [simp]: "no_sleeper c s \<Longrightarrow> wakeup c s = s"
  unfolding no_sleeper_def wakeup_def by (induction "procs s") (auto intro!: pstate.equality map_idI simp: list_all_iff)

lemma no_sleeper_wakeup [simp]: "no_sleeper c (wakeup c s)"
  by (auto simp: no_sleeper_def wakeup_def list_all_iff)

section \<open>Any number of contenders\<close>

text \<open>
  Steps of the whole system around one lock with channel \<open>c\<close>: the running process of some CPU
  takes the lock or goes to sleep on it, the holder releases it, and everything else the kernel
  does to the process table, which is any change that puts no process to sleep on \<open>c\<close>.
\<close>

inductive slstep :: "chan \<Rightarrow> sleeplock \<times> 'a pstate_scheme \<Rightarrow> sleeplock \<times> 'a pstate_scheme \<Rightarrow> bool" for c where
  acquire: "acquiresleep c lk s = Ok lk' \<Longrightarrow> slstep c (lk, s) (lk', s)"
| block: "acquiresleep c lk s = Block c' \<Longrightarrow> sleep c' s = Ok s' \<Longrightarrow> slstep c (lk, s) (lk, s')"
| release: "holdingsleep lk s \<Longrightarrow> slstep c (lk, s) (releasesleep c lk s)"
| wake: "slstep c (lk, s) (lk, wakeup d s)"
| kill: "kill pid s = (r, s') \<Longrightarrow> slstep c (lk, s) (lk, s')"
| yield: "yield s = Ok s' \<Longrightarrow> slstep c (lk, s) (lk, s')"
| schedule: "scheduler_slot i s = (b, s') \<Longrightarrow> slstep c (lk, s) (lk, s')"
| other_sleep: "d \<noteq> c \<Longrightarrow> sleep d s = Ok s' \<Longrightarrow> slstep c (lk, s) (lk, s')"
| return: "slstep c (lk, s) (lk, sleep_return s)"
| hart: "slstep c (lk, s) (lk, s\<lparr>hart := h\<rparr>)"

definition sl_inv :: "chan \<Rightarrow> sleeplock \<times> 'a pstate_scheme \<Rightarrow> bool" where
  "sl_inv c x = (sl_locked (fst x) \<or> no_sleeper c (snd x))"

lemma list_all_update: "list_all P xs \<Longrightarrow> P x \<Longrightarrow> list_all P (xs[i := x])"
  by (auto simp: list_all_iff dest!: set_update_subset_insert [THEN subsetD])

lemma no_sleeper_wakeup_other: "no_sleeper c s \<Longrightarrow> no_sleeper c (wakeup d s)"
  by (auto simp: no_sleeper_def wakeup_def list_all_iff)

lemma no_sleeper_set_proc:
  "no_sleeper c s \<Longrightarrow> (\<And>p. p = procs s ! i \<Longrightarrow> i < length (procs s) \<Longrightarrow> p_state (f p) \<noteq> SLEEPING \<or> p_chan (f p) \<noteq> Some c) \<Longrightarrow>
    no_sleeper c (set_proc i f s)"
  unfolding no_sleeper_def set_proc_def
  by (cases "i < length (procs s)") (auto intro!: list_all_update simp: list_update_beyond)

lemma no_sleeper_cpus [simp]: "no_sleeper c (s\<lparr>cpus := cs\<rparr>) = no_sleeper c s"
  by (simp add: no_sleeper_def)

lemma no_sleeper_hart [simp]: "no_sleeper c (s\<lparr>hart := h\<rparr>) = no_sleeper c s"
  by (simp add: no_sleeper_def)

lemma no_sleeper_nth: "no_sleeper c s \<Longrightarrow> i < length (procs s) \<Longrightarrow> p_state (procs s ! i) \<noteq> SLEEPING \<or> p_chan (procs s ! i) \<noteq> Some c"
  by (auto simp: no_sleeper_def list_all_length)

lemma sched_no_sleeper: "sched s = Ok s' \<Longrightarrow> no_sleeper c s \<Longrightarrow> no_sleeper c s'"
  by (auto simp: sched_def split: if_splits)

lemma slstep_inv:
  assumes "slstep c x y" "sl_inv c x"
  shows "sl_inv c y"
  using assms
proof (cases rule: slstep.cases)
  case (kill pid s r s' lk)
  with assms(2) show ?thesis
    by (auto simp: sl_inv_def kill_def split: option.splits intro!: no_sleeper_set_proc dest: no_sleeper_nth)
next
  case (yield s s' lk)
  with assms(2) show ?thesis
    by (auto simp: sl_inv_def yield_def intro!: sched_no_sleeper [of _ s'] no_sleeper_set_proc)
next
  case (schedule i s b s' lk)
  with assms(2) show ?thesis
    by (auto simp: sl_inv_def scheduler_slot_def split: if_splits intro!: no_sleeper_set_proc)
next
  case (other_sleep d s s' lk)
  with assms(2) show ?thesis
    by (auto simp: sl_inv_def sleep_def intro!: sched_no_sleeper [of _ s'] no_sleeper_set_proc)
next
  case (return lk s)
  with assms(2) show ?thesis
    by (auto simp: sl_inv_def sleep_return_def intro!: no_sleeper_set_proc)
next
  case (wake lk s d)
  with assms(2) show ?thesis by (auto simp: sl_inv_def no_sleeper_wakeup_other)
qed (auto simp: sl_inv_def acquiresleep_def releasesleep_def split: if_splits)

text \<open>
  The owner recorded in a lock changes only when the lock is free or by the owner's release.
\<close>

lemma slstep_owner:
  "slstep c (lk, s) (lk', s') \<Longrightarrow> sl_locked lk \<Longrightarrow> lk' = lk \<or> lk' = initsleeplock \<and> holdingsleep lk s"
  by (erule slstep.cases) (auto simp: acquiresleep_def releasesleep_free)

lemma slsteps_inv: "(slstep c)\<^sup>*\<^sup>* x y \<Longrightarrow> sl_inv c x \<Longrightarrow> sl_inv c y"
  by (induction rule: rtranclp_induct) (auto intro: slstep_inv)

text \<open>
  Claim C10. No lost wakeup and mutual exclusion for sleep locks: however processes on all CPUs
  contend for a lock, (1) if a process sleeps waiting for the lock then the lock is held, (2) the
  step that frees it leaves no process asleep on it, and (3) while it is held nobody else gets it.
\<close>

theorem sleeplock_contention:
  assumes "no_sleeper c s0" "(slstep c)\<^sup>*\<^sup>* (initsleeplock, s0) (lk, s)" "slstep c (lk, s) (lk', s')"
  shows "(no_sleeper c s \<or> sl_locked lk) \<and>
    (if sl_locked lk then lk' = lk \<or> lk' = initsleeplock \<and> holdingsleep lk s \<and> no_sleeper c s'
     else lk' = lk \<or> lk' = \<lparr>sl_locked = True, sl_pid = p_pid (curproc s)\<rparr> \<and> s' = s)"
proof -
  from slsteps_inv [OF assms(2)] assms(1) have "sl_inv c (lk, s)" by (simp add: sl_inv_def)
  then have "no_sleeper c s \<or> sl_locked lk" by (auto simp: sl_inv_def)
  moreover have "lk' = lk \<or> lk' = initsleeplock \<and> holdingsleep lk s \<and> no_sleeper c s'" if "sl_locked lk"
    using assms(3) that by (cases rule: slstep.cases) (auto simp: acquiresleep_def releasesleep_free)
  moreover have "lk' = lk \<or> lk' = \<lparr>sl_locked = True, sl_pid = p_pid (curproc s)\<rparr> \<and> s' = s" if "\<not> sl_locked lk"
    using assms(3) that by (cases rule: slstep.cases) (auto simp: acquiresleep_def holdingsleep_def)
  ultimately show ?thesis by simp
qed

definition lock_taken :: sleeplock where
  "lock_taken = \<lparr>sl_locked = True, sl_pid = 1\<rparr>"

lemma one_proc_acquires: "slstep (ChBufLock 0) (initsleeplock, one_proc) (lock_taken, one_proc)"
  by (rule slstep.acquire)
    (simp add: acquiresleep_def initsleeplock_def lock_taken_def one_proc_def curproc_def cur_def myproc_def)

lemma one_proc_no_sleeper: "no_sleeper c one_proc"
  by (simp add: no_sleeper_def one_proc_def fresh_proc_def list_all_iff)

theorem sleeplock_contention_witness:
  "no_sleeper (ChBufLock 0) one_proc \<and> slstep (ChBufLock 0) (initsleeplock, one_proc) (lock_taken, one_proc) \<and>
    (lock_taken = initsleeplock \<or> lock_taken = \<lparr>sl_locked = True, sl_pid = p_pid (curproc one_proc)\<rparr>)"
  using sleeplock_contention [OF one_proc_no_sleeper rtranclp.rtrancl_refl one_proc_acquires]
    one_proc_no_sleeper one_proc_acquires by (simp add: initsleeplock_def)

end
