(* ===== verification/Bio.thy ===== *)
theory Bio
  imports Sleeplock
begin

text \<open>
  The buffer cache, \<^verbatim>\<open>kernel/bio.c\<close>, on top of the block device.

  \<^verbatim>\<open>bcache.buf[NBUF]\<close> and \<^verbatim>\<open>bcache.head\<close> are one list of buffers, the head at index
  \<open>NBUF\<close>; \<^verbatim>\<open>prev\<close> and \<^verbatim>\<open>next\<close> are indices into it.  The device is a function from
  block numbers to blocks (\<^verbatim>\<open>virtio_disk_rw\<close> ignores \<^verbatim>\<open>b->dev\<close>) with a record of the writes
  in the order in which they reached it.

  The lemmas show that the pointer structure is a list in order of last use; what the cache
  promises to the file system is in \<open>Bcache\<close>.
\<close>

section \<open>Buffers and the device\<close>

type_synonym block = "uchar list"

record buf =
  b_valid :: bool
  b_dev :: uint
  b_blockno :: uint
  b_lock :: sleeplock
  b_refcnt :: uint
  b_prev :: nat
  b_next :: nat
  b_data :: block

record bstate = pstate +
  bufs :: "buf list"
  disk :: "uint \<Rightarrow> block"
  dtrace :: "(uint \<times> block) list"

definition NBUF :: nat where "NBUF = 30"
definition BSIZE :: nat where "BSIZE = 1024"
definition ROOTDEV :: uint where "ROOTDEV = 1"

definition set_buf :: "nat \<Rightarrow> (buf \<Rightarrow> buf) \<Rightarrow> 'a bstate_scheme \<Rightarrow> 'a bstate_scheme" where
  "set_buf i f s = s\<lparr>bufs := (bufs s)[i := f (bufs s ! i)]\<rparr>"

text \<open>
  The effect of \<^verbatim>\<open>virtio_disk_rw\<close> when it returns; \<open>Virtio\<close> shows that the driver has it.
\<close>

definition disk_rw :: "nat \<Rightarrow> bool \<Rightarrow> 'a bstate_scheme \<Rightarrow> 'a bstate_scheme" where
  "disk_rw i wr s =
    (let b = b_blockno (bufs s ! i) in
     if wr then s\<lparr>disk := (disk s)(b := b_data (bufs s ! i)), dtrace := dtrace s @ [(b, b_data (bufs s ! i))]\<rparr>
     else set_buf i (\<lambda>bf. bf\<lparr>b_data := disk s b\<rparr>) s)"

section \<open>The operations of bio.c\<close>

definition link_front :: "nat \<Rightarrow> buf list \<Rightarrow> buf list" where
  "link_front i bs =
    (let bs = bs[i := (bs ! i)\<lparr>b_next := b_next (bs ! NBUF)\<rparr>];
         bs = bs[i := (bs ! i)\<lparr>b_prev := NBUF\<rparr>];
         n = b_next (bs ! NBUF);
         bs = bs[n := (bs ! n)\<lparr>b_prev := i\<rparr>]
     in bs[NBUF := (bs ! NBUF)\<lparr>b_next := i\<rparr>])"

definition unlink_buf :: "nat \<Rightarrow> buf list \<Rightarrow> buf list" where
  "unlink_buf i bs =
    (let n = b_next (bs ! i);
         bs = bs[n := (bs ! n)\<lparr>b_prev := b_prev (bs ! i)\<rparr>];
         p = b_prev (bs ! i)
     in bs[p := (bs ! p)\<lparr>b_next := b_next (bs ! i)\<rparr>])"

definition binit :: "'a bstate_scheme \<Rightarrow> 'a bstate_scheme" where
  "binit s =
    (let bs = (bufs s)[NBUF := (bufs s ! NBUF)\<lparr>b_prev := NBUF, b_next := NBUF\<rparr>]
     in s\<lparr>bufs := fold (\<lambda>i bs. link_front i (bs[i := (bs ! i)\<lparr>b_lock := initsleeplock\<rparr>])) [0..<NBUF] bs\<rparr>)"

text \<open>
  The two loops of \<^verbatim>\<open>bget\<close>, following \<^verbatim>\<open>next\<close> or \<^verbatim>\<open>prev\<close> from \<open>i\<close> to the head.
\<close>

fun bscan :: "(buf \<Rightarrow> nat) \<Rightarrow> (buf \<Rightarrow> bool) \<Rightarrow> buf list \<Rightarrow> nat \<Rightarrow> nat \<Rightarrow> nat option res" where
  "bscan dir P bs 0 i = Diverge"
| "bscan dir P bs (Suc fuel) i =
    (if i = NBUF then Ok None
     else if P (bs ! i) then Ok (Some i)
     else bscan dir P bs fuel (dir (bs ! i)))"

definition block_lock :: "nat \<Rightarrow> 'a bstate_scheme \<Rightarrow> (nat \<times> 'a bstate_scheme) res" where
  "block_lock i s =
    bindr (acquiresleep (ChBufLock i) (b_lock (bufs s ! i)) s) (\<lambda>lk.
    Ok (i, set_buf i (\<lambda>b. b\<lparr>b_lock := lk\<rparr>) s))"

definition bget :: "uint \<Rightarrow> uint \<Rightarrow> 'a bstate_scheme \<Rightarrow> (nat \<times> 'a bstate_scheme) res" where
  "bget dev blockno s =
    bindr (bscan b_next (\<lambda>b. b_dev b = dev \<and> b_blockno b = blockno) (bufs s) (NBUF + 1) (b_next (bufs s ! NBUF))) (\<lambda>r.
    case r of
      Some i \<Rightarrow> block_lock i (set_buf i (\<lambda>b. b\<lparr>b_refcnt := b_refcnt b + 1\<rparr>) s)
    | None \<Rightarrow>
        bindr (bscan b_prev (\<lambda>b. b_refcnt b = 0) (bufs s) (NBUF + 1) (b_prev (bufs s ! NBUF))) (\<lambda>r.
        case r of
          Some i \<Rightarrow> block_lock i (set_buf i (\<lambda>b. b\<lparr>b_dev := dev, b_blockno := blockno, b_valid := False, b_refcnt := 1\<rparr>) s)
        | None \<Rightarrow> Panic ''bget: no buffers''))"

definition bread :: "uint \<Rightarrow> uint \<Rightarrow> 'a bstate_scheme \<Rightarrow> (nat \<times> 'a bstate_scheme) res" where
  "bread dev blockno s =
    bindr (bget dev blockno s) (\<lambda>(i, s).
    if \<not> b_valid (bufs s ! i) then Ok (i, set_buf i (\<lambda>b. b\<lparr>b_valid := True\<rparr>) (disk_rw i False s))
    else Ok (i, s))"

definition bwrite :: "nat \<Rightarrow> 'a bstate_scheme \<Rightarrow> 'a bstate_scheme res" where
  "bwrite i s =
    (if \<not> holdingsleep (b_lock (bufs s ! i)) s then Panic ''bwrite'' else Ok (disk_rw i True s))"

definition brelse :: "nat \<Rightarrow> 'a bstate_scheme \<Rightarrow> 'a bstate_scheme res" where
  "brelse i s =
    (if \<not> holdingsleep (b_lock (bufs s ! i)) s then Panic ''brelse''
     else
       let (lk, s) = releasesleep (ChBufLock i) (b_lock (bufs s ! i)) s;
           s = set_buf i (\<lambda>b. b\<lparr>b_lock := lk\<rparr>) s;
           s = set_buf i (\<lambda>b. b\<lparr>b_refcnt := b_refcnt b - 1\<rparr>) s
       in Ok (if b_refcnt (bufs s ! i) = 0 then s\<lparr>bufs := link_front i (unlink_buf i (bufs s))\<rparr> else s))"

definition bpin :: "nat \<Rightarrow> 'a bstate_scheme \<Rightarrow> 'a bstate_scheme" where
  "bpin i s = set_buf i (\<lambda>b. b\<lparr>b_refcnt := b_refcnt b + 1\<rparr>) s"

definition bunpin :: "nat \<Rightarrow> 'a bstate_scheme \<Rightarrow> 'a bstate_scheme" where
  "bunpin i s = set_buf i (\<lambda>b. b\<lparr>b_refcnt := b_refcnt b - 1\<rparr>) s"

text \<open>The store of a routine that holds buffer \<open>i\<close> into \<^verbatim>\<open>b->data\<close>.\<close>

definition bset :: "nat \<Rightarrow> block \<Rightarrow> 'a bstate_scheme \<Rightarrow> 'a bstate_scheme" where
  "bset i d s = set_buf i (\<lambda>b. b\<lparr>b_data := d\<rparr>) s"

section \<open>The list in order of last use\<close>

fun linkpath :: "(nat \<Rightarrow> nat) \<Rightarrow> nat \<Rightarrow> nat list \<Rightarrow> nat \<Rightarrow> bool" where
  "linkpath f a [] b \<longleftrightarrow> f a = b"
| "linkpath f a (x # xs) b \<longleftrightarrow> f a = x \<and> linkpath f x xs b"

lemma path_append: "linkpath f a (xs @ x # ys) b \<longleftrightarrow> linkpath f a xs x \<and> linkpath f x ys b"
  by (induction xs arbitrary: a) auto

lemma path_cong: "(\<And>x. x = a \<or> x \<in> set xs \<Longrightarrow> f x = g x) \<Longrightarrow> linkpath f a xs b = linkpath g a xs b"
  by (induction xs arbitrary: a) auto

lemma path_upd [simp]: "x \<noteq> a \<Longrightarrow> x \<notin> set xs \<Longrightarrow> linkpath (f(x := v)) a xs b = linkpath f a xs b"
  by (rule path_cong) auto

lemma path_last: "linkpath f a (us @ i # vs) b \<Longrightarrow> f (last (a # us)) = i"
  by (induction us arbitrary: a) auto

lemma path_remove:
  assumes "linkpath f a (us @ i # vs) b" "distinct (a # us @ i # vs)"
  shows "linkpath (f(last (a # us) := f i)) a (us @ vs) b"
  using assms
proof (induction us arbitrary: a)
  case Nil
  then have "linkpath f i vs b" "a \<notin> set vs" "a \<noteq> i" by simp_all
  then show ?case by (cases vs) (simp_all add: fun_upd_def [symmetric] del: fun_upd_apply, simp_all)
next
  case (Cons u us)
  have 1: "linkpath f u (us @ i # vs) b" "distinct (u # us @ i # vs)" "f a = u" "a \<notin> set (u # us)"
    using Cons.prems by simp_all
  have "last (u # us) \<noteq> a" using 1(4) last_in_set [of "u # us"] by (metis list.distinct(1))
  then have "(f(last (u # us) := f i)) a = u" using 1(3) by (simp del: last.simps)
  then show ?case using Cons.IH [OF 1(1,2)] unfolding append_Cons linkpath.simps
    by (simp only: last_ConsR list.distinct not_False_eq_True simp_thms)
qed

lemma path_push:
  assumes "linkpath f a xs b" "a \<notin> set xs" "i \<notin> set xs" "a \<noteq> i"
  shows "linkpath (f(i := f a, a := i)) a (i # xs) b"
proof -
  have "linkpath (f(i := f a, a := i)) i xs b"
  proof (cases xs)
    case Nil
    then show ?thesis using assms by simp
  next
    case (Cons x ys)
    then have "linkpath f x ys b" using assms by simp
    then have "linkpath (f(i := f a, a := i)) x ys b" using assms(2,3) Cons by (subst path_upd, simp, simp)+
    then show ?thesis using assms Cons by simp
  qed
  then show ?thesis by simp
qed

lemma path_snoc:
  assumes "linkpath f a xs b" "distinct (a # xs)" "i \<notin> set (a # xs)"
  shows "linkpath (f(i := b, last (a # xs) := i)) a (xs @ [i]) b"
  using assms
proof (induction xs arbitrary: a)
  case Nil
  then show ?case by simp
next
  case (Cons x xs)
  have 1: "linkpath f x xs b" "distinct (x # xs)" "i \<notin> set (x # xs)" "f a = x" "a \<notin> set (x # xs)" "i \<noteq> a"
    using Cons.prems by auto
  have "last (x # xs) \<noteq> a" using 1(5) last_in_set [of "x # xs"] by (metis list.distinct(1))
  then have "(f(i := b, last (x # xs) := i)) a = x" using 1(4,6) by (simp del: last.simps)
  then show ?case using Cons.IH [OF 1(1-3)] unfolding append_Cons linkpath.simps
    by (simp only: last_ConsR list.distinct not_False_eq_True simp_thms)
qed

abbreviation nxt :: "buf list \<Rightarrow> nat \<Rightarrow> nat" where "nxt bs \<equiv> \<lambda>i. b_next (bs ! i)"
abbreviation prv :: "buf list \<Rightarrow> nat \<Rightarrow> nat" where "prv bs \<equiv> \<lambda>i. b_prev (bs ! i)"

definition dll :: "buf list \<Rightarrow> nat list \<Rightarrow> bool" where
  "dll bs xs \<longleftrightarrow> length bs = Suc NBUF \<and> linkpath (nxt bs) NBUF xs NBUF \<and> linkpath (prv bs) NBUF (rev xs) NBUF \<and>
    distinct xs \<and> set xs \<subseteq> {..<NBUF}"

definition lru :: "buf list \<Rightarrow> nat list \<Rightarrow> bool" where
  "lru bs xs \<longleftrightarrow> dll bs xs \<and> set xs = {..<NBUF}"

text \<open>The fuel of \<open>bget\<close>'s loops is enough: they return what \<open>find\<close> finds in the list.\<close>

lemma bscan_find:
  assumes "linkpath (\<lambda>i. dir (bs ! i)) a xs NBUF" "NBUF \<notin> set xs" "length xs < fuel"
  shows "bscan dir P bs fuel (dir (bs ! a)) = Ok (find (\<lambda>i. P (bs ! i)) xs)"
  using assms
proof (induction xs arbitrary: a fuel)
  case Nil
  then show ?case by (cases fuel) auto
next
  case (Cons x xs)
  then show ?case by (cases fuel) auto
qed

lemma lru_length: "lru bs xs \<Longrightarrow> length xs = NBUF"
  unfolding lru_def dll_def by (metis card_lessThan distinct_card)

lemma lru_scan_next:
  "lru bs xs \<Longrightarrow> bscan b_next P bs (NBUF + 1) (b_next (bs ! NBUF)) = Ok (find (\<lambda>i. P (bs ! i)) xs)"
  using bscan_find [of b_next bs NBUF xs "NBUF + 1" P] lru_length [of bs xs] by (simp add: lru_def dll_def)

lemma lru_scan_prev:
  "lru bs xs \<Longrightarrow> bscan b_prev P bs (NBUF + 1) (b_prev (bs ! NBUF)) = Ok (find (\<lambda>i. P (bs ! i)) (rev xs))"
  using bscan_find [of b_prev bs NBUF "rev xs" "NBUF + 1" P] lru_length [of bs xs] by (simp add: lru_def dll_def)

text \<open>The links do not change when only other fields of the buffers do.\<close>

definition same_links :: "buf list \<Rightarrow> buf list \<Rightarrow> bool" where
  "same_links bs bs' \<longleftrightarrow> length bs' = length bs \<and> nxt bs' = nxt bs \<and> prv bs' = prv bs"

lemma dll_cong: "same_links bs bs' \<Longrightarrow> dll bs' xs = dll bs xs"
  by (simp add: same_links_def dll_def)

lemma lru_cong: "same_links bs bs' \<Longrightarrow> lru bs' xs = lru bs xs"
  by (simp add: lru_def dll_cong)

lemma same_links_update [simp]:
  "b_next b = b_next (bs ! i) \<Longrightarrow> b_prev b = b_prev (bs ! i) \<Longrightarrow> same_links bs (bs[i := b])"
  unfolding same_links_def by (auto simp: nth_update fun_eq_iff)

text \<open>The fields other than the links.\<close>

definition core :: "buf \<Rightarrow> buf" where
  "core b = b\<lparr>b_prev := 0, b_next := 0\<rparr>"

lemma core_links [simp]: "core (b\<lparr>b_prev := p\<rparr>) = core b" "core (b\<lparr>b_next := n\<rparr>) = core b"
  by (simp_all add: core_def)

lemma core_eq: "core b = core c \<Longrightarrow> b_valid b = b_valid c \<and> b_dev b = b_dev c \<and> b_blockno b = b_blockno c \<and>
    b_lock b = b_lock c \<and> b_refcnt b = b_refcnt c \<and> b_data b = b_data c"
  unfolding core_def by (metis buf.surjective buf.select_convs buf.update_convs(6,7))

lemma nxt_update: "i < length bs \<Longrightarrow> nxt (bs[i := b]) = (nxt bs)(i := b_next b)"
  by (auto simp: nth_list_update)

lemma prv_update: "i < length bs \<Longrightarrow> prv (bs[i := b]) = (prv bs)(i := b_prev b)"
  by (auto simp: nth_list_update)

lemma unlink_links:
  assumes "b_next (bs ! i) < length bs" "b_prev (bs ! i) < length bs" "b_next (bs ! i) \<noteq> i"
  shows "nxt (unlink_buf i bs) = (nxt bs)(b_prev (bs ! i) := b_next (bs ! i))"
    and "prv (unlink_buf i bs) = (prv bs)(b_next (bs ! i) := b_prev (bs ! i))"
  using assms by (auto simp: unlink_buf_def Let_def nth_update fun_eq_iff)

lemma unlink_core [simp]: "core (unlink_buf i bs ! j) = core (bs ! j)" "length (unlink_buf i bs) = length bs"
  by (auto simp: unlink_buf_def Let_def nth_update)

lemma link_front_core [simp]: "core (link_front i bs ! j) = core (bs ! j)" "length (link_front i bs) = length bs"
  by (auto simp: link_front_def Let_def nth_update)

lemma link_front_links:
  assumes "i < NBUF" "length bs = Suc NBUF" "b_next (bs ! NBUF) < length bs" "b_next (bs ! NBUF) \<noteq> i"
  shows "nxt (link_front i bs) = (nxt bs)(i := b_next (bs ! NBUF), NBUF := i)"
    and "prv (link_front i bs) = (prv bs)(i := NBUF, b_next (bs ! NBUF) := i)"
  using assms by (auto simp: link_front_def Let_def nth_update fun_eq_iff)

lemma path_hd: "linkpath f a xs b \<Longrightarrow> f a = hd (xs @ [b])"
  by (cases xs) auto

lemma hd_mem: "hd (xs @ [b]) \<in> set xs \<union> {b}"
  by (cases xs) auto

lemma last_mem: "last (a # xs) \<in> set xs \<union> {a}"
  by auto

lemma last_rev_hd: "last (a # rev xs) = hd (xs @ [a])"
  by (cases xs) auto

lemma dll_hd: "dll bs xs \<Longrightarrow> b_next (bs ! NBUF) = hd (xs @ [NBUF])"
  unfolding dll_def using path_hd by fast

lemma dll_push:
  assumes d: "dll bs xs" and i: "i < NBUF" "i \<notin> set xs"
  shows "dll (link_front i bs) (i # xs)"
proof -
  have n: "b_next (bs ! NBUF) = hd (xs @ [NBUF])" by (rule dll_hd [OF d])
  have x: "distinct xs" "set xs \<subseteq> {..<NBUF}" "NBUF \<notin> set xs" using d by (auto simp: dll_def)
  then have h: "hd (xs @ [NBUF]) < Suc NBUF" "hd (xs @ [NBUF]) \<noteq> i" using hd_mem [of xs NBUF] i by auto
  note l = link_front_links [OF i(1), of bs, unfolded n, OF _ _ h(2)]
  have len: "length bs = Suc NBUF" using d by (simp add: dll_def)
  have "linkpath ((nxt bs)(i := nxt bs NBUF, NBUF := i)) NBUF (i # xs) NBUF"
    using d i x by (intro path_push) (auto simp: dll_def)
  moreover have "linkpath ((prv bs)(i := NBUF, last (NBUF # rev xs) := i)) NBUF (rev xs @ [i]) NBUF"
    using d i x by (intro path_snoc) (auto simp: dll_def)
  ultimately show ?thesis using d i x h len unfolding dll_def
    by (simp only: l link_front_core last_rev_hd n rev.simps) simp
qed

lemma dll_remove:
  assumes d: "dll bs (us @ i # vs)"
  shows "dll (unlink_buf i bs) (us @ vs)"
proof -
  have p: "linkpath (nxt bs) NBUF (us @ i # vs) NBUF" "linkpath (prv bs) NBUF (rev vs @ i # rev us) NBUF"
    and x: "distinct (NBUF # us @ i # vs)" "set (us @ vs) \<subseteq> {..<NBUF}" and len: "length bs = Suc NBUF"
    using d by (auto simp: dll_def)
  have "linkpath (nxt bs) i vs NBUF" "linkpath (prv bs) i (rev us) NBUF" using p by (simp_all add: path_append)
  then have n: "b_next (bs ! i) = hd (vs @ [NBUF])" "b_prev (bs ! i) = hd (rev us @ [NBUF])"
    using path_hd by blast+
  have m: "b_next (bs ! i) < Suc NBUF" "b_prev (bs ! i) < Suc NBUF" "b_next (bs ! i) \<noteq> i"
    unfolding n using hd_mem [of vs NBUF] hd_mem [of "rev us" NBUF] x d by (auto simp: dll_def)
  note l = unlink_links [of bs i, unfolded len, OF m]
  have "linkpath ((nxt bs)(last (NBUF # us) := nxt bs i)) NBUF (us @ vs) NBUF" by (rule path_remove [OF p(1) x(1)])
  moreover have "linkpath ((prv bs)(last (NBUF # rev vs) := prv bs i)) NBUF (rev vs @ rev us) NBUF"
    by (rule path_remove [OF p(2)]) (use x in auto)
  moreover have "last (NBUF # us) = b_prev (bs ! i)" "last (NBUF # rev vs) = b_next (bs ! i)"
    using last_rev_hd [of NBUF "rev us"] last_rev_hd [of NBUF vs] n by simp_all
  ultimately show ?thesis using x len unfolding dll_def by (simp only: l unlink_core) simp
qed

lemma lru_touch:
  assumes "lru bs xs" "i < NBUF"
  shows "lru (link_front i (unlink_buf i bs)) (i # remove1 i xs)"
proof -
  from assms obtain us vs where x: "xs = us @ i # vs" by (metis lru_def lessThan_iff in_set_conv_decomp)
  have "i \<notin> set us" "i \<notin> set vs" using assms x by (auto simp: lru_def dll_def)
  then have r: "remove1 i xs = us @ vs" "i \<notin> set (us @ vs)" by (simp_all add: x remove1_append)
  have "dll (unlink_buf i bs) (us @ vs)" using assms(1) x by (intro dll_remove) (simp add: lru_def)
  then have "dll (link_front i (unlink_buf i bs)) (i # us @ vs)" using assms(2) r(2) by (rule dll_push)
  then show ?thesis using assms(1) x r by (auto simp: lru_def)
qed

lemma binit_loop:
  assumes "dll bs (rev [0..<m])" "m \<le> n" "n \<le> NBUF"
  shows "dll (fold (\<lambda>i bs. link_front i (bs[i := (bs ! i)\<lparr>b_lock := initsleeplock\<rparr>])) [m..<n] bs) (rev [0..<n])"
  using assms
proof (induction "n - m" arbitrary: m bs)
  case 0
  then show ?case by simp
next
  case (Suc k)
  let ?b = "bs[m := (bs ! m)\<lparr>b_lock := initsleeplock\<rparr>]"
  have "dll ?b (rev [0..<m])" using Suc.prems(1) dll_cong [of bs ?b] by simp
  then have "dll (link_front m ?b) (m # rev [0..<m])" using Suc by (intro dll_push) auto
  then have "dll (link_front m ?b) (rev [0..<Suc m])" by simp
  moreover have "m < n" "k = n - Suc m" using Suc.hyps(2) by auto
  ultimately show ?case using Suc.hyps(1) [of "Suc m" "link_front m ?b"] Suc.prems(3) by (simp add: upt_conv_Cons)
qed

lemma binit_lru:
  assumes "length (bufs s) = Suc NBUF"
  shows "lru (bufs (binit s)) (rev [0..<NBUF])"
proof -
  let ?b = "(bufs s)[NBUF := (bufs s ! NBUF)\<lparr>b_prev := NBUF, b_next := NBUF\<rparr>]"
  have "dll ?b (rev [0..<0])" using assms by (simp add: dll_def)
  from binit_loop [OF this, of NBUF] show ?thesis
    by (auto simp: binit_def lru_def Let_def atLeast0LessThan)
qed

end
