(* ===== verification/Bcache.thy ===== *)
theory Bcache
  imports Bio
begin

text \<open>
  What the buffer cache promises to the file system.  With the blocks \<open>H\<close> held by the
  running process and the blocks \<open>L\<close> pinned by the log (\<open>bc_ok\<close>), every block is cached at most
  once, the logical contents \<open>bview\<close> of a block is what \<^verbatim>\<open>bread\<close> returns, and no buffer
  whose contents differ from the disk can be recycled.
\<close>

section \<open>The contract of the cache\<close>

text \<open>
  \<open>bc_ok L H pid B d\<close>: the buffers \<open>B\<close> over the disk \<open>d\<close> when the process \<open>pid\<close> holds the
  blocks \<open>H\<close> and the log has pinned the blocks \<open>L\<close>.
\<close>

definition buf_ok :: "uint set \<Rightarrow> uint set \<Rightarrow> uint \<Rightarrow> (uint \<Rightarrow> block) \<Rightarrow> buf \<Rightarrow> bool" where
  "buf_ok L H pid d b \<longleftrightarrow> length (b_data b) = BSIZE \<and>
    (b_dev b = 0 \<and> \<not> b_valid b \<and> b_refcnt b = 0 \<and> \<not> sl_locked (b_lock b) \<or>
     b_dev b = ROOTDEV \<and> b_refcnt b = of_bool (b_blockno b \<in> H) + of_bool (b_blockno b \<in> L) \<and>
     sl_locked (b_lock b) = (b_blockno b \<in> H) \<and> (b_blockno b \<in> H \<longrightarrow> sl_pid (b_lock b) = pid) \<and>
     (b_blockno b \<in> H \<union> L \<longrightarrow> b_valid b) \<and>
     (b_valid b \<and> b_blockno b \<notin> H \<union> L \<longrightarrow> b_data b = d (b_blockno b)))"

definition cached :: "buf list \<Rightarrow> uint \<Rightarrow> nat \<Rightarrow> bool" where
  "cached B b i \<longleftrightarrow> i < NBUF \<and> b_dev (B ! i) = ROOTDEV \<and> b_blockno (B ! i) = b"

definition bc_ok :: "uint set \<Rightarrow> uint set \<Rightarrow> uint \<Rightarrow> buf list \<Rightarrow> (uint \<Rightarrow> block) \<Rightarrow> bool" where
  "bc_ok L H pid B d \<longleftrightarrow> (\<exists>xs. lru B xs) \<and> (\<forall>i < NBUF. buf_ok L H pid d (B ! i)) \<and>
    (\<forall>b i j. cached B b i \<longrightarrow> cached B b j \<longrightarrow> i = j) \<and>
    (\<forall>b \<in> H \<union> L. \<exists>i. cached B b i) \<and> (\<forall>b. length (d b) = BSIZE)"

text \<open>The logical contents of a block: the cached copy if there is a valid one, else the disk.\<close>

definition bview :: "buf list \<Rightarrow> (uint \<Rightarrow> block) \<Rightarrow> uint \<Rightarrow> block" where
  "bview B d b =
    (case find (\<lambda>i. b_dev (B ! i) = ROOTDEV \<and> b_blockno (B ! i) = b \<and> b_valid (B ! i)) [0..<NBUF] of
       Some i \<Rightarrow> b_data (B ! i) | None \<Rightarrow> d b)"

lemma bview_cached:
  assumes "bc_ok L H pid B d" "cached B b i" "b_valid (B ! i)"
  shows "bview B d b = b_data (B ! i)"
proof -
  let ?P = "\<lambda>i. b_dev (B ! i) = ROOTDEV \<and> b_blockno (B ! i) = b \<and> b_valid (B ! i)"
  from assms(2,3) have "?P i" "i < NBUF" by (auto simp: cached_def)
  then obtain j where j: "find ?P [0..<NBUF] = Some j" by (cases "find ?P [0..<NBUF]") (auto simp: find_None_iff)
  then have "cached B b j" by (auto simp: find_Some_iff cached_def)
  with assms(1,2) have "j = i" by (auto simp: bc_ok_def)
  with j show ?thesis by (simp add: bview_def)
qed

lemma bview_uncached: "(\<And>i. cached B b i \<Longrightarrow> \<not> b_valid (B ! i)) \<Longrightarrow> bview B d b = d b"
  by (auto simp: bview_def cached_def find_Some_iff split: option.splits)

lemma bc_okD:
  assumes "bc_ok L H pid B d"
  shows "\<exists>xs. lru B xs" "\<And>i. i < NBUF \<Longrightarrow> buf_ok L H pid d (B ! i)"
    "\<And>b i j. cached B b i \<Longrightarrow> cached B b j \<Longrightarrow> i = j" "\<And>b. b \<in> H \<union> L \<Longrightarrow> \<exists>i. cached B b i"
    "\<And>b. length (d b) = BSIZE" "length B = Suc NBUF"
proof -
  note a = assms [unfolded bc_ok_def]
  show 1: "\<exists>xs. lru B xs" using a by (rule conjunct1)
  then show "length B = Suc NBUF" by (auto simp: lru_def dll_def)
  show "\<And>i. i < NBUF \<Longrightarrow> buf_ok L H pid d (B ! i)" using a by simp
  show "\<And>b i j. cached B b i \<Longrightarrow> cached B b j \<Longrightarrow> i = j"
    using a [THEN conjunct2, THEN conjunct2, THEN conjunct1] by simp
  show "\<And>b. b \<in> H \<union> L \<Longrightarrow> \<exists>i. cached B b i" "\<And>b. length (d b) = BSIZE" using a by simp_all
qed

lemma bview_length: "bc_ok L H pid B d \<Longrightarrow> length (bview B d b) = BSIZE"
  using bc_okD(2,5) [of L H pid B d]
  by (simp add: bview_def buf_ok_def split: option.splits) (auto simp: find_Some_iff)

lemma bview_cases:
  assumes "bc_ok L H pid B d"
  obtains i where "cached B b i" "b_valid (B ! i)" "bview B d b = b_data (B ! i)"
  | "\<And>i. cached B b i \<Longrightarrow> \<not> b_valid (B ! i)" "bview B d b = d b"
proof (cases "\<exists>i. cached B b i \<and> b_valid (B ! i)")
  case True
  then show ?thesis using that(1) bview_cached [OF assms] by blast
next
  case False
  then show ?thesis using that(2) bview_uncached [of B b d] by blast
qed

lemma bview_clean:
  assumes "bc_ok L H pid B d" "b \<notin> H \<union> L"
  shows "bview B d b = d b"
proof (cases rule: bview_cases [OF assms(1), of b])
  case (1 i)
  then have "buf_ok L H pid d (B ! i)" using bc_okD(2) [OF assms(1)] by (simp add: cached_def)
  then show ?thesis using 1 assms(2) by (auto simp: buf_ok_def cached_def)
qed

lemma cached_core: "core (B' ! j) = core (B ! j) \<Longrightarrow> cached B' b j = cached B b j"
  by (auto simp: cached_def dest: core_eq)

lemma buf_ok_core: "core b' = core b \<Longrightarrow> buf_ok L H pid d b' = buf_ok L H pid d b"
  by (drule core_eq) (simp add: buf_ok_def)

lemma buf_ok_cong:
  assumes "b_dev b = ROOTDEV \<Longrightarrow> (b_blockno b \<in> H') = (b_blockno b \<in> H) \<and> (b_blockno b \<in> L') = (b_blockno b \<in> L)"
  shows "buf_ok L' H' pid d b = buf_ok L H pid d b"
  using assms by (cases "b_dev b = ROOTDEV") (simp_all add: buf_ok_def)

text \<open>One buffer changes, possibly to hold another block \<open>nb\<close>; the list may be reordered.\<close>

definition one_buf ::
    "uint set \<Rightarrow> uint set \<Rightarrow> uint \<Rightarrow> buf list \<Rightarrow> (uint \<Rightarrow> block) \<Rightarrow> buf list \<Rightarrow> uint \<Rightarrow> nat \<Rightarrow> uint set \<Rightarrow> uint set \<Rightarrow> bool" where
  "one_buf L H pid B d B' nb i L' H' \<longleftrightarrow> bc_ok L H pid B d \<and> (\<exists>xs. lru B' xs) \<and> cached B' nb i \<and>
    (\<forall>j < NBUF. j \<noteq> i \<longrightarrow> core (B' ! j) = core (B ! j)) \<and> buf_ok L' H' pid d (B' ! i) \<and>
    (\<forall>j. cached B nb j \<longrightarrow> j = i) \<and> (\<forall>b. b \<noteq> nb \<longrightarrow> (b \<in> H') = (b \<in> H) \<and> (b \<in> L') = (b \<in> L)) \<and>
    (\<forall>b. b \<noteq> nb \<longrightarrow> cached B b i \<longrightarrow> b \<notin> H \<union> L)"

lemma one_bufD:
  assumes "one_buf L H pid B d B' nb i L' H'"
  shows "bc_ok L H pid B d" "\<exists>xs. lru B' xs" "cached B' nb i"
    and "\<And>j. j < NBUF \<Longrightarrow> j \<noteq> i \<Longrightarrow> core (B' ! j) = core (B ! j)"
    and "buf_ok L' H' pid d (B' ! i)" "\<And>j. cached B nb j \<Longrightarrow> j = i"
    and "\<And>b. b \<noteq> nb \<Longrightarrow> (b \<in> H') = (b \<in> H)" "\<And>b. b \<noteq> nb \<Longrightarrow> (b \<in> L') = (b \<in> L)"
    and "\<And>b. b \<noteq> nb \<Longrightarrow> cached B b i \<Longrightarrow> b \<notin> H \<union> L"
  using assms unfolding one_buf_def by simp_all

lemma cached_new:
  assumes "one_buf L H pid B d B' nb i L' H'"
  shows "cached B' b j \<longleftrightarrow> (if j = i then b = nb else cached B b j)"
proof (cases "j = i")
  case True
  then show ?thesis using one_bufD(3) [OF assms] by (auto simp: cached_def)
next
  case False
  then show ?thesis using cached_core [OF one_bufD(4) [OF assms, of j], of b] by (auto simp: cached_def)
qed

lemma one_buf_other:
  assumes "one_buf L H pid B d B' nb i L' H'" "j < NBUF" "j \<noteq> i"
  shows "buf_ok L' H' pid d (B' ! j)"
proof -
  note D = one_bufD [OF assms(1)]
  have o: "buf_ok L H pid d (B ! j)" using bc_okD(2) [OF D(1) assms(2)] .
  have "b_blockno (B ! j) \<noteq> nb" if "b_dev (B ! j) = ROOTDEV" using D(6) [of j] assms that by (auto simp: cached_def)
  then have "buf_ok L' H' pid d (B ! j) = buf_ok L H pid d (B ! j)"
    using D(7,8) [of "b_blockno (B ! j)"] by (intro buf_ok_cong) simp
  then show ?thesis using o buf_ok_core [OF D(4) [OF assms(2,3)]] by simp
qed

lemma one_buf_ok:
  assumes "one_buf L H pid B d B' nb i L' H'"
  shows "bc_ok L' H' pid B' d"
proof -
  note D = one_bufD [OF assms]
  have "buf_ok L' H' pid d (B' ! j)" if "j < NBUF" for j
    using one_buf_other [OF assms that] D(5) by (cases "j = i") simp_all
  moreover have "j = k" if "cached B' b j" "cached B' b k" for b j k
  proof (cases "b = nb")
    case True
    then show ?thesis using that D(6) [of j] D(6) [of k] by (simp add: cached_new [OF assms] split: if_splits)
  next
    case False
    then show ?thesis using that bc_okD(3) [OF D(1), of b j k] by (simp add: cached_new [OF assms] split: if_splits)
  qed
  moreover have "\<exists>j. cached B' b j" if "b \<in> H' \<union> L'" for b
  proof (cases "b = nb")
    case False
    then have "b \<in> H \<union> L" using that D(7,8) [OF False] by simp
    then obtain j where "cached B b j" using bc_okD(4) [OF D(1)] by blast
    moreover from this \<open>b \<in> H \<union> L\<close> have "j \<noteq> i" using D(9) [OF False] by blast
    ultimately show ?thesis by (auto simp: cached_new [OF assms])
  qed (use D(3) in blast)
  ultimately show ?thesis using D(2) bc_okD(5) [OF D(1)] unfolding bc_ok_def by simp
qed

lemma one_buf_view:
  assumes "one_buf L H pid B d B' nb i L' H'" "b \<noteq> nb"
  shows "bview B' d b = bview B d b"
proof -
  note D = one_bufD [OF assms(1)] and N = cached_new [OF assms(1)]
  show ?thesis
  proof (cases rule: bview_cases [OF D(1), of b])
    case (1 j)
    show ?thesis
    proof (cases "j = i")
      case True
      then have "bview B d b = d b" using bview_clean [OF D(1)] D(9) [OF assms(2)] 1(1) by simp
      moreover have "\<not> cached B' b k" for k
        using 1(1) True assms(2) bc_okD(3) [OF D(1), of b k j] by (auto simp: N)
      ultimately show ?thesis using bview_uncached [of B' b d] by simp
    next
      case False
      then have "cached B' b j" using 1(1) by (simp add: N)
      moreover have "b_valid (B' ! j)" "b_data (B' ! j) = b_data (B ! j)"
        using 1 False core_eq [OF D(4) [of j]] by (simp_all add: cached_def)
      ultimately show ?thesis using 1(3) bview_cached [OF one_buf_ok [OF assms(1)]] by simp
    qed
  next
    case 2
    have "\<not> b_valid (B' ! j)" if "cached B' b j" for j
    proof -
      have "j \<noteq> i" "cached B b j" using that assms(2) by (auto simp: N split: if_splits)
      then show ?thesis using 2(1) [of j] core_eq [OF D(4) [of j]] by (simp add: cached_def)
    qed
    then show ?thesis using bview_uncached [of B' b d] 2(2) by simp
  qed
qed

lemma one_buf_upd:
  assumes "one_buf L H pid B d B' nb i L' H'" "b_valid (B' ! i)"
  shows "bview B' d = (bview B d)(nb := b_data (B' ! i))"
  using one_buf_view [OF assms(1)] bview_cached [OF one_buf_ok [OF assms(1)] one_bufD(3) [OF assms(1)] assms(2)]
  by (auto simp: fun_eq_iff)

lemma one_buf_update:
  assumes "bc_ok L H pid B d" "i < NBUF" "b_next b' = b_next (B ! i)" "b_prev b' = b_prev (B ! i)"
    and "b_dev b' = ROOTDEV" "b_blockno b' = nb" "buf_ok L' H' pid d b'" "\<And>j. cached B nb j \<Longrightarrow> j = i"
    and "\<And>b. b \<noteq> nb \<Longrightarrow> (b \<in> H') = (b \<in> H) \<and> (b \<in> L') = (b \<in> L)"
    and "\<And>b. b \<noteq> nb \<Longrightarrow> cached B b i \<Longrightarrow> b \<notin> H \<union> L"
  shows "one_buf L H pid B d (B[i := b']) nb i L' H'"
proof -
  have "same_links B (B[i := b'])" using assms(3,4) by simp
  then have "\<exists>xs. lru (B[i := b']) xs" using bc_okD(1) [OF assms(1)] by (simp add: lru_cong)
  moreover have "i < length B" using bc_okD(6) [OF assms(1)] assms(2) by simp
  ultimately show ?thesis using assms unfolding one_buf_def by (simp add: cached_def)
qed

lemma one_buf_held:
  assumes "bc_ok L H pid B d" "cached B nb i" "b_next b' = b_next (B ! i)" "b_prev b' = b_prev (B ! i)"
    and "b_dev b' = ROOTDEV" "b_blockno b' = nb" "buf_ok L' H' pid d b'"
    and "\<And>b. b \<noteq> nb \<Longrightarrow> (b \<in> H') = (b \<in> H) \<and> (b \<in> L') = (b \<in> L)"
  shows "one_buf L H pid B d (B[i := b']) nb i L' H'"
proof (rule one_buf_update [OF assms(1) _ assms(3-7)])
  show "i < NBUF" using assms(2) by (simp add: cached_def)
  show "j = i" if "cached B nb j" for j using bc_okD(3) [OF assms(1) that assms(2)] .
  show "(b \<in> H') = (b \<in> H) \<and> (b \<in> L') = (b \<in> L)" if "b \<noteq> nb" for b using assms(8) [OF that] .
  show "b \<notin> H \<union> L" if "b \<noteq> nb" "cached B b i" for b using that assms(2) by (simp add: cached_def)
qed

lemma one_buf_cached:
  assumes "one_buf L H pid B d B' nb i L' H'" "cached B nb i"
  shows "cached B' = cached B"
proof (intro ext)
  fix b j
  show "cached B' b j = cached B b j"
    using assms(2) by (simp add: cached_new [OF assms(1)]) (auto simp: cached_def)
qed

section \<open>The operations under the contract\<close>

lemma curproc_bufs [simp]: "curproc (s\<lparr>bufs := B\<rparr>) = curproc s" "curproc (s\<lparr>disk := d\<rparr>) = curproc s"
  "curproc (s\<lparr>dtrace := t\<rparr>) = curproc s"
  by (simp_all add: curproc_def cur_def myproc_def)

definition quiet :: "'a pstate_scheme \<Rightarrow> bool" where
  "quiet s = (\<forall>i. no_sleeper (ChBufLock i) s)"

lemma quiet_bufs [simp]: "quiet (s\<lparr>bufs := B\<rparr>) = quiet s" "quiet (s\<lparr>disk := d\<rparr>) = quiet s"
  "quiet (s\<lparr>dtrace := t\<rparr>) = quiet s"
  by (simp_all add: quiet_def no_sleeper_def)

definition bok :: "uint set \<Rightarrow> uint set \<Rightarrow> 'a bstate_scheme \<Rightarrow> bool" where
  "bok L H s \<longleftrightarrow> bc_ok L H (p_pid (curproc s)) (bufs s) (disk s) \<and> quiet s"

definition sview :: "'a bstate_scheme \<Rightarrow> uint \<Rightarrow> block" where
  "sview s = bview (bufs s) (disk s)"

lemma held_buf:
  assumes "bc_ok L H pid B d" "cached B b i" "b \<in> H"
  shows "b_valid (B ! i)" "sl_locked (b_lock (B ! i))" "sl_pid (b_lock (B ! i)) = pid" "length (b_data (B ! i)) = BSIZE"
    "b_refcnt (B ! i) = 1 + of_bool (b \<in> L)" "b_data (B ! i) = bview B d b" "b_dev (B ! i) = ROOTDEV" "b_blockno (B ! i) = b"
    "i < NBUF" "i < length B"
proof -
  have c: "i < NBUF" "b_dev (B ! i) = ROOTDEV" "b_blockno (B ! i) = b" using assms(2) by (simp_all add: cached_def)
  then have o: "buf_ok L H pid d (B ! i)" using bc_okD(2) [OF assms(1)] by simp
  show "b_valid (B ! i)" "sl_locked (b_lock (B ! i))" "sl_pid (b_lock (B ! i)) = pid" "length (b_data (B ! i)) = BSIZE"
    "b_refcnt (B ! i) = 1 + of_bool (b \<in> L)" "b_dev (B ! i) = ROOTDEV" "b_blockno (B ! i) = b" "i < NBUF" "i < length B"
    using o c assms(3) bc_okD(6) [OF assms(1)] by (simp_all add: buf_ok_def ROOTDEV_def)
  then show "b_data (B ! i) = bview B d b" using bview_cached [OF assms(1,2)] by simp
qed

lemma bset_ok:
  assumes "bok L H s" "cached (bufs s) b i" "b \<in> H" "length dt = BSIZE"
  shows "bok L H (bset i dt s) \<and> sview (bset i dt s) = (sview s)(b := dt) \<and> cached (bufs (bset i dt s)) = cached (bufs s)"
proof -
  let ?B = "bufs s"
  have ok: "bc_ok L H (p_pid (curproc s)) ?B (disk s)" using assms(1) by (simp add: bok_def)
  note h = held_buf [OF ok assms(2,3)]
  have "one_buf L H (p_pid (curproc s)) ?B (disk s) (?B[i := (?B ! i)\<lparr>b_data := dt\<rparr>]) b i L H"
    by (rule one_buf_held [OF ok assms(2)]) (use h assms in \<open>simp_all add: buf_ok_def ROOTDEV_def\<close>)
  note u = one_buf_ok [OF this] one_buf_upd [OF this] one_buf_cached [OF this assms(2)]
  show ?thesis using u h assms(1) by (simp add: bok_def sview_def bset_def set_buf_def)
qed

lemma bpin_ok:
  assumes "bok L H s" "cached (bufs s) b i" "b \<in> H" "b \<notin> L"
  shows "bok (insert b L) H (bpin i s) \<and> sview (bpin i s) = sview s \<and> cached (bufs (bpin i s)) = cached (bufs s)"
proof -
  let ?B = "bufs s"
  have ok: "bc_ok L H (p_pid (curproc s)) ?B (disk s)" using assms(1) by (simp add: bok_def)
  note h = held_buf [OF ok assms(2,3)]
  have "one_buf L H (p_pid (curproc s)) ?B (disk s) (?B[i := (?B ! i)\<lparr>b_refcnt := b_refcnt (?B ! i) + 1\<rparr>]) b i (insert b L) H"
    by (rule one_buf_held [OF ok assms(2)]) (use h assms in \<open>simp_all add: buf_ok_def ROOTDEV_def\<close>)
  note u = one_buf_ok [OF this] one_buf_upd [OF this] one_buf_cached [OF this assms(2)]
  show ?thesis using u h assms(1) by (simp add: bok_def sview_def bpin_def set_buf_def)
qed

lemma bunpin_ok:
  assumes "bok L H s" "cached (bufs s) b i" "b \<in> H" "b \<in> L"
  shows "bok (L - {b}) H (bunpin i s) \<and> sview (bunpin i s) = sview s \<and> cached (bufs (bunpin i s)) = cached (bufs s)"
proof -
  let ?B = "bufs s"
  have ok: "bc_ok L H (p_pid (curproc s)) ?B (disk s)" using assms(1) by (simp add: bok_def)
  note h = held_buf [OF ok assms(2,3)]
  have "one_buf L H (p_pid (curproc s)) ?B (disk s) (?B[i := (?B ! i)\<lparr>b_refcnt := b_refcnt (?B ! i) - 1\<rparr>]) b i (L - {b}) H"
    by (rule one_buf_held [OF ok assms(2)]) (use h assms in \<open>simp_all add: buf_ok_def ROOTDEV_def\<close>)
  note u = one_buf_ok [OF this] one_buf_upd [OF this] one_buf_cached [OF this assms(2)]
  show ?thesis using u h assms(1) by (simp add: bok_def sview_def bunpin_def set_buf_def)
qed

lemma bwrite_ok:
  assumes "bok L H s" "cached (bufs s) b i" "b \<in> H"
  shows "\<exists>s'. bwrite i s = Ok s' \<and> s' = s\<lparr>disk := (disk s)(b := sview s b), dtrace := dtrace s @ [(b, sview s b)]\<rparr> \<and>
    bok L H s' \<and> sview s' = sview s"
proof -
  let ?B = "bufs s" and ?d = "(disk s)(b := sview s b)" and ?pid = "p_pid (curproc s)"
  have ok: "bc_ok L H ?pid ?B (disk s)" and q: "quiet s" using assms(1) by (simp_all add: bok_def)
  note h = held_buf [OF ok assms(2,3)]
  have len: "length (?d c) = BSIZE" for c using bc_okD(5) [OF ok] bview_length [OF ok] by (simp add: sview_def)
  have b: "buf_ok L H ?pid ?d (?B ! j)" if "j < NBUF" for j
  proof (cases "b_dev (?B ! j) = ROOTDEV \<and> b_blockno (?B ! j) = b")
    case True
    then have "j = i" using bc_okD(3) [OF ok, of b j i] assms(2) that by (simp add: cached_def)
    then show ?thesis using bc_okD(2) [OF ok that] h assms(3) by (simp add: buf_ok_def)
  next
    case False
    then show ?thesis using bc_okD(2) [OF ok that] by (cases "b_dev (?B ! j) = ROOTDEV") (simp_all add: buf_ok_def)
  qed
  have ok': "bc_ok L H ?pid ?B ?d" unfolding bc_ok_def using bc_okD(1,3,4) [OF ok] b len by simp
  have "bview ?B ?d c = bview ?B (disk s) c" for c
  proof (cases "c = b")
    case True
    then show ?thesis using bview_cached [OF ok' assms(2) h(1)] bview_cached [OF ok assms(2) h(1)] by simp
  next
    case False
    then show ?thesis by (simp add: bview_def split: option.split)
  qed
  then show ?thesis using h ok' q
    by (simp add: bwrite_def holdingsleep_def disk_rw_def Let_def bok_def sview_def fun_eq_iff)
qed

lemma brelse_ok:
  assumes "bok L H s" "cached (bufs s) b i" "b \<in> H" "b \<in> L \<or> sview s b = disk s b"
  shows "\<exists>B. brelse i s = Ok (s\<lparr>bufs := B\<rparr>) \<and> bok L (H - {b}) (s\<lparr>bufs := B\<rparr>) \<and>
    sview (s\<lparr>bufs := B\<rparr>) = sview s \<and> cached B = cached (bufs s) \<and>
    (\<forall>xs. lru (bufs s) xs \<longrightarrow> lru B (if b \<in> L then xs else i # remove1 i xs))"
proof -
  let ?B = "bufs s" and ?pid = "p_pid (curproc s)"
  let ?b = "(?B ! i)\<lparr>b_lock := initsleeplock, b_refcnt := b_refcnt (?B ! i) - 1\<rparr>"
  let ?C = "?B[i := ?b]"
  have ok: "bc_ok L H ?pid ?B (disk s)" and q: "quiet s" using assms(1) by (simp_all add: bok_def)
  note h = held_buf [OF ok assms(2,3)]
  have bo: "buf_ok L (H - {b}) ?pid (disk s) ?b"
    using h assms(3,4) by (auto simp: buf_ok_def initsleeplock_def ROOTDEV_def sview_def)
  have 1: "one_buf L H ?pid ?B (disk s) ?C b i L (H - {b})"
    by (rule one_buf_held [OF ok assms(2)]) (use h bo in simp_all)
  obtain xs where l: "lru ?C xs" using one_bufD(2) [OF 1] by blast
  define D where "D = (if b_refcnt ?b = 0 then link_front i (unlink_buf i ?C) else ?C)"
  have core: "core (D ! j) = core (?C ! j)" for j by (simp add: D_def)
  have z: "b_refcnt ?b = 0 \<longleftrightarrow> b \<notin> L" using h(5) by simp
  have "same_links ?B ?C" by simp
  then have ls: "lru D (if b \<in> L then ys else i # remove1 i ys)" if "lru ?B ys" for ys
    using that z lru_touch [of ?C ys i] h(9) lru_cong [of ?B ?C ys] by (simp add: D_def)
  have "\<exists>ys. lru D ys" using lru_touch [OF l h(9)] l by (auto simp: D_def)
  then have 2: "one_buf L H ?pid ?B (disk s) D b i L (H - {b})"
    using 1 core cached_core [OF core, of b i] buf_ok_core [OF core [of i]] unfolding one_buf_def by simp
  have "holdingsleep (b_lock (?B ! i)) s" using h by (simp add: holdingsleep_def)
  then have r: "brelse i s = Ok (s\<lparr>bufs := D\<rparr>)"
    using q h(10) by (simp add: brelse_def releasesleep_free set_buf_def Let_def D_def quiet_def)
  have "core (D ! i) = core ?b" using core [of i] h(10) by simp
  then have "b_valid (D ! i)" "b_data (D ! i) = sview s b" using core_eq [of "D ! i" ?b] h by (simp_all add: sview_def)
  then show ?thesis
    using r q ls one_buf_ok [OF 2] one_buf_upd [OF 2] one_buf_cached [OF 2 assms(2)]
    by (intro exI [of _ D]) (simp add: bok_def sview_def)
qed

text \<open>A buffer can be recycled as long as fewer than \<open>NBUF\<close> blocks are held or pinned.\<close>

lemma refcnt_0_iff:
  "buf_ok L H pid d b \<Longrightarrow> b_refcnt b = 0 \<longleftrightarrow> b_dev b = ROOTDEV \<longrightarrow> b_blockno b \<notin> H \<union> L"
  by (cases "b_blockno b \<in> H"; cases "b_blockno b \<in> L"; cases "b_dev b = ROOTDEV") (simp_all add: buf_ok_def ROOTDEV_def)

lemma free_buffer:
  assumes "bc_ok L H pid B d" "finite (H \<union> L)" "card (H \<union> L) < NBUF"
  shows "\<exists>i < NBUF. b_refcnt (B ! i) = 0"
proof (rule ccontr)
  assume "\<not> ?thesis"
  then have c: "b_dev (B ! i) = ROOTDEV \<and> b_blockno (B ! i) \<in> H \<union> L" if "i < NBUF" for i
    using refcnt_0_iff [OF bc_okD(2) [OF assms(1)]] that by auto
  then have "inj_on (\<lambda>i. b_blockno (B ! i)) {..<NBUF}"
    using bc_okD(3) [OF assms(1)] by (intro inj_onI) (simp add: cached_def)
  moreover have "(\<lambda>i. b_blockno (B ! i)) ` {..<NBUF} \<subseteq> H \<union> L" using c by auto
  ultimately have "NBUF \<le> card (H \<union> L)" using card_inj_on_le [OF _ _ assms(2)] by fastforce
  then show False using assms(3) by simp
qed

lemma bread_new:
  assumes ok: "bok L H s" and i: "i < NBUF" and free: "\<not> sl_locked (b_lock (bufs s ! i))"
    and only: "\<And>j. cached (bufs s) b j \<Longrightarrow> j = i" and rec: "\<And>c. c \<noteq> b \<Longrightarrow> cached (bufs s) c i \<Longrightarrow> c \<notin> H \<union> L"
    and ref: "rc = 1 + of_bool (b \<in> L)" and v: "v \<Longrightarrow> cached (bufs s) b i \<and> b_valid (bufs s ! i)" "b \<in> L \<Longrightarrow> v"
    and inv: "\<not> v \<Longrightarrow> sview s b = disk s b" "v \<Longrightarrow> sview s b = b_data (bufs s ! i)"
    and get: "bget ROOTDEV b s = block_lock i (set_buf i (\<lambda>x. x\<lparr>b_dev := ROOTDEV, b_blockno := b, b_valid := v, b_refcnt := rc\<rparr>) s)"
  shows "\<exists>B. bread ROOTDEV b s = Ok (i, s\<lparr>bufs := B\<rparr>) \<and> bok L (insert b H) (s\<lparr>bufs := B\<rparr>) \<and>
    sview (s\<lparr>bufs := B\<rparr>) = sview s \<and> cached B b i \<and> (\<forall>c \<in> H \<union> L. \<forall>j. cached (bufs s) c j \<longrightarrow> cached B c j) \<and>
    same_links (bufs s) B"
proof -
  let ?B = "bufs s" and ?pid = "p_pid (curproc s)"
  let ?b = "(?B ! i)\<lparr>b_dev := ROOTDEV, b_blockno := b, b_valid := True, b_refcnt := rc,
    b_lock := (b_lock (?B ! i))\<lparr>sl_locked := True, sl_pid := ?pid\<rparr>, b_data := sview s b\<rparr>"
  have o: "bc_ok L H ?pid ?B (disk s)" and q: "quiet s" using ok by (simp_all add: bok_def)
  have len: "i < length ?B" using bc_okD(6) [OF o] i by simp
  have "buf_ok L (insert b H) ?pid (disk s) ?b"
    using bview_length [OF o, of b] ref by (simp add: buf_ok_def sview_def)
  then have 1: "one_buf L H ?pid ?B (disk s) (?B[i := ?b]) b i L (insert b H)"
    by (intro one_buf_update [OF o i]) (use only rec in simp_all)
  have "bread ROOTDEV b s = Ok (i, s\<lparr>bufs := ?B[i := ?b]\<rparr>)"
    unfolding bread_def get using free len inv
    by (cases v) (auto simp: block_lock_def acquiresleep_def set_buf_def disk_rw_def Let_def
        intro!: arg_cong [where f = "\<lambda>x. s\<lparr>bufs := (bufs s)[i := x]\<rparr>"] buf.equality)
  moreover have "cached (?B[i := ?b]) c j" if "c \<in> H \<union> L" "cached ?B c j" for c j
    using that rec [of c] by (cases "c = b") (auto simp: cached_new [OF 1] dest: only)
  moreover have "bview (?B[i := ?b]) (disk s) = bview ?B (disk s)"
    using one_buf_upd [OF 1] len by (simp add: sview_def)
  ultimately show ?thesis using one_buf_ok [OF 1] one_bufD(3) [OF 1] q
    by (intro exI [of _ "?B[i := ?b]"]) (simp add: bok_def sview_def)
qed

definition bread_post :: "uint set \<Rightarrow> uint set \<Rightarrow> uint \<Rightarrow> 'a bstate_scheme \<Rightarrow> nat \<Rightarrow> buf list \<Rightarrow> bool" where
  "bread_post L H b s i B \<longleftrightarrow> bread ROOTDEV b s = Ok (i, s\<lparr>bufs := B\<rparr>) \<and> bok L (insert b H) (s\<lparr>bufs := B\<rparr>) \<and>
    sview (s\<lparr>bufs := B\<rparr>) = sview s \<and> cached B b i \<and> (\<forall>c \<in> H \<union> L. \<forall>j. cached (bufs s) c j \<longrightarrow> cached B c j) \<and>
    same_links (bufs s) B"

lemma bread_hit:
  assumes ok: "bok L H s" and b: "b \<notin> H" and l: "lru (bufs s) xs" and i: "cached (bufs s) b i"
  shows "\<exists>B. bread_post L H b s i B"
proof -
  let ?B = "bufs s"
  have o: "bc_ok L H (p_pid (curproc s)) ?B (disk s)" using ok by (simp add: bok_def)
  have c: "i < NBUF" "b_dev (?B ! i) = ROOTDEV" "b_blockno (?B ! i) = b" using i by (simp_all add: cached_def)
  have only: "j = i" if "cached ?B b j" for j by (rule bc_okD(3) [OF o that i])
  have bo: "buf_ok L H (p_pid (curproc s)) (disk s) (?B ! i)" by (rule bc_okD(2) [OF o c(1)])
  have xs: "set xs = {..<NBUF}" using l by (simp add: lru_def)
  have f: "find (\<lambda>j. b_dev (?B ! j) = ROOTDEV \<and> b_blockno (?B ! j) = b) xs = Some i" (is "find ?P xs = _")
  proof (cases "find ?P xs")
    case None
    then show ?thesis using c xs by (auto simp: find_None_iff)
  next
    case (Some j)
    then have "?P j" "j \<in> set xs" by (auto simp: find_Some_iff)
    then have "cached ?B b j" using xs by (auto simp: cached_def)
    with Some show ?thesis using only by simp
  qed
  have "(?B ! i)\<lparr>b_refcnt := b_refcnt (?B ! i) + 1\<rparr> = (?B ! i)\<lparr>b_dev := ROOTDEV, b_blockno := b,
      b_valid := b_valid (?B ! i), b_refcnt := b_refcnt (?B ! i) + 1\<rparr>"
    using c by (intro buf.equality) simp_all
  then have g: "bget ROOTDEV b s = block_lock i (set_buf i (\<lambda>x. x\<lparr>b_dev := ROOTDEV, b_blockno := b,
      b_valid := b_valid (?B ! i), b_refcnt := b_refcnt (?B ! i) + 1\<rparr>) s)"
    by (simp only: bget_def lru_scan_next [OF l] f set_buf_def bindr.simps option.case)
  show ?thesis unfolding bread_post_def
  proof (rule bread_new [OF ok c(1) _ only _ _ _ _ _ _ g])
    show "\<not> sl_locked (b_lock (?B ! i))" "b_refcnt (?B ! i) + 1 = 1 + of_bool (b \<in> L)" "b \<in> L \<Longrightarrow> b_valid (?B ! i)"
      using bo c b by (simp_all add: buf_ok_def ROOTDEV_def)
    show "c' \<notin> H \<union> L" if "c' \<noteq> b" "cached ?B c' i" for c' using that c by (simp add: cached_def)
    show "b_valid (?B ! i) \<Longrightarrow> cached ?B b i \<and> b_valid (?B ! i)" using i by simp
    show "b_valid (?B ! i) \<Longrightarrow> sview s b = b_data (?B ! i)" using bview_cached [OF o i] by (simp add: sview_def)
    show "sview s b = disk s b" if "\<not> b_valid (?B ! i)"
      unfolding sview_def by (rule bview_uncached) (use only that in blast)
  qed
qed

lemma bread_miss:
  assumes ok: "bok L H s" and b: "\<And>i. \<not> cached (bufs s) b i" and l: "lru (bufs s) xs"
    and fin: "finite (H \<union> L)" "card (H \<union> L) < NBUF"
  shows "\<exists>i B. find (\<lambda>j. b_refcnt (bufs s ! j) = 0) (rev xs) = Some i \<and> bread_post L H b s i B"
proof -
  let ?B = "bufs s"
  have o: "bc_ok L H (p_pid (curproc s)) ?B (disk s)" using ok by (simp add: bok_def)
  have xs: "set xs = {..<NBUF}" using l by (simp add: lru_def)
  have n: "find (\<lambda>j. b_dev (?B ! j) = ROOTDEV \<and> b_blockno (?B ! j) = b) xs = None"
    using b xs by (auto simp: find_None_iff cached_def)
  obtain i where i: "find (\<lambda>j. b_refcnt (?B ! j) = 0) (rev xs) = Some i"
    using free_buffer [OF o fin] xs
    by (cases "find (\<lambda>j. b_refcnt (?B ! j) = 0) (rev xs)") (auto simp: find_None_iff)
  then have "b_refcnt (?B ! i) = 0" "i \<in> set (rev xs)" by (auto simp: find_Some_iff simp del: set_rev)
  then have c: "i < NBUF" "b_refcnt (?B ! i) = 0" using xs by simp_all
  have bo: "buf_ok L H (p_pid (curproc s)) (disk s) (?B ! i)" by (rule bc_okD(2) [OF o c(1)])
  have g: "bget ROOTDEV b s = block_lock i (set_buf i (\<lambda>x. x\<lparr>b_dev := ROOTDEV, b_blockno := b,
      b_valid := False, b_refcnt := 1\<rparr>) s)"
    by (simp only: bget_def lru_scan_next [OF l] lru_scan_prev [OF l] n i bindr.simps option.case)
  have nl: "b \<notin> L" using bc_okD(4) [OF o, of b] b by blast
  have "\<exists>B. bread_post L H b s i B" unfolding bread_post_def
  proof (rule bread_new [OF ok c(1) _ _ _ _ _ _ _ _ g])
    show "\<not> sl_locked (b_lock (?B ! i))" using refcnt_0_iff [OF bo] c(2) bo by (auto simp: buf_ok_def)
    show "c' \<notin> H \<union> L" if "c' \<noteq> b" "cached ?B c' i" for c'
      using refcnt_0_iff [OF bo] c(2) that by (auto simp: cached_def)
    show "sview s b = disk s b" unfolding sview_def by (rule bview_uncached) (use b in blast)
  qed (use b nl in simp_all)
  with i show ?thesis by blast
qed

lemma bread_ok:
  assumes "bok L H s" "b \<notin> H" "finite (H \<union> L)" "card (H \<union> L) < NBUF"
  obtains i B where "bread_post L H b s i B"
proof -
  obtain xs where "lru (bufs s) xs" using bc_okD(1) [OF assms(1) [unfolded bok_def, THEN conjunct1]] by blast
  then show ?thesis using bread_hit [OF assms(1,2)] bread_miss [OF assms(1) _ _ assms(3,4)] that by blast
qed

section \<open>Boot\<close>

text \<open>Static storage starts out zeroed; \<^verbatim>\<open>binit\<close> makes the list of it.\<close>

definition zero_buf :: "buf \<Rightarrow> bool" where
  "zero_buf b \<longleftrightarrow> b_dev b = 0 \<and> \<not> b_valid b \<and> b_refcnt b = 0 \<and> \<not> sl_locked (b_lock b) \<and> length (b_data b) = BSIZE"

lemma zero_buf_core: "core b = core c \<Longrightarrow> zero_buf b = zero_buf c"
  by (drule core_eq) (simp add: zero_buf_def)

lemma binit_zero:
  assumes "list_all zero_buf bs"
  shows "list_all zero_buf (fold (\<lambda>i bs. link_front i (bs[i := (bs ! i)\<lparr>b_lock := initsleeplock\<rparr>])) is bs)"
  using assms
proof (induction "is" arbitrary: bs)
  case (Cons i "is")
  let ?C = "bs[i := (bs ! i)\<lparr>b_lock := initsleeplock\<rparr>]"
  have "zero_buf (?C ! j)" if "j < length bs" for j
    using Cons.prems that by (cases "i = j") (simp_all add: list_all_length zero_buf_def initsleeplock_def)
  then have "list_all zero_buf (link_front i ?C)"
    using zero_buf_core [OF link_front_core(1)] by (simp add: list_all_length)
  then show ?case using Cons.IH by simp
qed simp

lemma binit_ok:
  assumes "length (bufs s) = Suc NBUF" "list_all zero_buf (bufs s)" "\<And>b. length (disk s b) = BSIZE" "quiet s"
  shows "bok {} {} (binit s) \<and> sview (binit s) = disk s"
proof -
  let ?b = "(bufs s)[NBUF := (bufs s ! NBUF)\<lparr>b_prev := NBUF, b_next := NBUF\<rparr>]"
  have "zero_buf ((bufs s ! NBUF)\<lparr>b_prev := NBUF, b_next := NBUF\<rparr>)"
    using assms(1,2) by (simp add: list_all_length zero_buf_def)
  then have "list_all zero_buf ?b" by (rule list_all_update [OF assms(2)])
  then have z: "list_all zero_buf (bufs (binit s))" using binit_zero by (simp add: binit_def Let_def)
  have l: "lru (bufs (binit s)) (rev [0..<NBUF])" by (rule binit_lru [OF assms(1)])
  then have "length (bufs (binit s)) = Suc NBUF" by (simp add: lru_def dll_def)
  with z have zi: "zero_buf (bufs (binit s) ! i)" if "i < NBUF" for i using that by (simp add: list_all_length)
  then have c: "\<not> cached (bufs (binit s)) b i" for b i by (auto simp: cached_def zero_buf_def ROOTDEV_def)
  have s: "disk (binit s) = disk s" "quiet (binit s) = quiet s" by (simp_all add: binit_def Let_def)
  have "bc_ok {} {} p (bufs (binit s)) (disk s)" for p
    unfolding bc_ok_def using l c assms(3) zi by (auto simp: buf_ok_def zero_buf_def)
  moreover have "sview (binit s) = disk s" using bview_uncached [of "bufs (binit s)"] c s by (auto simp: sview_def)
  ultimately show ?thesis using s assms(4) by (simp add: bok_def)
qed

section \<open>Properties\<close>

text \<open>
  Claim C7. \<^verbatim>\<open>bread\<close> returns a buffer with the logical contents of the block: the buffer that
  caches the block if there is one, else the least recently used buffer that nobody refers to,
  which exists as long as fewer than \<open>NBUF\<close> blocks are held or pinned.  \<^verbatim>\<open>brelse\<close> then makes
  it the most recently used one unless it is pinned.  Neither changes the contents of any block.
\<close>

theorem bread_brelse_lru:
  assumes "bok L H s" "lru (bufs s) xs" "b \<notin> H" "finite (H \<union> L)" "card (H \<union> L) < NBUF"
  shows "\<exists>i s1 s2. bread ROOTDEV b s = Ok (i, s1) \<and> b_data (bufs s1 ! i) = sview s b \<and>
    (if \<exists>j. cached (bufs s) b j then cached (bufs s) b i
     else find (\<lambda>j. b_refcnt (bufs s ! j) = 0) (rev xs) = Some i) \<and>
    brelse i s1 = Ok s2 \<and> bok L H s2 \<and> sview s2 = sview s \<and> disk s2 = disk s \<and>
    lru (bufs s2) (if b \<in> L then xs else i # remove1 i xs)"
proof -
  obtain i B where p: "bread_post L H b s i B" and w: "if \<exists>j. cached (bufs s) b j then cached (bufs s) b i
      else find (\<lambda>j. b_refcnt (bufs s ! j) = 0) (rev xs) = Some i"
  proof (cases "\<exists>j. cached (bufs s) b j")
    case True
    then show ?thesis using bread_hit [OF assms(1,3,2)] that by auto
  next
    case False
    then show ?thesis using bread_miss [OF assms(1) _ assms(2,4,5), of b] that by auto
  qed
  let ?s = "s\<lparr>bufs := B\<rparr>"
  have r: "bread ROOTDEV b s = Ok (i, ?s)" "bok L (insert b H) ?s" "sview ?s = sview s" "cached B b i" "lru B xs"
    using p assms(2) by (simp_all add: bread_post_def lru_cong [of "bufs s" B])
  have d: "b_data (B ! i) = sview s b"
    using held_buf(6) [of L "insert b H" _ B "disk s" b i] r by (auto simp: bok_def sview_def)
  have "b \<in> L \<or> sview ?s b = disk ?s b"
    using bview_clean [of L H _ "bufs s" "disk s" b] assms(1,3) r(3) by (auto simp: bok_def sview_def)
  from brelse_ok [OF r(2) _ _ this] r(4) obtain C where "brelse i ?s = Ok (?s\<lparr>bufs := C\<rparr>)"
    "bok L (insert b H - {b}) (?s\<lparr>bufs := C\<rparr>)" "sview (?s\<lparr>bufs := C\<rparr>) = sview ?s"
    "lru C (if b \<in> L then xs else i # remove1 i xs)" using r(5) by auto
  then show ?thesis using r d w assms(3) by (intro exI [of _ i] exI [of _ ?s] exI [of _ "s\<lparr>bufs := C\<rparr>"]) simp
qed

definition boot_bufs :: bstate where
  "boot_bufs = pstate.extend one_proc \<lparr>bufs = replicate (Suc NBUF) \<lparr>b_valid = False, b_dev = 0, b_blockno = 0,
     b_lock = initsleeplock, b_refcnt = 0, b_prev = 0, b_next = 0, b_data = replicate BSIZE 0\<rparr>,
   disk = (\<lambda>_. replicate BSIZE 0), dtrace = []\<rparr>"

lemma boot_bufs_ok: "bok {} {} (binit boot_bufs) \<and> sview (binit boot_bufs) = disk boot_bufs"
  by (rule binit_ok)
    (simp_all add: boot_bufs_def pstate.defs zero_buf_def initsleeplock_def list_all_iff quiet_def no_sleeper_def
      one_proc_def fresh_proc_def)

theorem bread_brelse_lru_witness:
  "\<exists>i s1. bread ROOTDEV 7 (binit boot_bufs) = Ok (i, s1) \<and> b_data (bufs s1 ! i) = sview (binit boot_bufs) 7"
  using bread_brelse_lru [of "{}" "{}" "binit boot_bufs" "rev [0..<NBUF]" 7] boot_bufs_ok binit_lru [of boot_bufs]
  by (auto simp: boot_bufs_def pstate.defs NBUF_def)

end
