(* ===== verification/Bytes.thy ===== *)
theory Bytes
  imports Bcache
begin

text \<open>
  Fields inside a block: reading and storing bytes and little-endian integers at an offset, as
  the code does through \<^verbatim>\<open>struct\<close> pointers into \<^verbatim>\<open>b->data\<close>.
\<close>

named_theorems byte_simps "reads after stores inside a block"

definition getb :: "block \<Rightarrow> nat \<Rightarrow> nat \<Rightarrow> uchar list" where
  "getb d off n = take n (drop off d)"

definition putb :: "block \<Rightarrow> nat \<Rightarrow> uchar list \<Rightarrow> block" where
  "putb d off bs = take off d @ bs @ drop (off + length bs) d"

definition get16 :: "block \<Rightarrow> nat \<Rightarrow> ushort" where "get16 d off = of_le (getb d off 2)"
definition get32 :: "block \<Rightarrow> nat \<Rightarrow> uint" where "get32 d off = of_le (getb d off 4)"
definition put16 :: "block \<Rightarrow> nat \<Rightarrow> ushort \<Rightarrow> block" where "put16 d off v = putb d off (le_bytes 2 v)"
definition put32 :: "block \<Rightarrow> nat \<Rightarrow> uint \<Rightarrow> block" where "put32 d off v = putb d off (le_bytes 4 v)"

lemma length_putb [simp, byte_simps]: "off + length bs \<le> length d \<Longrightarrow> length (putb d off bs) = length d"
  by (simp add: putb_def)

lemma length_put32 [simp, byte_simps]: "off + 4 \<le> length d \<Longrightarrow> length (put32 d off v) = length d"
  by (simp add: put32_def)

lemma length_put16 [simp, byte_simps]: "off + 2 \<le> length d \<Longrightarrow> length (put16 d off v) = length d"
  by (simp add: put16_def)

lemma length_getb [simp]: "off + n \<le> length d \<Longrightarrow> length (getb d off n) = n"
  by (simp add: getb_def)

lemma nth_getb: "off + n \<le> length d \<Longrightarrow> i < n \<Longrightarrow> getb d off n ! i = d ! (off + i)"
  by (simp add: getb_def)

lemma nth_putb:
  assumes "off + length bs \<le> length d" "i < length d"
  shows "putb d off bs ! i = (if off \<le> i \<and> i < off + length bs then bs ! (i - off) else d ! i)"
  using assms by (auto simp: putb_def nth_append min_def)

lemma getb_putb_same [simp, byte_simps]:
  "off + length bs \<le> length d \<Longrightarrow> n = length bs \<Longrightarrow> getb (putb d off bs) off n = bs"
  by (simp add: getb_def putb_def)

lemma getb_putb_other [byte_simps]:
  assumes "off + length bs \<le> length d" "off' + n \<le> length d" "off' + n \<le> off \<or> off + length bs \<le> off'"
  shows "getb (putb d off bs) off' n = getb d off' n"
  using assms by (intro nth_equalityI) (auto simp: nth_getb nth_putb)

lemma get32_put32_same [simp, byte_simps]: "off + 4 \<le> length d \<Longrightarrow> get32 (put32 d off v) off = v"
  by (simp add: get32_def put32_def)

lemma get16_put16_same [simp, byte_simps]: "off + 2 \<le> length d \<Longrightarrow> get16 (put16 d off v) off = v"
  by (simp add: get16_def put16_def)

lemma get32_putb_other [byte_simps]:
  "off + length bs \<le> length d \<Longrightarrow> off' + 4 \<le> length d \<Longrightarrow> off' + 4 \<le> off \<or> off + length bs \<le> off' \<Longrightarrow>
    get32 (putb d off bs) off' = get32 d off'"
  by (simp add: get32_def getb_putb_other)

lemma get16_putb_other [byte_simps]:
  "off + length bs \<le> length d \<Longrightarrow> off' + 2 \<le> length d \<Longrightarrow> off' + 2 \<le> off \<or> off + length bs \<le> off' \<Longrightarrow>
    get16 (putb d off bs) off' = get16 d off'"
  by (simp add: get16_def getb_putb_other)

lemma get32_put32_other [byte_simps]:
  "off + 4 \<le> length d \<Longrightarrow> off' + 4 \<le> length d \<Longrightarrow> off' + 4 \<le> off \<or> off + 4 \<le> off' \<Longrightarrow>
    get32 (put32 d off v) off' = get32 d off'"
  by (simp add: put32_def get32_putb_other)

text \<open>Arrays of integers: \<open>n\<close> 32-bit words from offset \<open>off\<close>.\<close>

definition get32s :: "block \<Rightarrow> nat \<Rightarrow> nat \<Rightarrow> uint list" where
  "get32s d off n = map (\<lambda>i. get32 d (off + 4 * i)) [0..<n]"

primrec put32s :: "block \<Rightarrow> nat \<Rightarrow> uint list \<Rightarrow> block" where
  "put32s d off [] = d"
| "put32s d off (v # vs) = put32s (put32 d off v) (off + 4) vs"

lemma length_get32s [simp]: "length (get32s d off n) = n"
  by (simp add: get32s_def)

lemma length_put32s [simp, byte_simps]: "off + 4 * length vs \<le> length d \<Longrightarrow> length (put32s d off vs) = length d"
  by (induction vs arbitrary: d off) auto

lemma get32_put32s_before [byte_simps]:
  "off' + 4 \<le> off \<Longrightarrow> off + 4 * length vs \<le> length d \<Longrightarrow> get32 (put32s d off vs) off' = get32 d off'"
proof (induction vs arbitrary: d off)
  case (Cons v vs)
  then show ?case by (simp add: get32_put32_other)
qed simp

lemma get32_put32s:
  "off + 4 * length vs \<le> length d \<Longrightarrow> i < length vs \<Longrightarrow> get32 (put32s d off vs) (off + 4 * i) = vs ! i"
proof (induction vs arbitrary: d off i)
  case (Cons v vs)
  show ?case
  proof (cases i)
    case 0
    then show ?thesis using Cons.prems by (simp add: get32_put32s_before)
  next
    case (Suc j)
    then show ?thesis using Cons.IH [of "off + 4" "put32 d off v" j] Cons.prems by (simp add: algebra_simps)
  qed
qed simp

lemma get32s_put32s [simp, byte_simps]:
  "off + 4 * length vs \<le> length d \<Longrightarrow> n = length vs \<Longrightarrow> get32s (put32s d off vs) off n = vs"
  by (intro nth_equalityI) (simp_all add: get32s_def get32_put32s)

end
