(* ===== verification/Log.thy ===== *)
theory Log
  imports Bytes
begin

text \<open>
  The write-ahead log, \<^verbatim>\<open>kernel/log.c\<close>.

  \<^verbatim>\<open>log.lh.n\<close> and the other \<^verbatim>\<open>int\<close> fields are integers; the header block is read and
  written through the cache, byte by byte as \<^verbatim>\<open>struct logheader\<close> lies in it.  A header on disk
  whose count exceeds \<^verbatim>\<open>LOGSIZE\<close> makes \<^verbatim>\<open>read_head\<close> store past the end of
  \<^verbatim>\<open>log.lh.block\<close>; the model stops there with a panic of its own.
\<close>

section \<open>State\<close>

record logst =
  lg_start :: uint
  lg_size :: int
  lg_outstanding :: int
  lg_committing :: bool
  lg_dev :: uint
  lg_n :: int
  lg_block :: "uint list"

record lstate = bstate +
  lg :: logst

definition MAXOPBLOCKS :: int where "MAXOPBLOCKS = 10"
definition LOGSIZE :: nat where "LOGSIZE = 30"

section \<open>Moving blocks between the log and their homes\<close>

definition install_trans_step :: "bool \<Rightarrow> nat \<Rightarrow> 'a lstate_scheme \<Rightarrow> 'a lstate_scheme res" where
  "install_trans_step recovering tail s =
    bindr (bread (lg_dev (lg s)) (lg_start (lg s) + of_nat tail + 1) s) (\<lambda>(lbuf, s).
    bindr (bread (lg_dev (lg s)) (lg_block (lg s) ! tail) s) (\<lambda>(dbuf, s).
    bindr (bwrite dbuf (bset dbuf (b_data (bufs s ! lbuf)) s)) (\<lambda>s.
    bindr (brelse lbuf (if recovering then s else bunpin dbuf s)) (\<lambda>s.
    brelse dbuf s))))"

definition install_trans :: "bool \<Rightarrow> 'a lstate_scheme \<Rightarrow> 'a lstate_scheme res" where
  "install_trans recovering s = foreach (install_trans_step recovering) [0..<nat (lg_n (lg s))] s"

definition read_head :: "'a lstate_scheme \<Rightarrow> 'a lstate_scheme res" where
  "read_head s =
    bindr (bread (lg_dev (lg s)) (lg_start (lg s)) s) (\<lambda>(b, s).
    let d = b_data (bufs s ! b); n = sint (get32 d 0) in
    if int LOGSIZE < n then Panic ''read_head: block index out of range''
    else brelse b (s\<lparr>lg := (lg s)\<lparr>lg_n := n,
        lg_block := get32s d 4 (nat n) @ drop (nat n) (lg_block (lg s))\<rparr>\<rparr>))"

definition write_head :: "'a lstate_scheme \<Rightarrow> 'a lstate_scheme res" where
  "write_head s =
    bindr (bread (lg_dev (lg s)) (lg_start (lg s)) s) (\<lambda>(b, s).
    let d = put32s (put32 (b_data (bufs s ! b)) 0 (of_int (lg_n (lg s)))) 4 (take (nat (lg_n (lg s))) (lg_block (lg s))) in
    bindr (bwrite b (bset b d s)) (\<lambda>s.
    brelse b s))"

definition recover_from_log :: "'a lstate_scheme \<Rightarrow> 'a lstate_scheme res" where
  "recover_from_log s =
    bindr (read_head s) (\<lambda>s.
    bindr (install_trans True s) (\<lambda>s.
    write_head (s\<lparr>lg := (lg s)\<lparr>lg_n := 0\<rparr>\<rparr>)))"

definition initlog :: "uint \<Rightarrow> uint \<Rightarrow> uint \<Rightarrow> 'a lstate_scheme \<Rightarrow> 'a lstate_scheme res" where
  "initlog dev logstart nlog s =
    (if 4 * (LOGSIZE + 1) \<ge> BSIZE then Panic ''initlog: too big logheader''
     else recover_from_log (s\<lparr>lg := (lg s)\<lparr>lg_start := logstart, lg_size := sint nlog, lg_dev := dev\<rparr>\<rparr>))"

definition write_log_step :: "nat \<Rightarrow> 'a lstate_scheme \<Rightarrow> 'a lstate_scheme res" where
  "write_log_step tail s =
    bindr (bread (lg_dev (lg s)) (lg_start (lg s) + of_nat tail + 1) s) (\<lambda>(to, s).
    bindr (bread (lg_dev (lg s)) (lg_block (lg s) ! tail) s) (\<lambda>(from, s).
    bindr (bwrite to (bset to (b_data (bufs s ! from)) s)) (\<lambda>s.
    bindr (brelse from s) (\<lambda>s.
    brelse to s))))"

definition write_log :: "'a lstate_scheme \<Rightarrow> 'a lstate_scheme res" where
  "write_log s = foreach write_log_step [0..<nat (lg_n (lg s))] s"

definition commit :: "'a lstate_scheme \<Rightarrow> 'a lstate_scheme res" where
  "commit s =
    (if lg_n (lg s) > 0 then
       bindr (write_log s) (\<lambda>s.
       bindr (write_head s) (\<lambda>s.
       bindr (install_trans False s) (\<lambda>s.
       write_head (s\<lparr>lg := (lg s)\<lparr>lg_n := 0\<rparr>\<rparr>))))
     else Ok s)"

section \<open>Transactions\<close>

text \<open>
  \<^verbatim>\<open>begin_op\<close> either admits the operation or sleeps on \<^verbatim>\<open>&log\<close> and tries again.
\<close>

definition begin_op :: "'a lstate_scheme \<Rightarrow> 'a lstate_scheme res" where
  "begin_op s =
    (if lg_committing (lg s) then Block ChLog
     else if lg_n (lg s) + (lg_outstanding (lg s) + 1) * MAXOPBLOCKS > int LOGSIZE then Block ChLog
     else Ok (s\<lparr>lg := (lg s)\<lparr>lg_outstanding := lg_outstanding (lg s) + 1\<rparr>\<rparr>))"

text \<open>
  \<^verbatim>\<open>end_op\<close> up to the release of \<^verbatim>\<open>log.lock\<close> (the flag is \<^verbatim>\<open>do_commit\<close>), and its last
  critical section after \<^verbatim>\<open>commit()\<close>.
\<close>

definition end_op_begin :: "'a lstate_scheme \<Rightarrow> (bool \<times> 'a lstate_scheme) res" where
  "end_op_begin s =
    (let s = s\<lparr>lg := (lg s)\<lparr>lg_outstanding := lg_outstanding (lg s) - 1\<rparr>\<rparr> in
     if lg_committing (lg s) then Panic ''log.committing''
     else if lg_outstanding (lg s) = 0 then Ok (True, s\<lparr>lg := (lg s)\<lparr>lg_committing := True\<rparr>\<rparr>)
     else Ok (False, wakeup ChLog s))"

definition end_op_done :: "'a lstate_scheme \<Rightarrow> 'a lstate_scheme" where
  "end_op_done s = wakeup ChLog (s\<lparr>lg := (lg s)\<lparr>lg_committing := False\<rparr>\<rparr>)"

definition end_op :: "'a lstate_scheme \<Rightarrow> 'a lstate_scheme res" where
  "end_op s =
    bindr (end_op_begin s) (\<lambda>(do_commit, s).
    if do_commit then bindr (commit s) (\<lambda>s. Ok (end_op_done s)) else Ok s)"

definition log_write :: "nat \<Rightarrow> 'a lstate_scheme \<Rightarrow> 'a lstate_scheme res" where
  "log_write b s =
    (let l = lg s; n = nat (lg_n l); bn = b_blockno (bufs s ! b) in
     if lg_n l \<ge> int LOGSIZE \<or> lg_n l \<ge> lg_size l - 1 then Panic ''too big a transaction''
     else if lg_outstanding l < 1 then Panic ''log_write outside of trans''
     else
       let i = length (takeWhile (\<lambda>x. x \<noteq> bn) (take n (lg_block l)));
           s = s\<lparr>lg := l\<lparr>lg_block := (lg_block l)[i := bn]\<rparr>\<rparr>
       in Ok (if i = n then (bpin b s)\<lparr>lg := (lg s)\<lparr>lg_n := lg_n (lg s) + 1\<rparr>\<rparr> else s))"

section \<open>Copying one block\<close>

definition bwr :: "'a bstate_scheme \<Rightarrow> buf list \<Rightarrow> (uint \<Rightarrow> block) \<Rightarrow> (uint \<times> block) list \<Rightarrow> 'a bstate_scheme" where
  "bwr s B d t = s\<lparr>bufs := B, disk := d, dtrace := t\<rparr>"

lemma bwr_simps [simp]:
  "bwr (bwr s B d t) B' d' t' = bwr s B' d' t'" "bufs (bwr s B d t) = B" "disk (bwr s B d t) = d"
  "dtrace (bwr s B d t) = t" "curproc (bwr s B d t) = curproc s" "quiet (bwr s B d t) = quiet s"
  "procs (bwr s B d t) = procs s" "pmem (bwr s B d t) = pmem s" "bstate.more (bwr s B d t) = bstate.more s"
  by (simp_all add: bwr_def)

lemma lg_bwr [simp]: "lg (bwr s B d t) = lg s"
  by (simp add: bwr_def)

lemma bufs_bwr: "s\<lparr>bufs := B\<rparr> = bwr s B (disk s) (dtrace s)"
  by (simp add: bwr_def)

lemma bset_bwr: "bset i x s = bwr s (bufs (bset i x s)) (disk s) (dtrace s)"
  by (simp add: bwr_def bset_def set_buf_def)

lemma bunpin_bwr: "bunpin i s = bwr s (bufs (bunpin i s)) (disk s) (dtrace s)"
  by (simp add: bwr_def bunpin_def set_buf_def)

lemma bok_bc: "bok L H s \<Longrightarrow> bc_ok L H (p_pid (curproc s)) (bufs s) (disk s)"
  by (simp add: bok_def)

text \<open>
  \<open>held L H b s s' i\<close>: what a call of \<^verbatim>\<open>bread\<close> leaves; \<open>changed\<close> is the frame of all block
  operations.
\<close>

definition changed :: "'a bstate_scheme \<Rightarrow> 'a bstate_scheme \<Rightarrow> bool" where
  "changed s s' \<longleftrightarrow> s' = bwr s (bufs s') (disk s') (dtrace s')"

lemma changedI: "s' = bwr s B d t \<Longrightarrow> changed s s'"
  by (simp add: changed_def)

lemma changed_trans: "changed s t \<Longrightarrow> changed t u \<Longrightarrow> changed s u"
  unfolding changed_def by (metis bwr_simps(1))

lemma changed_simps:
  assumes "changed s s'"
  shows "curproc s' = curproc s" "quiet s' = quiet s" "procs s' = procs s" "pmem s' = pmem s" "bstate.more s' = bstate.more s"
  using assms unfolding changed_def by (metis bwr_simps)+

lemma changed_lg: "changed s s' \<Longrightarrow> lg s' = lg s"
  unfolding changed_def by (metis lg_bwr)

lemma bread_held:
  assumes "bok L H s" "b \<notin> H" "finite L" "finite H" "b \<in> L \<or> card (H \<union> L) < NBUF"
  obtains i s' where "bread ROOTDEV b s = Ok (i, s')" "bok L (insert b H) s'" "sview s' = sview s"
    "cached (bufs s') b i" "\<And>c j. c \<in> H \<union> L \<Longrightarrow> cached (bufs s) c j \<Longrightarrow> cached (bufs s') c j"
    "disk s' = disk s" "dtrace s' = dtrace s" "changed s s'" "b_data (bufs s' ! i) = sview s b"
proof -
  obtain xs where l: "lru (bufs s) xs" using bc_okD(1) [OF bok_bc [OF assms(1)]] by blast
  have "\<exists>i B. bread_post L H b s i B"
  proof (cases "\<exists>i. cached (bufs s) b i")
    case True
    then show ?thesis using bread_hit [OF assms(1,2) l] by blast
  next
    case False
    then have "b \<notin> L" using bc_okD(4) [OF bok_bc [OF assms(1)], of b] by blast
    then show ?thesis using bread_miss [OF assms(1) _ l] False assms(3-5) by blast
  qed
  then obtain i B where p: "bread_post L H b s i B" by blast
  note p = p [unfolded bread_post_def]
  have "b_data (B ! i) = sview s b"
    using held_buf(6) [OF bok_bc, of L "insert b H" "s\<lparr>bufs := B\<rparr>" b i] p by (simp add: sview_def)
  then show ?thesis using p that [of i "s\<lparr>bufs := B\<rparr>"] changedI [OF bufs_bwr] by auto
qed

lemma bset_held:
  assumes "bok L H s" "cached (bufs s) b i" "b \<in> H" "length x = BSIZE"
  obtains s' where "bset i x s = s'" "bok L H s'" "sview s' = (sview s)(b := x)" "cached (bufs s') = cached (bufs s)"
    "disk s' = disk s" "dtrace s' = dtrace s" "changed s s'"
  using bset_ok [OF assms] changedI [OF bset_bwr] that by (auto simp: bset_def set_buf_def)

lemma bwrite_held:
  assumes "bok L H s" "cached (bufs s) b i" "b \<in> H"
  obtains s' where "bwrite i s = Ok s'" "bok L H s'" "sview s' = sview s" "cached (bufs s') = cached (bufs s)"
    "disk s' = (disk s)(b := sview s b)" "dtrace s' = dtrace s @ [(b, sview s b)]" "changed s s'"
  using bwrite_ok [OF assms] that by (auto simp: changed_def bwr_def)

lemma brelse_held:
  assumes "bok L H s" "cached (bufs s) b i" "b \<in> H" "b \<in> L \<or> sview s b = disk s b"
  obtains s' where "brelse i s = Ok s'" "bok L (H - {b}) s'" "sview s' = sview s" "cached (bufs s') = cached (bufs s)"
    "disk s' = disk s" "dtrace s' = dtrace s" "changed s s'"
proof -
  from brelse_ok [OF assms] obtain B where "brelse i s = Ok (s\<lparr>bufs := B\<rparr>)" "bok L (H - {b}) (s\<lparr>bufs := B\<rparr>)"
    "sview (s\<lparr>bufs := B\<rparr>) = sview s" "cached B = cached (bufs s)" by blast
  then show ?thesis by (intro that [of "s\<lparr>bufs := B\<rparr>"]) (simp_all add: changedI [OF bufs_bwr])
qed

lemma write_log_step_ok:
  assumes ok: "bok L {} s" and fin: "finite L" "card L < NBUF" and dev: "lg_dev (lg s) = ROOTDEV"
    and to: "lg_start (lg s) + of_nat tail + 1 = to" "to \<notin> L" and fr: "lg_block (lg s) ! tail = src" "src \<in> L"
  shows "\<exists>s'. write_log_step tail s = Ok s' \<and> bok L {} s' \<and> sview s' = (sview s)(to := sview s src) \<and>
    disk s' = (disk s)(to := sview s src) \<and> dtrace s' = dtrace s @ [(to, sview s src)] \<and> changed s s'"
proof -
  have ne: "to \<noteq> src" using to(2) fr(2) by blast
  obtain i s1 where 1: "bread ROOTDEV to s = Ok (i, s1)" "bok L {to} s1" "sview s1 = sview s" "cached (bufs s1) to i"
    "disk s1 = disk s" "dtrace s1 = dtrace s" "changed s s1"
    by (rule bread_held [OF ok, of to]) (use fin in auto)
  obtain j s2 where 2: "bread ROOTDEV src s1 = Ok (j, s2)" "bok L {src, to} s2" "sview s2 = sview s"
    "cached (bufs s2) src j" "cached (bufs s2) to i" "disk s2 = disk s" "dtrace s2 = dtrace s" "changed s1 s2"
    "b_data (bufs s2 ! j) = sview s src"
    by (rule bread_held [OF 1(2), of src]) (use fin fr ne 1 in auto)
  have len: "length (sview s src) = BSIZE" using bview_length [OF bok_bc [OF ok]] by (simp add: sview_def)
  obtain s3 where 3: "bset i (sview s src) s2 = s3" "bok L {src, to} s3" "sview s3 = (sview s)(to := sview s src)"
    "cached (bufs s3) = cached (bufs s2)" "disk s3 = disk s" "dtrace s3 = dtrace s" "changed s2 s3"
    by (rule bset_held [OF 2(2,5) _ len]) (use 2 in auto)
  obtain s4 where 4: "bwrite i s3 = Ok s4" "bok L {src, to} s4" "sview s4 = sview s3" "cached (bufs s4) = cached (bufs s2)"
    "disk s4 = (disk s)(to := sview s src)" "dtrace s4 = dtrace s @ [(to, sview s src)]" "changed s3 s4"
    by (rule bwrite_held [OF 3(2), of to i]) (use 2 3 in auto)
  obtain s5 where 5: "brelse j s4 = Ok s5" "bok L {to} s5" "sview s5 = sview s3" "cached (bufs s5) = cached (bufs s2)"
    "disk s5 = disk s4" "dtrace s5 = dtrace s4" "changed s4 s5"
    by (rule brelse_held [OF 4(2), of src j]) (use 2 4 fr ne in auto)
  obtain s6 where 6: "brelse i s5 = Ok s6" "bok L {} s6" "sview s6 = sview s3" "disk s6 = disk s4" "dtrace s6 = dtrace s4"
    "changed s5 s6"
    by (rule brelse_held [OF 5(2), of to i]) (use 2 3 4 5 in auto)
  have "changed s s6" using 1(7) 2(8) 3(7) 4(7) 5(7) 6(6) by (blast intro: changed_trans)
  moreover have "write_log_step tail s = Ok s6"
    using 1(1) 2(1,9) 3(1) 4(1) 5(1) 6(1) dev to(1) fr(1) changed_lg [OF 1(7)] by (simp add: write_log_step_def)
  ultimately show ?thesis using 3(3) 4(5,6) 6 by simp
qed

lemma install_step_ok:
  assumes ok: "bok L {} s" and fin: "finite L" "card L + (if recovering then 1 else 0) < NBUF" and dev: "lg_dev (lg s) = ROOTDEV"
    and lb: "lg_start (lg s) + of_nat tail + 1 = lb" "lb \<notin> L" and db: "lg_block (lg s) ! tail = db" "db \<noteq> lb" "(db \<in> L) = (\<not> recovering)"
  shows "\<exists>s'. install_trans_step recovering tail s = Ok s' \<and> bok (L - {db}) {} s' \<and> sview s' = (sview s)(db := sview s lb) \<and>
    disk s' = (disk s)(db := sview s lb) \<and> dtrace s' = dtrace s @ [(db, sview s lb)] \<and> changed s s'"
proof -
  obtain i s1 where 1: "bread ROOTDEV lb s = Ok (i, s1)" "bok L {lb} s1" "sview s1 = sview s" "cached (bufs s1) lb i"
    "disk s1 = disk s" "dtrace s1 = dtrace s" "changed s s1"
    by (rule bread_held [OF ok, of lb]) (use fin in auto)
  have cd: "card (insert lb L) = Suc (card L)" using fin(1) lb(2) by simp
  obtain j s2 where 2: "bread ROOTDEV db s1 = Ok (j, s2)" "bok L {db, lb} s2" "sview s2 = sview s"
    "cached (bufs s2) db j" "cached (bufs s2) lb i" "disk s2 = disk s" "dtrace s2 = dtrace s" "changed s1 s2"
    by (rule bread_held [OF 1(2), of db]) (use fin db 1 cd in \<open>auto split: if_splits\<close>)
  have len: "length (sview s lb) = BSIZE" using bview_length [OF bok_bc [OF ok]] by (simp add: sview_def)
  have dat: "b_data (bufs s2 ! i) = sview s lb"
    using held_buf(6) [OF bok_bc [OF 2(2)] 2(5)] 2(3) by (simp add: sview_def)
  have clean: "sview s lb = disk s lb" using bview_clean [OF bok_bc [OF ok]] lb(2) by (simp add: sview_def)
  obtain s3 where 3: "bset j (sview s lb) s2 = s3" "bok L {db, lb} s3" "sview s3 = (sview s)(db := sview s lb)"
    "cached (bufs s3) = cached (bufs s2)" "disk s3 = disk s" "dtrace s3 = dtrace s" "changed s2 s3"
    by (rule bset_held [OF 2(2,4) _ len]) (use 2 in auto)
  obtain s4 where 4: "bwrite j s3 = Ok s4" "bok L {db, lb} s4" "sview s4 = sview s3" "cached (bufs s4) = cached (bufs s2)"
    "disk s4 = (disk s)(db := sview s lb)" "dtrace s4 = dtrace s @ [(db, sview s lb)]" "changed s3 s4"
    by (rule bwrite_held [OF 3(2), of db j]) (use 2 3 in auto)
  define s5 where "s5 = (if recovering then s4 else bunpin j s4)"
  have 5: "bok (L - {db}) {db, lb} s5" "sview s5 = sview s3" "cached (bufs s5) = cached (bufs s2)"
    "disk s5 = disk s4" "dtrace s5 = dtrace s4" "changed s4 s5"
    using bunpin_ok [OF 4(2), of db j] 2(4) 4 db(3) changedI [OF bunpin_bwr [of j s4]] 
    by (auto simp: s5_def bunpin_def set_buf_def changed_def bwr_def)
  have hs: "{db, lb} - {lb} = {db}" using db(2) by auto
  obtain s6 where 6: "brelse i s5 = Ok s6" "bok (L - {db}) {db} s6" "sview s6 = sview s3" "cached (bufs s6) = cached (bufs s2)"
    "disk s6 = disk s4" "dtrace s6 = dtrace s4" "changed s5 s6"
    by (rule brelse_held [OF 5(1), of lb i, unfolded hs]) (use 2(5) 3(3) 4(3,5) 5 clean db(2) in simp_all)
  obtain s7 where 7: "brelse j s6 = Ok s7" "bok (L - {db}) {} s7" "sview s7 = sview s3" "disk s7 = disk s4" "dtrace s7 = dtrace s4"
    "changed s6 s7"
    by (rule brelse_held [OF 6(2), of db j]) (use 2 3 4 6 in auto)
  have "changed s s7" using 1(7) 2(8) 3(7) 4(7) 5(6) 6(7) 7(6) by (blast intro: changed_trans)
  moreover have "install_trans_step recovering tail s = Ok s7"
    using 1(1) 2(1) dat 3(1) 4(1) s5_def 6(1) 7(1) dev lb(1) db(1) changed_lg [OF 1(7)] by (simp add: install_trans_step_def)
  ultimately show ?thesis using 3(3) 4(5,6) 7 by simp
qed

lemma write_head_ok:
  assumes ok: "bok L {} s" and fin: "finite L" "card L < NBUF" and dev: "lg_dev (lg s) = ROOTDEV"
    and st: "lg_start (lg s) \<notin> L" and n: "lg_n (lg s) \<le> int LOGSIZE"
    and h: "h = put32s (put32 (sview s (lg_start (lg s))) 0 (of_int (lg_n (lg s)))) 4 (take (nat (lg_n (lg s))) (lg_block (lg s)))"
  shows "\<exists>s'. write_head s = Ok s' \<and> bok L {} s' \<and> sview s' = (sview s)(lg_start (lg s) := h) \<and>
    disk s' = (disk s)(lg_start (lg s) := h) \<and> dtrace s' = dtrace s @ [(lg_start (lg s), h)] \<and> changed s s'"
proof -
  let ?b = "lg_start (lg s)"
  obtain i s1 where 1: "bread ROOTDEV ?b s = Ok (i, s1)" "bok L {?b} s1" "sview s1 = sview s" "cached (bufs s1) ?b i"
    "disk s1 = disk s" "dtrace s1 = dtrace s" "changed s s1" "b_data (bufs s1 ! i) = sview s ?b"
    by (rule bread_held [OF ok, of ?b]) (use fin in auto)
  have "length (sview s ?b) = BSIZE" using bview_length [OF bok_bc [OF ok]] by (simp add: sview_def)
  then have len: "length h = BSIZE" using n by (simp add: h BSIZE_def LOGSIZE_def)
  obtain s3 where 3: "bset i h s1 = s3" "bok L {?b} s3" "sview s3 = (sview s)(?b := h)"
    "cached (bufs s3) = cached (bufs s1)" "disk s3 = disk s" "dtrace s3 = dtrace s" "changed s1 s3"
    by (rule bset_held [OF 1(2,4) _ len]) (use 1 in auto)
  obtain s4 where 4: "bwrite i s3 = Ok s4" "bok L {?b} s4" "sview s4 = sview s3" "cached (bufs s4) = cached (bufs s1)"
    "disk s4 = (disk s)(?b := h)" "dtrace s4 = dtrace s @ [(?b, h)]" "changed s3 s4"
    by (rule bwrite_held [OF 3(2), of ?b i]) (use 1 3 in auto)
  obtain s5 where 5: "brelse i s4 = Ok s5" "bok L {} s5" "sview s5 = sview s3" "disk s5 = disk s4" "dtrace s5 = dtrace s4"
    "changed s4 s5"
    by (rule brelse_held [OF 4(2), of ?b i]) (use 1 3 4 in auto)
  have "changed s s5" using 1(7) 3(7) 4(7) 5(6) by (blast intro: changed_trans)
  moreover have "write_head s = Ok s5"
    using 1(1,8) 3(1) 4(1) 5(1) dev changed_lg [OF 1(7)] by (simp add: write_head_def Let_def h)
  ultimately show ?thesis using 3(3) 4(5,6) 5 by simp
qed

end
