(* ===== verification/Crash.thy ===== *)
theory Crash
  imports Log
begin

text \<open>
  Crash safety of the log.  The disk after a crash is the disk before the commit with some
  prefix of the commit's block writes applied (a block write is atomic and writes reach the disk
  in order).  What the file system sees after the next boot is \<open>recovered\<close>: the blocks of the
  log copied to the homes that the header names.
\<close>

section \<open>Disks and writes\<close>

type_synonym disk = "uint \<Rightarrow> block"

definition wr :: "(uint \<times> block) list \<Rightarrow> disk \<Rightarrow> disk" where
  "wr tr d = fold (\<lambda>(b, x) d. d(b := x)) tr d"

definition logblk :: "uint \<Rightarrow> nat \<Rightarrow> uint" where
  "logblk start i = start + of_nat i + 1"

definition log_area :: "uint \<Rightarrow> uint set" where
  "log_area start = insert start (logblk start ` {..<LOGSIZE})"

definition hdr_n :: "block \<Rightarrow> nat" where
  "hdr_n h = nat (sint (get32 h 0))"

definition hdr_blocks :: "block \<Rightarrow> uint list" where
  "hdr_blocks h = get32s h 4 (hdr_n h)"

definition log_writes :: "uint \<Rightarrow> disk \<Rightarrow> (uint \<times> block) list" where
  "log_writes start d = map (\<lambda>i. (hdr_blocks (d start) ! i, d (logblk start i))) [0..<hdr_n (d start)]"

definition recovered :: "uint \<Rightarrow> disk \<Rightarrow> disk" where
  "recovered start d = wr (log_writes start d) d"

text \<open>Two disks hold the same data: they agree outside the log.\<close>

definition same_data :: "uint \<Rightarrow> disk \<Rightarrow> disk \<Rightarrow> bool" where
  "same_data start d d' \<longleftrightarrow> (\<forall>b. b \<notin> log_area start \<longrightarrow> d b = d' b)"

lemma wr_Nil [simp]: "wr [] d = d"
  by (simp add: wr_def)

lemma wr_Cons [simp]: "wr ((b, x) # tr) d = wr tr (d(b := x))"
  by (simp add: wr_def)

lemma wr_append [simp]: "wr (xs @ ys) d = wr ys (wr xs d)"
  by (simp add: wr_def)

lemma wr_other: "b \<notin> fst ` set tr \<Longrightarrow> wr tr d b = d b"
proof (induction tr arbitrary: d)
  case (Cons p tr)
  then show ?case by (cases p) auto
qed simp

lemma wr_indep: "b \<in> fst ` set tr \<Longrightarrow> wr tr d b = wr tr d' b"
proof (induction tr arbitrary: d d')
  case (Cons p tr)
  then show ?case by (cases p; cases "b \<in> fst ` set tr") (auto simp: wr_other)
qed simp

lemma wr_absorb:
  assumes "fst ` set xs \<subseteq> fst ` set tr"
  shows "wr tr (wr xs d) = wr tr d"
proof
  fix b
  show "wr tr (wr xs d) b = wr tr d b"
    using assms wr_indep [of b tr] wr_other [of b tr] wr_other [of b xs d] by (cases "b \<in> fst ` set tr") auto
qed

lemma wr_distinct:
  assumes "distinct (map fst tr)" "(b, x) \<in> set tr"
  shows "wr tr d b = x"
  using assms
proof (induction tr arbitrary: d)
  case (Cons p tr)
  then show ?case by (cases p) (auto simp: wr_other image_iff)
qed simp

text \<open>A header with \<open>n \<le> LOGSIZE\<close> blocks, none of which lies in the log.\<close>

definition hdr_ok :: "uint \<Rightarrow> block \<Rightarrow> bool" where
  "hdr_ok start h \<longleftrightarrow> sint (get32 h 0) \<le> int LOGSIZE \<and> set (hdr_blocks h) \<inter> log_area start = {}"

lemma length_hdr_blocks [simp]: "length (hdr_blocks h) = hdr_n h"
  by (simp add: hdr_blocks_def)

lemma log_writes_homes: "fst ` set (log_writes start d) = set (hdr_blocks (d start))"
  using nth_image [of "hdr_n (d start)" "hdr_blocks (d start)"] by (simp add: log_writes_def image_image)

lemma hdr_ok_n: "hdr_ok start h \<Longrightarrow> hdr_n h \<le> LOGSIZE"
  by (auto simp: hdr_ok_def hdr_n_def)

lemma logblk_area: "i < LOGSIZE \<Longrightarrow> logblk start i \<in> log_area start"
  by (simp add: log_area_def)

lemma start_area: "start \<in> log_area start"
  by (simp add: log_area_def)

text \<open>Copying some of the logged blocks home does not change what recovery gives.\<close>

lemma log_writes_cong:
  assumes "d' start = d start" "\<And>i. i < hdr_n (d start) \<Longrightarrow> d' (logblk start i) = d (logblk start i)"
  shows "log_writes start d' = log_writes start d"
  using assms by (simp add: log_writes_def)

lemma recovered_prefix:
  assumes "hdr_ok start (d start)"
  shows "recovered start (wr (take k (log_writes start d)) d) = recovered start d"
proof -
  let ?I = "take k (log_writes start d)"
  have sub: "fst ` set ?I \<subseteq> set (hdr_blocks (d start))"
    using log_writes_homes [of start d] set_take_subset [of k "log_writes start d"] by blast
  then have "wr ?I d b = d b" if "b \<in> log_area start" for b
    using that assms by (intro wr_other) (auto simp: hdr_ok_def)
  then have "log_writes start (wr ?I d) = log_writes start d"
    using hdr_ok_n [OF assms] by (intro log_writes_cong) (auto intro: start_area logblk_area [OF less_le_trans])
  moreover have "fst ` set ?I \<subseteq> fst ` set (log_writes start d)" using sub log_writes_homes by simp
  ultimately show ?thesis using wr_absorb by (simp add: recovered_def)
qed

lemma recovered_empty: "hdr_n (d start) = 0 \<Longrightarrow> recovered start d = d"
  by (simp add: recovered_def log_writes_def)

lemma same_data_refl [simp]: "same_data start d d"
  by (simp add: same_data_def)

lemma same_data_log: "b \<in> log_area start \<Longrightarrow> same_data start (d(b := x)) d' = same_data start d d'"
  by (auto simp: same_data_def)

lemma same_data_trans: "same_data st a b \<Longrightarrow> same_data st b c \<Longrightarrow> same_data st a c"
  by (simp add: same_data_def)

lemma same_data_sym: "same_data st a b \<Longrightarrow> same_data st b a"
  by (simp add: same_data_def)

lemma same_data_wr: "fst ` set tr \<subseteq> log_area start \<Longrightarrow> same_data start (wr tr d) d"
  by (auto simp: same_data_def intro!: wr_other)

section \<open>The writes of a commit\<close>

text \<open>
  The log blocks, the header (the commit point), the homes, and the cleared header.
\<close>

definition wlog :: "uint \<Rightarrow> uint list \<Rightarrow> disk \<Rightarrow> nat \<Rightarrow> (uint \<times> block) list" where
  "wlog start bl V n = map (\<lambda>i. (logblk start i, V (bl ! i))) [0..<n]"

definition whome :: "uint list \<Rightarrow> disk \<Rightarrow> nat \<Rightarrow> (uint \<times> block) list" where
  "whome bl V n = map (\<lambda>i. (bl ! i, V (bl ! i))) [0..<n]"

lemma wlog_area: "n \<le> LOGSIZE \<Longrightarrow> fst ` set (take k (wlog start bl V n)) \<subseteq> log_area start - {start} \<union> {start}"
  using set_take_subset [of k "wlog start bl V n"] by (auto simp: wlog_def log_area_def)

lemma logblk_inj: "unat start + LOGSIZE < 4294967296 \<Longrightarrow> i < LOGSIZE \<Longrightarrow> j < LOGSIZE \<Longrightarrow> logblk start i = logblk start j \<longleftrightarrow> i = j"
  by (auto simp: logblk_def LOGSIZE_def dest!: arg_cong [of "of_nat i" "of_nat j" unat])

lemma logblk_unat: "unat start + LOGSIZE < 4294967296 \<Longrightarrow> i < LOGSIZE \<Longrightarrow> unat (logblk start i) = unat start + i + 1"
  by (simp add: logblk_def LOGSIZE_def unat_word_ariths)

lemma logblk_start: "unat start + LOGSIZE < 4294967296 \<Longrightarrow> i < LOGSIZE \<Longrightarrow> logblk start i \<noteq> start"
  using logblk_unat [of start i] by auto

lemma wlog_wr:
  assumes "unat start + LOGSIZE < 4294967296" "n \<le> LOGSIZE" "i < n"
  shows "wr (wlog start bl V n) d (logblk start i) = V (bl ! i)"
proof (rule wr_distinct)
  show "distinct (map fst (wlog start bl V n))"
    using logblk_inj [OF assms(1)] assms(2) by (auto simp: wlog_def distinct_map inj_on_def)
qed (use assms in \<open>auto simp: wlog_def\<close>)

text \<open>
  Up to the write of the header recovery gives the old data, from then on the new data.
\<close>

lemma commit_crash:
  assumes st: "unat start + LOGSIZE < 4294967296" and n: "n = length bl" "n \<le> LOGSIZE" and bl: "set bl \<inter> log_area start = {}"
    and h: "hdr_n (d start) = 0" "hdr_n h1 = n" "hdr_blocks h1 = bl" "hdr_n h0 = 0"
    and tr: "tr = wlog start bl V n @ (start, h1) # whome bl V n @ [(start, h0)]"
  shows "same_data start (recovered start (wr (take k tr) d)) (if k \<le> n then d else wr (whome bl V n) d)"
proof -
  let ?W = "wlog start bl V n" and ?I = "whome bl V n"
  have len: "length ?W = n" "length ?I = n" by (simp_all add: wlog_def whome_def)
  have wstart: "wr (take j ?W) e start = e start" for j e
  proof (rule wr_other)
    show "start \<notin> fst ` set (take j ?W)"
    proof
      assume "start \<in> fst ` set (take j ?W)"
      then have "start \<in> fst ` set ?W" using set_take_subset [of j ?W] by blast
      then obtain i where "i < n" "logblk start i = start" by (auto simp: wlog_def)
      then show False using logblk_start [OF st, of i] n(2) by simp
    qed
  qed
  have wdata: "same_data start (wr (take j ?W) e) e" for j e
    by (rule same_data_wr) (use wlog_area [OF n(2), of j] start_area in blast)
  have idata: "fst ` set (take j ?I) \<subseteq> set bl" for j
    using set_take_subset [of j ?I] n(1) by (auto simp: whome_def)
  define e where "e = (wr ?W d)(start := h1)"
  have ehd: "hdr_ok start (e start)" using h n bl by (auto simp: e_def hdr_ok_def hdr_n_def)
  have "wr ?W d (logblk start i) = V (bl ! i)" if "i < n" for i by (rule wlog_wr [OF st n(2) that])
  then have ew: "log_writes start e = ?I"
    using h n logblk_start [OF st] by (auto simp: log_writes_def e_def whome_def)
  have ed: "same_data start e d"
    using wdata [of "length ?W" d] start_area by (auto simp: e_def same_data_def)
  have new: "same_data start (wr ?I e) (wr ?I d)"
  proof (unfold same_data_def, intro allI impI)
    fix b assume "b \<notin> log_area start"
    then show "wr ?I e b = wr ?I d b"
      using ed wr_indep [of b ?I e d] wr_other [of b ?I] by (cases "b \<in> fst ` set ?I") (auto simp: same_data_def)
  qed
  consider "k \<le> n" | "n < k" "k \<le> 2 * n + 1" | "k > 2 * n + 1" by linarith
  then show ?thesis
  proof cases
    case 1
    then have "take k tr = take k ?W" using tr len by simp
    moreover have "recovered start (wr (take k ?W) d) = wr (take k ?W) d"
      using h(1) wstart by (intro recovered_empty) simp
    ultimately show ?thesis using wdata 1 by simp
  next
    case 2
    define j where "j = k - n - 1"
    have "k = n + (1 + j)" "j \<le> n" using 2 by (simp_all add: j_def)
    then have "take k tr = ?W @ (start, h1) # take j ?I" using tr len by simp
    then have "wr (take k tr) d = wr (take j (log_writes start e)) e" using ew by (simp add: e_def)
    then show ?thesis using recovered_prefix [of start e j] ehd 2 new ew by (simp add: recovered_def)
  next
    case 3
    then have "take k tr = tr" using tr len by simp
    then have "wr (take k tr) d = (wr ?I e)(start := h0)" using tr by (simp add: e_def)
    then show ?thesis using h(4) recovered_empty [of "(wr ?I e)(start := h0)" start] new 3
      by (simp add: same_data_log [OF start_area])
  qed
qed

section \<open>The commit of the code makes these writes\<close>

abbreviation logged :: "'a lstate_scheme \<Rightarrow> uint list" where
  "logged s \<equiv> take (nat (lg_n (lg s))) (lg_block (lg s))"

definition log_wf :: "logst \<Rightarrow> bool" where
  "log_wf l \<longleftrightarrow> lg_dev l = ROOTDEV \<and> length (lg_block l) = LOGSIZE \<and> 0 \<le> lg_n l \<and> lg_n l < int LOGSIZE \<and>
    unat (lg_start l) + LOGSIZE < 4294967296 \<and>
    distinct (take (nat (lg_n l)) (lg_block l)) \<and> set (take (nat (lg_n l)) (lg_block l)) \<inter> log_area (lg_start l) = {}"

definition log_ok :: "uint set \<Rightarrow> 'a lstate_scheme \<Rightarrow> bool" where
  "log_ok H s \<longleftrightarrow> bok (set (logged s)) H s \<and> log_wf (lg s) \<and> hdr_n (disk s (lg_start (lg s))) = 0"

lemma log_wfD:
  assumes "log_wf l" "n = nat (lg_n l)" "bl = take n (lg_block l)" "st = lg_start l"
  shows "lg_dev l = ROOTDEV" "length bl = n" "n < LOGSIZE" "unat st + LOGSIZE < 4294967296" "distinct bl"
    "set bl \<inter> log_area st = {}" "int n = lg_n l" "card (set bl) = n" "\<And>i. i < n \<Longrightarrow> lg_block l ! i = bl ! i"
  using assms distinct_card [of bl] by (auto simp: log_wf_def)

lemma wlog_Suc: "wlog st bl V (Suc m) = wlog st bl V m @ [(logblk st m, V (bl ! m))]"
  by (simp add: wlog_def)

lemma write_log_run:
  assumes ok: "bok (set bl) {} s" and wf: "log_wf (lg s)" and n: "n = nat (lg_n (lg s))" and bl: "bl = logged s"
    and st: "st = lg_start (lg s)" and V: "V = sview s" and m: "m \<le> n"
  shows "\<exists>s'. foreach write_log_step [0..<m] s = Ok s' \<and> bok (set bl) {} s' \<and> changed s s' \<and>
    sview s' = wr (wlog st bl V m) V \<and> disk s' = wr (wlog st bl V m) (disk s) \<and> dtrace s' = dtrace s @ wlog st bl V m"
  using m
proof (induction m)
  case 0
  show ?case using ok V changed_def [of s s] by (simp add: wlog_def bwr_def)
next
  case (Suc m)
  note D = log_wfD [OF wf n bl [folded n] st]
  from Suc obtain s1 where 1: "foreach write_log_step [0..<m] s = Ok s1" "bok (set bl) {} s1" "changed s s1"
    "sview s1 = wr (wlog st bl V m) V" "disk s1 = wr (wlog st bl V m) (disk s)" "dtrace s1 = dtrace s @ wlog st bl V m" by auto
  have lg: "lg s1 = lg s" by (rule changed_lg [OF 1(3)])
  have mem: "bl ! m \<in> set bl" "logblk st m \<in> log_area st" using Suc.prems D(2,3) by (auto intro: logblk_area)
  have v: "sview s1 (bl ! m) = V (bl ! m)"
    unfolding 1(4) by (rule wr_other) (use mem D(6) D(3) Suc.prems logblk_area [of _ st] in \<open>force simp: wlog_def\<close>)
  have step: "\<exists>s'. write_log_step m s1 = Ok s' \<and> bok (set bl) {} s' \<and> sview s' = (sview s1)(logblk st m := sview s1 (bl ! m)) \<and>
    disk s' = (disk s1)(logblk st m := sview s1 (bl ! m)) \<and> dtrace s' = dtrace s1 @ [(logblk st m, sview s1 (bl ! m))] \<and> changed s1 s'"
    by (rule write_log_step_ok [OF 1(2)])
      (use D Suc.prems mem st lg in \<open>auto simp: logblk_def NBUF_def LOGSIZE_def\<close>)
  then obtain s2 where 2: "write_log_step m s1 = Ok s2" "bok (set bl) {} s2" "sview s2 = (sview s1)(logblk st m := V (bl ! m))"
    "disk s2 = (disk s1)(logblk st m := V (bl ! m))" "dtrace s2 = dtrace s1 @ [(logblk st m, V (bl ! m))]" "changed s1 s2"
    unfolding v by blast
  have "foreach write_log_step [0..<Suc m] s = Ok s2" using 1(1) 2(1) by (simp add: foreach_append)
  then show ?case using 1 2 changed_trans [OF 1(3) 2(6)] by (auto simp: wlog_Suc)
qed

definition whomes :: "uint \<Rightarrow> uint list \<Rightarrow> disk \<Rightarrow> nat \<Rightarrow> (uint \<times> block) list" where
  "whomes st bl V n = map (\<lambda>i. (bl ! i, V (logblk st i))) [0..<n]"

lemma whomes_Suc: "whomes st bl V (Suc m) = whomes st bl V m @ [(bl ! m, V (logblk st m))]"
  by (simp add: whomes_def)

lemma install_run:
  assumes ok: "bok (if rec then {} else set bl) {} s" and dev: "lg_dev (lg s) = ROOTDEV" and st: "st = lg_start (lg s)"
    and n: "length bl = n" "n \<le> LOGSIZE" "\<not> rec \<Longrightarrow> n < LOGSIZE \<and> distinct bl" and area: "set bl \<inter> log_area st = {}"
    and blk: "\<And>i. i < n \<Longrightarrow> lg_block (lg s) ! i = bl ! i" and V: "V = sview s" and m: "m \<le> n"
  shows "\<exists>s'. foreach (install_trans_step rec) [0..<m] s = Ok s' \<and> bok (if rec then {} else set (drop m bl)) {} s' \<and> changed s s' \<and>
    sview s' = wr (whomes st bl V m) V \<and> disk s' = wr (whomes st bl V m) (disk s) \<and> dtrace s' = dtrace s @ whomes st bl V m"
  using m
proof (induction m)
  case 0
  show ?case using ok V changed_def [of s s] by (cases rec) (simp_all add: whomes_def bwr_def)
next
  case (Suc m)
  from Suc obtain s1 where 1: "foreach (install_trans_step rec) [0..<m] s = Ok s1" "bok (if rec then {} else set (drop m bl)) {} s1" "changed s s1"
    "sview s1 = wr (whomes st bl V m) V" "disk s1 = wr (whomes st bl V m) (disk s)" "dtrace s1 = dtrace s @ whomes st bl V m" by auto
  have lg: "lg s1 = lg s" by (rule changed_lg [OF 1(3)])
  have ml: "m < length bl" using Suc.prems n(1) by simp
  then have mem: "bl ! m \<in> set bl" "logblk st m \<in> log_area st" using Suc.prems n(2) by (auto intro: logblk_area)
  have v: "sview s1 (logblk st m) = V (logblk st m)"
    unfolding 1(4) by (rule wr_other) (use mem area Suc.prems n in \<open>force simp: whomes_def\<close>)
  let ?L = "if rec then {} else set (drop m bl)"
  have dr: "drop m bl = bl ! m # drop (Suc m) bl" by (rule Cons_nth_drop_Suc [OF ml, symmetric])
  have L: "?L - {bl ! m} = (if rec then {} else set (drop (Suc m) bl))" "(bl ! m \<in> ?L) = (\<not> rec)" "?L \<subseteq> set bl"
    using n(3) distinct_drop [of bl m] set_drop_subset [of m bl] unfolding dr by auto
  have card: "card ?L + (if rec then 1 else 0) < NBUF"
    using n card_length [of "drop m bl"] by (auto simp: NBUF_def LOGSIZE_def split: if_splits)
  have step: "\<exists>s'. install_trans_step rec m s1 = Ok s' \<and> bok (?L - {bl ! m}) {} s' \<and> sview s' = (sview s1)(bl ! m := sview s1 (logblk st m)) \<and>
    disk s' = (disk s1)(bl ! m := sview s1 (logblk st m)) \<and> dtrace s' = dtrace s1 @ [(bl ! m, sview s1 (logblk st m))] \<and> changed s1 s'"
    by (rule install_step_ok [OF 1(2) _ card _ _ _ _ _ L(2)])
      (use dev blk Suc.prems mem st lg L(3) area in \<open>auto simp: logblk_def\<close>)
  then obtain s2 where 2: "install_trans_step rec m s1 = Ok s2" "bok (if rec then {} else set (drop (Suc m) bl)) {} s2"
    "sview s2 = (sview s1)(bl ! m := V (logblk st m))" "disk s2 = (disk s1)(bl ! m := V (logblk st m))"
    "dtrace s2 = dtrace s1 @ [(bl ! m, V (logblk st m))]" "changed s1 s2"
    unfolding v L(1) by blast
  have "foreach (install_trans_step rec) [0..<Suc m] s = Ok s2" using 1(1) 2(1) by (simp add: foreach_append)
  then show ?case using 1 2 changed_trans [OF 1(3) 2(6)] by (auto simp: whomes_Suc)
qed

lemma sint_of_int32: "- 2147483648 \<le> i \<Longrightarrow> i < 2147483648 \<Longrightarrow> sint (of_int i :: uint) = i"
  by (simp add: signed_of_int signed_take_bit_int_eq_self)

lemma hdr_encode:
  assumes "length x = BSIZE" "length bl = nat n" "0 \<le> n" "n \<le> int LOGSIZE" "h = put32s (put32 x 0 (of_int n)) 4 bl"
  shows "hdr_n h = nat n" "hdr_blocks h = bl"
proof -
  have l: "0 + 4 \<le> length x" "4 + 4 * length bl \<le> length x" using assms(1-4) by (auto simp: BSIZE_def LOGSIZE_def)
  have "get32 h 0 = of_int n" using l by (simp add: assms(5) get32_put32s_before)
  then show n: "hdr_n h = nat n" using assms(3,4) by (simp add: hdr_n_def sint_of_int32 LOGSIZE_def)
  have "get32s h 4 (length bl) = bl" unfolding assms(5) by (rule get32s_put32s) (use l in simp_all)
  then show "hdr_blocks h = bl" using n assms(2) by (simp add: hdr_blocks_def)
qed

lemma changed_refl [simp]: "changed s s"
  by (simp add: changed_def bwr_def)

lemma bwr_set_lg: "(bwr s B d t)\<lparr>lg := l\<rparr> = bwr (s\<lparr>lg := l\<rparr>) B d t"
  by (rule lstate.equality) (simp_all add: bwr_def)

lemma changed_set_lg: "changed s s' \<Longrightarrow> changed (s\<lparr>lg := l\<rparr>) (s'\<lparr>lg := l\<rparr>)"
  unfolding changed_def
  by (erule subst [of _ _ "\<lambda>x. x\<lparr>lg := l\<rparr> = _", OF sym]) (simp add: bwr_set_lg)

lemma bok_set_lg [simp]: "bok L H (s\<lparr>lg := l\<rparr>) = bok L H s" "sview (s\<lparr>lg := l\<rparr>) = sview s"
  by (simp_all add: bok_def sview_def curproc_def cur_def myproc_def quiet_def no_sleeper_def)

lemma wlog_fst: "b \<in> fst ` set (wlog st bl V n) \<longleftrightarrow> (\<exists>i < n. b = logblk st i)"
  by (auto simp: wlog_def image_iff)

lemma wlog_start: "unat st + LOGSIZE < 4294967296 \<Longrightarrow> n \<le> LOGSIZE \<Longrightarrow> wr (wlog st bl V n) d st = d st"
  by (rule wr_other) (metis wlog_fst logblk_start less_le_trans)

lemma whome_area:
  assumes "set bl \<inter> log_area st = {}" "length bl = n" "b \<in> log_area st"
  shows "wr (whome bl V n) d b = d b"
proof (rule wr_other)
  have "fst ` set (whome bl V n) \<subseteq> set bl" using assms(2) by (auto simp: whome_def)
  then show "b \<notin> fst ` set (whome bl V n)" using assms(1,3) by blast
qed

lemma whome_view:
  assumes "length bl = n" "distinct bl"
  shows "wr (whome bl V n) d b = (if b \<in> set bl then V b else d b)"
proof (cases "b \<in> set bl")
  case True
  then obtain i where i: "i < n" "bl ! i = b" using assms(1) by (auto simp: in_set_conv_nth)
  have "map fst (whome bl V n) = bl" using assms(1) by (auto simp: whome_def intro: nth_equalityI)
  moreover have "(b, V b) \<in> set (whome bl V n)" using i by (auto simp: whome_def)
  ultimately show ?thesis using True assms(2) wr_distinct [of "whome bl V n" b "V b" d] by simp
next
  case False
  then show ?thesis using assms(1) by (auto simp: whome_def intro!: wr_other)
qed

lemma commit_run:
  assumes ok: "log_ok {} s" and pos: "0 < lg_n (lg s)" and n: "n = nat (lg_n (lg s))" and bl: "bl = logged s"
    and st: "st = lg_start (lg s)" and V: "V = sview s"
  shows "\<exists>s' h1 h0. commit s = Ok s' \<and> bok {} {} s' \<and> changed (s\<lparr>lg := (lg s)\<lparr>lg_n := 0\<rparr>\<rparr>) s' \<and>
    hdr_n h1 = n \<and> hdr_blocks h1 = bl \<and> hdr_n h0 = 0 \<and>
    dtrace s' = dtrace s @ wlog st bl V n @ (st, h1) # whome bl V n @ [(st, h0)] \<and>
    disk s' = wr (wlog st bl V n @ (st, h1) # whome bl V n @ [(st, h0)]) (disk s) \<and>
    sview s' = wr (wlog st bl V n @ (st, h1) # whome bl V n @ [(st, h0)]) V"
proof -
  have bk: "bok (set bl) {} s" and wf: "log_wf (lg s)" using ok by (simp_all add: log_ok_def bl)
  note D = log_wfD [OF wf n bl [folded n] st]
  have nst: "st \<notin> set bl" using D(6) start_area by blast
  from write_log_run [OF bk wf n bl st V order.refl] obtain s1 where 1: "write_log s = Ok s1" "bok (set bl) {} s1" "changed s s1"
    "sview s1 = wr (wlog st bl V n) V" "disk s1 = wr (wlog st bl V n) (disk s)" "dtrace s1 = dtrace s @ wlog st bl V n"
    by (auto simp: write_log_def n)
  have lg1: "lg s1 = lg s" by (rule changed_lg [OF 1(3)])
  have "length (sview s1 st) = BSIZE" using bview_length [OF bok_bc [OF 1(2)]] by (simp add: sview_def)
  define h1 where "h1 = put32s (put32 (sview s1 st) 0 (of_int (lg_n (lg s)))) 4 bl"
  have h1: "hdr_n h1 = n" "hdr_blocks h1 = bl"
    using hdr_encode [OF \<open>length (sview s1 st) = BSIZE\<close> _ _ _ h1_def] D(2,3,7) pos n by auto
  have "\<exists>s'. write_head s1 = Ok s' \<and> bok (set bl) {} s' \<and> sview s' = (sview s1)(lg_start (lg s1) := h1) \<and>
    disk s' = (disk s1)(lg_start (lg s1) := h1) \<and> dtrace s' = dtrace s1 @ [(lg_start (lg s1), h1)] \<and> changed s1 s'"
    by (rule write_head_ok [OF 1(2)]) (use D nst lg1 st in \<open>simp_all add: h1_def NBUF_def LOGSIZE_def bl\<close>)
  then obtain s2 where 2: "write_head s1 = Ok s2" "bok (set bl) {} s2" "sview s2 = (sview s1)(st := h1)"
    "disk s2 = (disk s1)(st := h1)" "dtrace s2 = dtrace s1 @ [(st, h1)]" "changed s1 s2" using lg1 st by auto
  have lg2: "lg s2 = lg s" using changed_lg [OF 2(6)] lg1 by simp
  have "sview s2 (logblk st i) = V (bl ! i)" if "i < n" for i
    using that wlog_wr [OF D(4) _ that, of bl V V] logblk_start [OF D(4), of i] D(3) 1(4) 2(3) by simp
  then have wh: "whomes st bl (sview s2) n = whome bl V n" by (simp add: whomes_def whome_def)
  have "\<exists>s'. foreach (install_trans_step False) [0..<n] s2 = Ok s' \<and> bok (if False then {} else set (drop n bl)) {} s' \<and> changed s2 s' \<and>
    sview s' = wr (whomes st bl (sview s2) n) (sview s2) \<and> disk s' = wr (whomes st bl (sview s2) n) (disk s2) \<and>
    dtrace s' = dtrace s2 @ whomes st bl (sview s2) n"
    by (rule install_run [where n = n]) (use 2(2) D lg2 st in auto)
  then obtain s3 where 3: "install_trans False s2 = Ok s3" "bok {} {} s3" "changed s2 s3"
    "sview s3 = wr (whome bl V n) (sview s2)" "disk s3 = wr (whome bl V n) (disk s2)" "dtrace s3 = dtrace s2 @ whome bl V n"
    using D(2) lg2 wh by (auto simp: install_trans_def n)
  let ?s3 = "s3\<lparr>lg := (lg s3)\<lparr>lg_n := 0\<rparr>\<rparr>"
  have lg3: "lg s3 = lg s" using changed_lg [OF 3(3)] lg2 by simp
  define h0 where "h0 = put32s (put32 (sview s3 st) 0 0) 4 []"
  have "length (sview s3 st) = BSIZE" using bview_length [OF bok_bc [OF 3(2)]] by (simp add: sview_def)
  then have h0: "hdr_n h0 = 0" by (simp add: h0_def hdr_n_def BSIZE_def)
  have "\<exists>s'. write_head ?s3 = Ok s' \<and> bok {} {} s' \<and> sview s' = (sview ?s3)(lg_start (lg ?s3) := h0) \<and>
    disk s' = (disk ?s3)(lg_start (lg ?s3) := h0) \<and> dtrace s' = dtrace ?s3 @ [(lg_start (lg ?s3), h0)] \<and> changed ?s3 s'"
    by (rule write_head_ok) (use 3(2) D lg3 st in \<open>simp_all add: h0_def NBUF_def\<close>)
  then obtain s4 where 4: "write_head ?s3 = Ok s4" "bok {} {} s4" "sview s4 = (sview s3)(st := h0)"
    "disk s4 = (disk s3)(st := h0)" "dtrace s4 = dtrace s3 @ [(st, h0)]" "changed ?s3 s4" using lg3 st by auto
  have "changed s s3" using 1(3) 2(6) 3(3) by (blast intro: changed_trans)
  from changed_trans [OF changed_set_lg [OF this] 4(6)] have "changed (s\<lparr>lg := (lg s)\<lparr>lg_n := 0\<rparr>\<rparr>) s4" using lg3 by simp
  moreover have "commit s = Ok s4" using pos 1(1) 2(1) 3(1) 4(1) lg3 by (simp add: commit_def)
  ultimately show ?thesis using h1 h0 1 2 3 4 by (intro exI [of _ s4] exI [of _ h1] exI [of _ h0]) simp
qed

lemma sview_clean: "bok L {} s \<Longrightarrow> b \<notin> L \<Longrightarrow> sview s b = disk s b"
  using bview_clean [OF bok_bc, of L "{}" s b] by (simp add: sview_def)

lemma log_wf_0: "log_wf l \<Longrightarrow> log_wf (l\<lparr>lg_n := 0\<rparr>)"
  by (simp add: log_wf_def)

definition commit_post :: "'a lstate_scheme \<Rightarrow> 'a lstate_scheme \<Rightarrow> (uint \<times> block) list \<Rightarrow> bool" where
  "commit_post s s' tr \<longleftrightarrow> log_ok {} s' \<and> changed (s\<lparr>lg := (lg s)\<lparr>lg_n := 0\<rparr>\<rparr>) s' \<and>
    dtrace s' = dtrace s @ tr \<and> disk s' = wr tr (disk s) \<and>
    same_data (lg_start (lg s)) (sview s') (sview s) \<and> same_data (lg_start (lg s)) (disk s') (sview s) \<and>
    (\<forall>k. same_data (lg_start (lg s)) (recovered (lg_start (lg s)) (wr (take k tr) (disk s)))
       (if k \<le> nat (lg_n (lg s)) then disk s else sview s))"

lemma commit_ok:
  assumes ok: "log_ok {} s"
  shows "\<exists>s' tr. commit s = Ok s' \<and> commit_post s s' tr"
proof (cases "0 < lg_n (lg s)")
  case False
  then have n: "lg_n (lg s) = 0" "logged s = []" using ok by (auto simp: log_ok_def log_wf_def)
  then have "sview s = disk s" using ok sview_clean [of "{}" s] by (auto simp: log_ok_def)
  moreover have "s\<lparr>lg := (lg s)\<lparr>lg_n := 0\<rparr>\<rparr> = s" using n(1) by simp
  ultimately have "commit_post s s []"
    using ok recovered_empty [of "disk s" "lg_start (lg s)"] by (simp add: commit_post_def log_ok_def)
  then show ?thesis using False by (intro exI [of _ s] exI [of _ "[]"]) (simp add: commit_def)
next
  case True
  define n bl st V where d: "n = nat (lg_n (lg s))" "bl = logged s" "st = lg_start (lg s)" "V = sview s"
  have wf: "log_wf (lg s)" and bk: "bok (set bl) {} s" and h: "hdr_n (disk s st) = 0" using ok by (simp_all add: log_ok_def d)
  note D = log_wfD [OF wf d(1) d(2) [folded d(1)] d(3)]
  from commit_run [OF ok True d] obtain s' h1 h0 tr where c: "commit s = Ok s'" "bok {} {} s'" "changed (s\<lparr>lg := (lg s)\<lparr>lg_n := 0\<rparr>\<rparr>) s'"
    "hdr_n h1 = n" "hdr_blocks h1 = bl" "hdr_n h0 = 0" "tr = wlog st bl V n @ (st, h1) # whome bl V n @ [(st, h0)]"
    "dtrace s' = dtrace s @ tr" "disk s' = wr tr (disk s)" "sview s' = wr tr V" by blast
  have lg: "lg s' = (lg s)\<lparr>lg_n := 0\<rparr>" using changed_lg [OF c(3)] by simp
  have "log_ok {} s'" using c(2,6,7,9) lg log_wf_0 [OF wf] d(3) by (simp add: log_ok_def)
  have home: "wr (whome bl V n) e b = V b" if "b \<notin> log_area st" "e b = V b" for e b
    using that whome_view [OF D(2,5)] by simp
  have clean: "disk s b = V b" if "b \<notin> set bl" for b using sview_clean [OF bk that] d(4) by simp
  have new: "same_data st (wr (whome bl V n) (disk s)) V"
    using whome_view [OF D(2,5), of V "disk s"] clean by (simp add: same_data_def)
  have wsub: "fst ` set (wlog st bl V n) \<subseteq> log_area st" using D(3) by (auto simp: wlog_def log_area_def)
  have wlg: "wr (wlog st bl V n) e b = e b" if "b \<notin> log_area st" for e b
    by (rule wr_other) (use that wsub in blast)
  have all: "same_data st (wr tr e) (wr (whome bl V n) e)" for e
    using whome_view [OF D(2,5), of V] wlg start_area [of st] unfolding c(7) same_data_def by auto
  have "same_data st (sview s') V" using all [of V] home unfolding c(10) same_data_def by simp
  moreover have "same_data st (disk s') V" using all [of "disk s"] new unfolding c(9) by (rule same_data_trans)
  moreover have "same_data st (recovered st (wr (take k tr) (disk s))) (if k \<le> n then disk s else V)" for k
    using commit_crash [where d = "disk s" and k = k, OF D(4) D(2) [symmetric] less_imp_le [OF D(3)] D(6) h c(4-7)] new
    by (auto intro: same_data_trans)
  ultimately have "commit_post s s' tr" using \<open>log_ok {} s'\<close> c(3,8,9)
    unfolding commit_post_def d(1) [symmetric] d(3) [symmetric] d(4) [symmetric] by blast
  with c(1) show ?thesis by blast
qed

section \<open>Recovery\<close>

definition recover_post :: "uint \<Rightarrow> 'a lstate_scheme \<Rightarrow> 'a lstate_scheme \<Rightarrow> (uint \<times> block) list \<Rightarrow> bool" where
  "recover_post st s s' tr \<longleftrightarrow> log_ok {} s' \<and> lg_n (lg s') = 0 \<and> lg_start (lg s') = st \<and>
    dtrace s' = dtrace s @ tr \<and> disk s' = wr tr (disk s) \<and> sview s' = disk s' \<and>
    same_data st (disk s') (recovered st (disk s)) \<and>
    (\<forall>k. same_data st (recovered st (wr (take k tr) (disk s))) (recovered st (disk s)))"

lemma whomes_log_writes:
  assumes "n = hdr_n (d st)"
  shows "whomes st (hdr_blocks (d st)) d n = log_writes st d"
  using assms by (simp add: whomes_def log_writes_def)

lemma read_head_ok:
  assumes ok: "bok {} {} s" and dev: "lg_dev (lg s) = ROOTDEV" and st: "st = lg_start (lg s)" and h: "hdr_ok st (disk s st)"
  shows "\<exists>s' l. read_head s = Ok s' \<and> bok {} {} s' \<and> changed (s\<lparr>lg := l\<rparr>) s' \<and> disk s' = disk s \<and> dtrace s' = dtrace s \<and>
    l = (lg s)\<lparr>lg_n := sint (get32 (disk s st) 0),
      lg_block := hdr_blocks (disk s st) @ drop (hdr_n (disk s st)) (lg_block (lg s))\<rparr>"
proof -
  obtain i s1 where 1: "bread ROOTDEV st s = Ok (i, s1)" "bok {} {st} s1" "sview s1 = sview s" "cached (bufs s1) st i"
    "disk s1 = disk s" "dtrace s1 = dtrace s" "changed s s1" "b_data (bufs s1 ! i) = sview s st"
    by (rule bread_held [OF ok, of st]) (auto simp: NBUF_def)
  have v: "sview s st = disk s st" using sview_clean [OF ok] by simp
  have lg1: "lg s1 = lg s" by (rule changed_lg [OF 1(7)])
  define l where "l = (lg s)\<lparr>lg_n := sint (get32 (disk s st) 0),
      lg_block := hdr_blocks (disk s st) @ drop (hdr_n (disk s st)) (lg_block (lg s))\<rparr>"
  have "bok {} {st} (s1\<lparr>lg := l\<rparr>)" using 1(2) by simp
  then obtain s2 where 2: "brelse i (s1\<lparr>lg := l\<rparr>) = Ok s2" "bok {} {} s2" "disk s2 = disk s" "dtrace s2 = dtrace s"
    "changed (s1\<lparr>lg := l\<rparr>) s2"
    by (rule brelse_held [of "{}" "{st}" _ st i]) (use 1 v in auto)
  have "\<not> int LOGSIZE < sint (get32 (disk s st) 0)" using h by (simp add: hdr_ok_def)
  then have "read_head s = Ok s2"
    using 1(1,8) v 2(1) dev st lg1 by (simp add: read_head_def Let_def l_def hdr_blocks_def hdr_n_def)
  then show ?thesis using 2 changed_trans [OF changed_set_lg [OF 1(7)] 2(5)] l_def by blast
qed

lemma recover_run:
  assumes ok: "bok {} {} s" and dev: "lg_dev (lg s) = ROOTDEV" and st: "st = lg_start (lg s)" and h: "hdr_ok st (disk s st)"
    and n: "n = hdr_n (disk s st)"
  shows "\<exists>s' l h0. recover_from_log s = Ok s' \<and> bok {} {} s' \<and> changed (s\<lparr>lg := l\<rparr>) s' \<and> hdr_n h0 = 0 \<and>
    dtrace s' = dtrace s @ log_writes st (disk s) @ [(st, h0)] \<and> disk s' = wr (log_writes st (disk s) @ [(st, h0)]) (disk s) \<and>
    l = (lg s)\<lparr>lg_n := 0, lg_block := hdr_blocks (disk s st) @ drop n (lg_block (lg s))\<rparr>"
proof -
  let ?bl = "hdr_blocks (disk s st)"
  from read_head_ok [OF assms(1-4)] obtain s1 l1 where 1: "read_head s = Ok s1" "bok {} {} s1" "changed (s\<lparr>lg := l1\<rparr>) s1"
    "disk s1 = disk s" "dtrace s1 = dtrace s" and l1: "l1 = (lg s)\<lparr>lg_n := sint (get32 (disk s st) 0), lg_block := ?bl @ drop n (lg_block (lg s))\<rparr>"
    unfolding n by blast
  have lg1: "lg s1 = l1" using changed_lg [OF 1(3)] by simp
  have v1: "sview s1 = disk s" using sview_clean [OF 1(2)] 1(4) by auto
  have n1: "n = nat (lg_n (lg s1))" by (simp add: lg1 l1 n hdr_n_def)
  have "\<exists>s'. foreach (install_trans_step True) [0..<n] s1 = Ok s' \<and> bok (if True then {} else set (drop n ?bl)) {} s' \<and> changed s1 s' \<and>
    sview s' = wr (whomes st ?bl (sview s1) n) (sview s1) \<and> disk s' = wr (whomes st ?bl (sview s1) n) (disk s1) \<and>
    dtrace s' = dtrace s1 @ whomes st ?bl (sview s1) n"
    by (rule install_run [where n = n])
      (use 1(2) dev st h hdr_ok_n [OF h] in \<open>auto simp: lg1 l1 n hdr_ok_def nth_append\<close>)
  then obtain s2 where 2: "install_trans True s1 = Ok s2" "bok {} {} s2" "changed s1 s2"
    "disk s2 = wr (log_writes st (disk s)) (disk s)" "dtrace s2 = dtrace s @ log_writes st (disk s)"
    using 1(4,5) v1 whomes_log_writes [of n "disk s" st] n by (auto simp: install_trans_def simp flip: n1)
  let ?s2 = "s2\<lparr>lg := (lg s2)\<lparr>lg_n := 0\<rparr>\<rparr>"
  have lg2: "lg s2 = l1" using changed_lg [OF 2(3)] lg1 by simp
  define h0 where "h0 = put32s (put32 (sview s2 st) 0 0) 4 []"
  have "length (sview s2 st) = BSIZE" using bview_length [OF bok_bc [OF 2(2)]] by (simp add: sview_def)
  then have h0: "hdr_n h0 = 0" by (simp add: h0_def hdr_n_def BSIZE_def)
  have "\<exists>s'. write_head ?s2 = Ok s' \<and> bok {} {} s' \<and> sview s' = (sview ?s2)(lg_start (lg ?s2) := h0) \<and>
    disk s' = (disk ?s2)(lg_start (lg ?s2) := h0) \<and> dtrace s' = dtrace ?s2 @ [(lg_start (lg ?s2), h0)] \<and> changed ?s2 s'"
    by (rule write_head_ok) (use 2(2) dev lg2 st in \<open>simp_all add: h0_def NBUF_def l1\<close>)
  then obtain s3 where 3: "write_head ?s2 = Ok s3" "bok {} {} s3"
    "disk s3 = (disk s2)(st := h0)" "dtrace s3 = dtrace s2 @ [(st, h0)]" "changed ?s2 s3" using lg2 st l1 by auto
  have "changed (s\<lparr>lg := l1\<lparr>lg_n := 0\<rparr>\<rparr>) s3"
    using changed_trans [OF changed_set_lg [OF changed_trans [OF 1(3) 2(3)]] 3(5)] lg2 by simp
  moreover have "recover_from_log s = Ok s3" using 1(1) 2(1) 3(1) by (simp add: recover_from_log_def)
  ultimately show ?thesis using 2 3 h0 l1 by (intro exI [of _ s3] exI [of _ "l1\<lparr>lg_n := 0\<rparr>"] exI [of _ h0]) simp
qed

lemma recover_ok:
  assumes ok: "bok {} {} s" and dev: "lg_dev (lg s) = ROOTDEV" and st: "st = lg_start (lg s)" and h: "hdr_ok st (disk s st)"
    and wf: "length (lg_block (lg s)) = LOGSIZE" "unat st + LOGSIZE < 4294967296"
  shows "\<exists>s' tr. recover_from_log s = Ok s' \<and> recover_post st s s' tr"
proof -
  let ?d = "disk s" and ?n = "hdr_n (disk s st)"
  from recover_run [OF ok dev st h refl] obtain s' l h0 where r: "recover_from_log s = Ok s'" "bok {} {} s'"
    "changed (s\<lparr>lg := l\<rparr>) s'" "hdr_n h0 = 0" "dtrace s' = dtrace s @ log_writes st ?d @ [(st, h0)]"
    "disk s' = wr (log_writes st ?d @ [(st, h0)]) ?d"
    "l = (lg s)\<lparr>lg_n := 0, lg_block := hdr_blocks (?d st) @ drop ?n (lg_block (lg s))\<rparr>" by blast
  have lg: "lg s' = l" using changed_lg [OF r(3)] by simp
  have "log_wf l" using r(7) dev wf hdr_ok_n [OF h] st by (simp add: log_wf_def LOGSIZE_def)
  then have "log_ok {} s'" using r(2,4,6) lg st by (simp add: log_ok_def r(7))
  moreover have "sview s' = disk s'" using sview_clean [OF r(2)] by auto
  moreover have fin: "same_data st (disk s') (recovered st ?d)"
    by (simp add: r(6) recovered_def same_data_log [OF start_area])
  moreover have "same_data st (recovered st (wr (take k (log_writes st ?d @ [(st, h0)])) ?d)) (recovered st ?d)" for k
  proof (cases "k \<le> length (log_writes st ?d)")
    case True
    then show ?thesis using recovered_prefix [of st ?d k] h by simp
  next
    case False
    then have "wr (take k (log_writes st ?d @ [(st, h0)])) ?d = disk s'" using r(6) by simp
    moreover have "recovered st (disk s') = disk s'" using r(4,6) by (intro recovered_empty) simp
    ultimately show ?thesis using fin by simp
  qed
  ultimately have "recover_post st s s' (log_writes st ?d @ [(st, h0)])"
    unfolding recover_post_def using r(5,6,7) lg st by simp
  with r(1) show ?thesis by blast
qed

end
