(* ===== verification/Txn.thy ===== *)
theory Txn
  imports Crash
begin

text \<open>
  Transactions: \<^verbatim>\<open>log_write\<close>, \<^verbatim>\<open>begin_op\<close> and \<^verbatim>\<open>end_op\<close> of \<^verbatim>\<open>kernel/log.c\<close> under the
  contract of the log, and the properties of the log: transactions are atomic with respect to
  crashes, recovery restores them and may itself be interrupted, and the operations of
  concurrent system calls never overrun the log.
\<close>

section \<open>log\_write\<close>

lemma takeWhile_index:
  "i = length (takeWhile (\<lambda>x. x \<noteq> b) xs) \<Longrightarrow> if b \<in> set xs then i < length xs \<and> xs ! i = b else i = length xs"
  by (induction xs arbitrary: i) auto

definition add_block :: "uint \<Rightarrow> logst \<Rightarrow> logst" where
  "add_block b l = (if b \<in> set (take (nat (lg_n l)) (lg_block l)) then l
    else l\<lparr>lg_n := lg_n l + 1, lg_block := (lg_block l)[nat (lg_n l) := b]\<rparr>)"

lemma add_block_same [simp]:
  "lg_start (add_block b l) = lg_start l" "lg_size (add_block b l) = lg_size l"
  "lg_outstanding (add_block b l) = lg_outstanding l" "lg_committing (add_block b l) = lg_committing l"
  "lg_dev (add_block b l) = lg_dev l"
  by (simp_all add: add_block_def)

lemma add_block_logged:
  assumes "log_wf l"
  shows "take (nat (lg_n (add_block b l))) (lg_block (add_block b l)) =
    (if b \<in> set (take (nat (lg_n l)) (lg_block l)) then take (nat (lg_n l)) (lg_block l)
     else take (nat (lg_n l)) (lg_block l) @ [b])"
proof -
  have "nat (lg_n l + 1) = Suc (nat (lg_n l))" "nat (lg_n l) < length (lg_block l)" using assms by (auto simp: log_wf_def)
  then show ?thesis by (simp add: add_block_def take_Suc_conv_app_nth)
qed

lemma add_block_wf:
  assumes "log_wf l" "b \<notin> log_area (lg_start l)" "lg_n l + 1 < int LOGSIZE"
  shows "log_wf (add_block b l)"
proof -
  have "length (lg_block (add_block b l)) = LOGSIZE" "0 \<le> lg_n (add_block b l)" "lg_n (add_block b l) < int LOGSIZE"
    using assms by (auto simp: log_wf_def add_block_def)
  then show ?thesis using assms(1,2) add_block_logged [OF assms(1), of b]
    by (auto simp: log_wf_def [of "add_block b l"] log_wf_def [of l])
qed

text \<open>
  \<^verbatim>\<open>log_write\<close> of a held buffer records the block once and pins its buffer; \<^verbatim>\<open>log.size\<close>
  bounds the log in the way \<^verbatim>\<open>mkfs\<close> sizes it (\<^verbatim>\<open>nlog = LOGSIZE\<close>).
\<close>

lemma log_write_ok:
  assumes ok: "log_ok H s" and c: "cached (bufs s) b i" "b \<in> H" and area: "b \<notin> log_area (lg_start (lg s))"
    and out: "1 \<le> lg_outstanding (lg s)" and room: "lg_n (lg s) < lg_size (lg s) - 1" "lg_size (lg s) \<le> int LOGSIZE"
  obtains s' where "log_write i s = Ok s'" "log_ok H s'" "sview s' = sview s" "cached (bufs s') = cached (bufs s)"
    "disk s' = disk s" "dtrace s' = dtrace s" "lg s' = add_block b (lg s)" "changed (s\<lparr>lg := add_block b (lg s)\<rparr>) s'"
    "b \<in> set (logged s')"
proof -
  let ?l = "lg s"
  let ?n = "nat (lg_n ?l)" and ?bl = "logged s"
  have bk: "bok (set ?bl) H s" and wf: "log_wf ?l" and hd: "hdr_n (disk s (lg_start ?l)) = 0" using ok by (simp_all add: log_ok_def)
  note D = log_wfD [OF wf refl refl refl] and A = add_block_logged [OF wf, of b]
  have bno: "b_blockno (bufs s ! i) = b" using c(1) by (simp add: cached_def)
  define j where "j = length (takeWhile (\<lambda>x. x \<noteq> b) ?bl)"
  have j: "if b \<in> set ?bl then j < ?n \<and> lg_block ?l ! j = b else j = ?n"
    using takeWhile_index [OF j_def] D(2) by (auto split: if_splits)
  have w: "log_write i s = Ok (if j = ?n then (bpin i (s\<lparr>lg := ?l\<lparr>lg_block := (lg_block ?l)[j := b]\<rparr>\<rparr>))\<lparr>lg := ?l\<lparr>lg_block := (lg_block ?l)[j := b], lg_n := lg_n ?l + 1\<rparr>\<rparr>
      else s\<lparr>lg := ?l\<lparr>lg_block := (lg_block ?l)[j := b]\<rparr>\<rparr>)"
    using room out D(3,7) by (simp add: log_write_def Let_def bno j_def)
  have wf': "log_wf (add_block b ?l)" using add_block_wf [OF wf area] room by simp
  show ?thesis
  proof (cases "b \<in> set ?bl")
    case True
    then have "(lg_block ?l)[j := b] = lg_block ?l" "j \<noteq> ?n" using j list_update_id [of "lg_block ?l" j] by auto
    then have "log_write i s = Ok s" using w by simp
    moreover have "add_block b ?l = ?l" using True by (simp add: add_block_def)
    ultimately show ?thesis using that [of s] ok True by simp
  next
    case False
    then have jn: "j = ?n" using j by simp
    let ?s = "(bpin i s)\<lparr>lg := add_block b ?l\<rparr>"
    have "log_write i s = Ok ?s"
      using w False jn by (simp add: add_block_def bpin_def set_buf_def)
    moreover have p: "bok (insert b (set ?bl)) H (bpin i s)" "sview (bpin i s) = sview s" "cached (bufs (bpin i s)) = cached (bufs s)"
      using bpin_ok [OF bk c False] by simp_all
    moreover have "set (logged ?s) = insert b (set ?bl)" using A False by simp
    moreover have "changed (s\<lparr>lg := add_block b ?l\<rparr>) ?s"
      by (rule changed_set_lg) (simp add: changed_def bwr_def bpin_def set_buf_def)
    ultimately show ?thesis using that [of ?s] wf' hd by (simp add: log_ok_def bpin_def set_buf_def)
  qed
qed

section \<open>Inside a transaction\<close>

text \<open>
  \<open>txn k H s\<close>: a transaction is running that may still log \<open>k\<close> new blocks while it holds the
  blocks \<open>H\<close>.
\<close>

definition txn :: "nat \<Rightarrow> uint set \<Rightarrow> 'a lstate_scheme \<Rightarrow> bool" where
  "txn k H s \<longleftrightarrow> log_ok H s \<and> 1 \<le> lg_outstanding (lg s) \<and> lg_size (lg s) \<le> int LOGSIZE \<and>
    lg_n (lg s) + int k < lg_size (lg s) \<and> finite H"

lemma txn_mono: "txn k H s \<Longrightarrow> j \<le> k \<Longrightarrow> txn j H s"
  by (simp add: txn_def)

lemma txn_bok: "txn k H s \<Longrightarrow> bok (set (logged s)) H s"
  by (simp add: txn_def log_ok_def)

lemma txn_card:
  assumes "txn k H s" "card H \<le> 1" "0 < k \<or> H = {}"
  shows "card (H \<union> set (logged s)) < NBUF"
proof -
  have "card (set (logged s)) \<le> length (logged s)" by (rule card_length)
  also have "\<dots> \<le> nat (lg_n (lg s))" by simp
  finally have "card (set (logged s)) \<le> nat (lg_n (lg s))" .
  moreover have "nat (lg_n (lg s)) \<le> 28 \<or> H = {} \<and> nat (lg_n (lg s)) \<le> 29" using assms(1,3) by (auto simp: txn_def LOGSIZE_def)
  ultimately show ?thesis using card_Un_le [of H "set (logged s)"] assms(2) by (auto simp: NBUF_def)
qed

lemma txn_clean: "txn k H s \<Longrightarrow> b \<notin> H \<Longrightarrow> b \<in> set (logged s) \<or> sview s b = disk s b"
  using bview_clean [OF bok_bc [OF txn_bok], of k H s b] by (auto simp: sview_def)

lemma txn_changed:
  assumes "txn k H s" "bok (set (logged s')) H' s'" "lg s' = lg s" "disk s' = disk s" "finite H'"
  shows "txn k H' s'"
  using assms by (simp add: txn_def log_ok_def)

lemma bread_txn:
  assumes t: "txn k H s" and b: "b \<notin> H" "card H \<le> 1" "0 < k \<or> H = {}"
  obtains i s' where "bread ROOTDEV b s = Ok (i, s')" "txn k (insert b H) s'" "sview s' = sview s"
    "cached (bufs s') b i" "\<And>c j. c \<in> H \<Longrightarrow> cached (bufs s) c j \<Longrightarrow> cached (bufs s') c j"
    "disk s' = disk s" "dtrace s' = dtrace s" "changed s s'" "b_data (bufs s' ! i) = sview s b"
proof -
  have fin: "finite H" using t by (simp add: txn_def)
  have card: "b \<in> set (logged s) \<or> card (H \<union> set (logged s)) < NBUF" using txn_card [OF t b(2,3)] by simp
  show ?thesis
  proof (rule bread_held [OF txn_bok [OF t] b(1) finite_set fin card], goal_cases)
    case (1 i s')
    have "lg s' = lg s" by (rule changed_lg [OF 1(8)])
    then have "txn k (insert b H) s'" using txn_changed [OF t, of s' "insert b H"] 1(2,6) fin by simp
    then show ?case using that [of i s'] 1 by blast
  qed
qed

lemma brelse_txn:
  assumes t: "txn k H s" and c: "cached (bufs s) b i" "b \<in> H" and w: "b \<in> set (logged s) \<or> sview s b = disk s b"
  obtains s' where "brelse i s = Ok s'" "txn k (H - {b}) s'" "sview s' = sview s" "cached (bufs s') = cached (bufs s)"
    "disk s' = disk s" "dtrace s' = dtrace s" "changed s s'"
proof -
  show ?thesis
  proof (rule brelse_held [OF txn_bok [OF t] c w], goal_cases)
    case (1 s')
    have "lg s' = lg s" by (rule changed_lg [OF 1(7)])
    then have "txn k (H - {b}) s'" using txn_changed [OF t, of s' "H - {b}"] 1(2,5) t by (simp add: txn_def)
    then show ?case using that [of s'] 1 by blast
  qed
qed

lemma bset_txn:
  assumes t: "txn k H s" and c: "cached (bufs s) b i" "b \<in> H" and len: "length x = BSIZE"
  obtains s' where "bset i x s = s'" "txn k H s'" "sview s' = (sview s)(b := x)" "cached (bufs s') = cached (bufs s)"
    "disk s' = disk s" "dtrace s' = dtrace s" "changed s s'"
proof -
  show ?thesis
  proof (rule bset_held [OF txn_bok [OF t] c len], goal_cases)
    case (1 s')
    have "lg s' = lg s" by (rule changed_lg [OF 1(7)])
    then have "txn k H s'" using txn_changed [OF t, of s' H] 1(2,5) t by (simp add: txn_def)
    then show ?case using that [of s'] 1 by blast
  qed
qed

lemma log_write_txn:
  assumes t: "txn (Suc k) H s" and c: "cached (bufs s) b i" "b \<in> H" and area: "b \<notin> log_area (lg_start (lg s))"
  obtains s' where "log_write i s = Ok s'" "txn k H s'" "sview s' = sview s" "cached (bufs s') = cached (bufs s)"
    "disk s' = disk s" "dtrace s' = dtrace s" "lg s' = add_block b (lg s)" "changed (s\<lparr>lg := add_block b (lg s)\<rparr>) s'"
    "b \<in> set (logged s')"
proof -
  show ?thesis
  proof (rule log_write_ok [of H s b i], goal_cases)
    case (8 s')
    have "lg_n (add_block b (lg s)) \<le> lg_n (lg s) + 1" by (simp add: add_block_def)
    then have "txn k H s'" using t 8(2,7) by (simp add: txn_def)
    then show ?case using that [of s'] 8 by blast
  qed (use t c area in \<open>simp_all add: txn_def\<close>)
qed

text \<open>The usual sequence of the file system: read a block, change it, log it, release it.\<close>

definition update_block :: "uint \<Rightarrow> (block \<Rightarrow> block) \<Rightarrow> 'a lstate_scheme \<Rightarrow> 'a lstate_scheme res" where
  "update_block b f s =
    bindr (bread ROOTDEV b s) (\<lambda>(i, s).
    bindr (log_write i (bset i (f (b_data (bufs s ! i))) s)) (\<lambda>s.
    brelse i s))"

lemma update_block_ok:
  assumes t: "txn (Suc k) H s" and b: "b \<notin> H" "card H \<le> 1" "b \<notin> log_area (lg_start (lg s))"
    and f: "length (f (sview s b)) = BSIZE"
  shows "\<exists>s'. update_block b f s = Ok s' \<and> txn k H s' \<and> sview s' = (sview s)(b := f (sview s b)) \<and>
    disk s' = disk s \<and> dtrace s' = dtrace s \<and> changed (s\<lparr>lg := add_block b (lg s)\<rparr>) s' \<and>
    (\<forall>c \<in> H. \<forall>j. cached (bufs s) c j \<longrightarrow> cached (bufs s') c j)"
proof -
  obtain i s1 where 1: "bread ROOTDEV b s = Ok (i, s1)" "txn (Suc k) (insert b H) s1" "sview s1 = sview s"
    "cached (bufs s1) b i" "\<And>c j. c \<in> H \<Longrightarrow> cached (bufs s) c j \<Longrightarrow> cached (bufs s1) c j"
    "disk s1 = disk s" "dtrace s1 = dtrace s" "changed s s1" "b_data (bufs s1 ! i) = sview s b"
    by (rule bread_txn [OF t b(1,2)]) (simp, blast)
  obtain s2 where 2: "bset i (f (sview s b)) s1 = s2" "txn (Suc k) (insert b H) s2" "sview s2 = (sview s1)(b := f (sview s b))"
    "cached (bufs s2) = cached (bufs s1)" "disk s2 = disk s1" "dtrace s2 = dtrace s1" "changed s1 s2"
    by (rule bset_txn [OF 1(2,4) insertI1 f])
  have lg2: "lg s2 = lg s" using changed_lg [OF 1(8)] changed_lg [OF 2(7)] by simp
  obtain s3 where 3: "log_write i s2 = Ok s3" "txn k (insert b H) s3" "sview s3 = sview s2" "cached (bufs s3) = cached (bufs s2)"
    "disk s3 = disk s2" "dtrace s3 = dtrace s2" "lg s3 = add_block b (lg s2)" "changed (s2\<lparr>lg := add_block b (lg s2)\<rparr>) s3"
    "b \<in> set (logged s3)"
    by (rule log_write_txn [OF 2(2), of b i]) (use 1 2 b lg2 in simp_all)
  obtain s4 where 4: "brelse i s3 = Ok s4" "txn k (insert b H - {b}) s4" "sview s4 = sview s3" "cached (bufs s4) = cached (bufs s3)"
    "disk s4 = disk s3" "dtrace s4 = dtrace s3" "changed s3 s4"
    by (rule brelse_txn [OF 3(2), of b i]) (use 1 2 3 in simp_all)
  have "changed (s\<lparr>lg := add_block b (lg s)\<rparr>) s4"
    using changed_set_lg [OF changed_trans [OF 1(8) 2(7)], of "add_block b (lg s)"] 3(8) 4(7) lg2 by (metis changed_trans)
  moreover have "update_block b f s = Ok s4" using 1(1,9) 2(1) 3(1) 4(1) by (simp add: update_block_def)
  moreover have "insert b H - {b} = H" using b(1) by simp
  ultimately show ?thesis using 1(3,5,6,7) 2 3 4 by (intro exI [of _ s4]) simp
qed

section \<open>Whole transactions\<close>

definition run_txn :: "(uint \<times> block) list \<Rightarrow> 'a lstate_scheme \<Rightarrow> 'a lstate_scheme res" where
  "run_txn us s =
    bindr (begin_op s) (\<lambda>s.
    bindr (foreach (\<lambda>(b, x). update_block b (\<lambda>_. x)) us s) end_op)"

definition idle :: "'a lstate_scheme \<Rightarrow> bool" where
  "idle s \<longleftrightarrow> log_ok {} s \<and> lg_n (lg s) = 0 \<and> lg_outstanding (lg s) = 0 \<and> \<not> lg_committing (lg s) \<and>
    lg_size (lg s) = int LOGSIZE \<and> no_sleeper ChLog s"

lemma no_sleeper_changed: "changed (s\<lparr>lg := l\<rparr>) s' \<Longrightarrow> no_sleeper c s' = no_sleeper c s"
  using changed_simps(3) [of "s\<lparr>lg := l\<rparr>" s'] by (simp add: no_sleeper_def)

lemma changed_lg_trans:
  assumes "changed (s\<lparr>lg := l\<rparr>) t" "changed (t\<lparr>lg := l'\<rparr>) u"
  shows "changed (s\<lparr>lg := l'\<rparr>) u"
  using changed_trans [OF changed_set_lg [OF assms(1), of l'] assms(2)] by simp

lemma updates_run:
  assumes "txn (length us) {} s" "st = lg_start (lg s)" "\<And>b x. (b, x) \<in> set us \<Longrightarrow> b \<notin> log_area st \<and> length x = BSIZE"
  shows "\<exists>s' l. foreach (\<lambda>(b, x). update_block b (\<lambda>_. x)) us s = Ok s' \<and> txn 0 {} s' \<and> sview s' = wr us (sview s) \<and>
    disk s' = disk s \<and> dtrace s' = dtrace s \<and> changed (s\<lparr>lg := l\<rparr>) s' \<and> lg_start l = st \<and> lg_size l = lg_size (lg s) \<and>
    lg_outstanding l = lg_outstanding (lg s) \<and> lg_committing l = lg_committing (lg s) \<and>
    set (logged s') = set (logged s) \<union> fst ` set us"
  using assms
proof (induction us arbitrary: s)
  case Nil
  then show ?case by (intro exI [of _ s] exI [of _ "lg s"]) simp
next
  case (Cons p us)
  obtain b x where p: "p = (b, x)" by (cases p)
  have b: "b \<notin> log_area (lg_start (lg s))" "length x = BSIZE" using Cons.prems p by auto
  obtain s1 where 1: "update_block b (\<lambda>_. x) s = Ok s1" "txn (length us) {} s1" "sview s1 = (sview s)(b := x)"
    "disk s1 = disk s" "dtrace s1 = dtrace s" "changed (s\<lparr>lg := add_block b (lg s)\<rparr>) s1"
    using update_block_ok [of "length us" "{}" s b "\<lambda>_. x"] Cons.prems(1) b by auto
  have lg1: "lg s1 = add_block b (lg s)" using changed_lg [OF 1(6)] by simp
  have st1: "st = lg_start (lg s1)" and us: "\<And>b x. (b, x) \<in> set us \<Longrightarrow> b \<notin> log_area st \<and> length x = BSIZE"
    using Cons.prems(2,3) lg1 by auto
  from Cons.IH [OF 1(2) st1 us] obtain s' l where 2: "foreach (\<lambda>(b, x). update_block b (\<lambda>_. x)) us s1 = Ok s'" "txn 0 {} s'"
    "sview s' = wr us (sview s1)" "disk s' = disk s1" "dtrace s' = dtrace s1" "changed (s1\<lparr>lg := l\<rparr>) s'"
    "lg_start l = st" "lg_size l = lg_size (lg s1)" "lg_outstanding l = lg_outstanding (lg s1)" "lg_committing l = lg_committing (lg s1)"
    "set (logged s') = set (logged s1) \<union> fst ` set us" by blast
  have "log_wf (lg s)" using Cons.prems(1) by (simp add: txn_def log_ok_def)
  then have "set (logged s1) = insert b (set (logged s))" using add_block_logged [of "lg s" b] lg1 by auto
  then show ?case
    using 1 2 lg1 changed_lg_trans [OF 1(6) 2(6)] p by (intro exI [of _ s'] exI [of _ l]) simp
qed

lemma end_op_last:
  assumes ok: "log_ok {} s" and o: "lg_outstanding (lg s) = 1" "\<not> lg_committing (lg s)" "no_sleeper ChLog s"
  shows "\<exists>s' tr. end_op s = Ok s' \<and> commit_post s (s'\<lparr>lg := (lg s)\<lparr>lg_n := 0\<rparr>\<rparr>) tr \<and>
    lg s' = (lg s)\<lparr>lg_n := 0, lg_outstanding := 0\<rparr> \<and> no_sleeper ChLog s'"
proof -
  let ?l = "(lg s)\<lparr>lg_outstanding := 0, lg_committing := True\<rparr>"
  let ?s = "s\<lparr>lg := ?l\<rparr>"
  have ok1: "log_ok {} ?s" using ok by (simp add: log_ok_def log_wf_def)
  from commit_ok [OF ok1] obtain s1 tr where c: "commit ?s = Ok s1" "commit_post ?s s1 tr" by blast
  have ch: "changed (?s\<lparr>lg := ?l\<lparr>lg_n := 0\<rparr>\<rparr>) s1" using c(2) by (simp add: commit_post_def)
  then have lg1: "lg s1 = ?l\<lparr>lg_n := 0\<rparr>" using changed_lg [OF ch] by simp
  have ch1: "changed (s\<lparr>lg := ?l\<lparr>lg_n := 0\<rparr>\<rparr>) s1" using ch by simp
  then have ns: "no_sleeper ChLog s1" using no_sleeper_changed [OF ch1] o(3) by simp
  let ?s2 = "s1\<lparr>lg := (lg s1)\<lparr>lg_committing := False\<rparr>\<rparr>"
  have ns2: "no_sleeper ChLog ?s2" using ns by (simp add: no_sleeper_def)
  have "end_op s = Ok ?s2" using o c(1) ns2 by (simp add: end_op_def end_op_begin_def end_op_done_def Let_def)
  moreover have "commit_post s (?s2\<lparr>lg := (lg s)\<lparr>lg_n := 0\<rparr>\<rparr>) tr"
    using c(2) changed_set_lg [OF ch1, of "(lg s)\<lparr>lg_n := 0\<rparr>"] lg1 by (auto simp: commit_post_def log_ok_def log_wf_def cong: if_cong)
  moreover have "lg ?s2 = (lg s)\<lparr>lg_n := 0, lg_outstanding := 0\<rparr>" using lg1 o(2) by simp
  ultimately show ?thesis using ns2 by blast
qed

section \<open>Properties\<close>


text \<open>A machine that has just booted from a disk with contents \<open>d\<close>.\<close>

definition boot_log :: "disk \<Rightarrow> lstate" where
  "boot_log d = bstate.extend ((binit boot_bufs)\<lparr>disk := d\<rparr>) \<lparr>lg = \<lparr>lg_start = 2, lg_size = 30, lg_outstanding = 0,
     lg_committing = False, lg_dev = ROOTDEV, lg_n = 0, lg_block = replicate LOGSIZE 0\<rparr>\<rparr>"

lemma boot_log_bok:
  assumes "\<And>b. length (d b) = BSIZE"
  shows "bok {} {} (boot_log d)"
proof -
  have "bok {} {} (binit (boot_bufs\<lparr>disk := d\<rparr>))"
    by (rule binit_ok [THEN conjunct1])
      (simp_all add: assms boot_bufs_def pstate.defs zero_buf_def initsleeplock_def list_all_iff quiet_def no_sleeper_def
        one_proc_def fresh_proc_def)
  then show ?thesis
    by (simp add: boot_log_def bstate.defs bok_def binit_def Let_def quiet_def no_sleeper_def curproc_def cur_def myproc_def boot_bufs_def pstate.defs)
qed

lemma boot_log_sel [simp]: "disk (boot_log d) = d" "lg_start (lg (boot_log d)) = 2" "lg_n (lg (boot_log d)) = 0"
  "lg_dev (lg (boot_log d)) = ROOTDEV" "length (lg_block (lg (boot_log d))) = LOGSIZE"
  by (simp_all add: boot_log_def bstate.defs)

lemma boot_log_idle:
  assumes "\<And>b. length (d b) = BSIZE" "hdr_n (d 2) = 0"
  shows "idle (boot_log d)"
proof -
  have "no_sleeper ChLog (boot_log d)"
    by (simp add: boot_log_def bstate.defs binit_def Let_def no_sleeper_def boot_bufs_def pstate.defs one_proc_def fresh_proc_def list_all_iff)
  then show ?thesis using boot_log_bok [OF assms(1)] assms(2)
    by (simp add: idle_def log_ok_def log_wf_def boot_log_def bstate.defs LOGSIZE_def)
qed

definition zero_disk :: disk where
  "zero_disk = (\<lambda>_. replicate BSIZE 0)"

lemma zero_disk_hdr: "hdr_n (zero_disk b) = 0"
  by (simp add: hdr_n_def zero_disk_def get32_def getb_def BSIZE_def numeral_eq_Suc)

lemma in_log_area: "b \<in> log_area start \<Longrightarrow> unat start + LOGSIZE < 4294967296 \<Longrightarrow> unat start \<le> unat b \<and> unat b \<le> unat start + LOGSIZE"
  by (auto simp: log_area_def logblk_unat)



text \<open>A crash right after the commit point of a transaction that wrote block 100.\<close>

definition crashed_disk :: disk where
  "crashed_disk = zero_disk(2 := put32s (put32 (replicate BSIZE 0) 0 1) 4 [100], 3 := replicate BSIZE 7)"

lemma crashed_disk_hdr: "hdr_n (crashed_disk 2) = 1" "hdr_blocks (crashed_disk 2) = [100]" "hdr_ok 2 (crashed_disk 2)"
proof -
  show 1: "hdr_n (crashed_disk 2) = 1" "hdr_blocks (crashed_disk 2) = [100]"
    using hdr_encode [of "replicate BSIZE 0" "[100]" 1] by (simp_all add: crashed_disk_def LOGSIZE_def)
  then show "hdr_ok 2 (crashed_disk 2)"
    using in_log_area [of 100 2] by (auto simp: hdr_ok_def hdr_n_def LOGSIZE_def)
qed


end
