(* ===== verification/Logproto.thy ===== *)
theory Logproto
  imports Txn
begin

text \<open>
  Concurrent system calls and the log: any number of processes enter with \<^verbatim>\<open>begin_op\<close>, log
  blocks, and leave with \<^verbatim>\<open>end_op\<close>, in any order.  The ghost list holds, for every running
  operation, how many new blocks it may still log (\<^verbatim>\<open>MAXOPBLOCKS\<close> at first).
\<close>

inductive lstep :: "nat list \<times> 'a lstate_scheme \<Rightarrow> nat list \<times> 'a lstate_scheme \<Rightarrow> bool" where
  begin_op: "begin_op s = Ok s' \<Longrightarrow> lstep (bs, s) (nat MAXOPBLOCKS # bs, s')"
| wait: "begin_op s = Block c \<Longrightarrow> sleep c s = Ok s' \<Longrightarrow> lstep (bs, s) (bs, s')"
| log_write: "log_write i s = Ok s' \<Longrightarrow> lg_n (lg s') = lg_n (lg s) + int k \<Longrightarrow>
    lstep (us @ (k + b) # vs, s) (us @ b # vs, s')"
| end_op: "end_op_begin s = Ok (d, s') \<Longrightarrow> lstep (us @ b # vs, s) (us @ vs, s')"
| commit: "lg_committing (lg s) \<Longrightarrow> commit_post s s' tr \<Longrightarrow> lstep (bs, s) (bs, s')"
| end_op_done: "lg_committing (lg s) \<Longrightarrow> lg_n (lg s) = 0 \<Longrightarrow> lstep (bs, s) (bs, end_op_done s)"
| other: "lg s' = lg s \<Longrightarrow> no_sleeper ChLog s \<longrightarrow> no_sleeper ChLog s' \<Longrightarrow> lstep (bs, s) (bs, s')"

definition linv :: "nat list \<times> 'a lstate_scheme \<Rightarrow> bool" where
  "linv x \<longleftrightarrow> (case x of (bs, s) \<Rightarrow> let l = lg s in
    lg_outstanding l = int (length bs) \<and> (\<forall>b \<in> set bs. b \<le> nat MAXOPBLOCKS) \<and> 0 \<le> lg_n l \<and>
    lg_n l + int (sum_list bs) \<le> int LOGSIZE \<and> (lg_committing l \<longrightarrow> bs = []) \<and>
    (bs = [] \<and> \<not> lg_committing l \<longrightarrow> lg_n l = 0) \<and>
    (no_sleeper ChLog s \<or> lg_committing l \<or> lg_n l + (lg_outstanding l + 1) * MAXOPBLOCKS > int LOGSIZE))"

lemma sum_list_bound: "\<forall>b \<in> set bs. b \<le> (m :: nat) \<Longrightarrow> sum_list bs \<le> m * length bs"
  by (induction bs) auto

lemma log_write_lg:
  "log_write i s = Ok s' \<Longrightarrow> lg_outstanding (lg s') = lg_outstanding (lg s) \<and> lg_committing (lg s') = lg_committing (lg s) \<and>
    procs s' = procs s"
  by (auto simp: log_write_def Let_def bpin_def set_buf_def split: if_splits)

lemma no_ops: "int (length us) + int (length vs) = 0 \<longleftrightarrow> us = [] \<and> vs = []"
  by (cases us; cases vs) simp_all

lemma lstep_inv:
  assumes "lstep x y" "linv x"
  shows "linv y"
  using assms
proof (cases rule: lstep.cases)
  case (begin_op s s' bs)
  then have b: "\<not> lg_committing (lg s)" "lg_n (lg s) + (lg_outstanding (lg s) + 1) * MAXOPBLOCKS \<le> int LOGSIZE"
    "s' = s\<lparr>lg := (lg s)\<lparr>lg_outstanding := lg_outstanding (lg s) + 1\<rparr>\<rparr>"
    by (auto simp: begin_op_def split: if_splits)
  have i: "linv (bs, s)" using assms(2) begin_op by simp
  then have "int (sum_list bs) \<le> MAXOPBLOCKS * int (length bs)"
    using sum_list_bound [of bs "nat MAXOPBLOCKS"] by (simp add: linv_def Let_def MAXOPBLOCKS_def)
  then show ?thesis using i b begin_op by (auto simp: linv_def Let_def MAXOPBLOCKS_def no_sleeper_def)
next
  case (wait s c s' bs)
  then have "lg_committing (lg s) \<or> lg_n (lg s) + (lg_outstanding (lg s) + 1) * MAXOPBLOCKS > int LOGSIZE"
    by (auto simp: begin_op_def split: if_splits)
  moreover have "lg s' = lg s" using wait by (auto simp: sleep_def sched_def set_proc_def split: if_splits)
  ultimately show ?thesis using assms(2) wait by (auto simp: linv_def Let_def)
next
  case (log_write i s s' k us b vs)
  then show ?thesis using assms(2) log_write_lg [OF log_write(3)] by (auto simp: linv_def Let_def no_sleeper_def algebra_simps)
next
  case (end_op s d s' us b vs)
  then show ?thesis using assms(2)
    by (auto simp: linv_def Let_def end_op_begin_def wakeup_def no_sleeper_def list_all_iff no_ops split: if_splits)
next
  case (commit s s' tr bs)
  then have c: "changed (s\<lparr>lg := (lg s)\<lparr>lg_n := 0\<rparr>\<rparr>) s'" by (simp add: commit_post_def)
  show ?thesis using assms(2) commit changed_lg [OF c] by (auto simp: linv_def Let_def)
next
  case (end_op_done s bs)
  then show ?thesis using assms(2)
    by (auto simp: linv_def Let_def end_op_done_def wakeup_def no_sleeper_def list_all_iff)
next
  case (other s' s bs)
  then show ?thesis using assms(2) by (auto simp: linv_def Let_def)
qed

lemma lsteps_inv: "lstep\<^sup>*\<^sup>* x y \<Longrightarrow> linv x \<Longrightarrow> linv y"
  by (induction rule: rtranclp_induct) (auto intro: lstep_inv)

section \<open>Properties\<close>

text \<open>
  Claim C9. However system calls interleave, the blocks in the log plus those the running
  operations may still add fit into \<^verbatim>\<open>LOGSIZE\<close>, and a process sleeps in \<^verbatim>\<open>begin_op\<close> only
  while an operation is running or a commit is in progress, whose end will wake it.
\<close>

theorem begin_op_admission:
  assumes "idle s0" "lstep\<^sup>*\<^sup>* ([], s0) (bs, s)"
  shows "lg_n (lg s) + int (sum_list bs) \<le> int LOGSIZE \<and> lg_outstanding (lg s) = int (length bs) \<and>
    (no_sleeper ChLog s \<or> bs \<noteq> [] \<or> lg_committing (lg s))"
proof -
  have "linv ([], s0)" using assms(1) by (simp add: idle_def linv_def Let_def)
  from lsteps_inv [OF assms(2) this] show ?thesis
    by (auto simp: linv_def Let_def MAXOPBLOCKS_def LOGSIZE_def)
qed

theorem begin_op_admission_witness:
  "\<exists>s. lstep\<^sup>*\<^sup>* ([], boot_log zero_disk) ([10], s) \<and> lg_n (lg s) + int (sum_list [10]) \<le> int LOGSIZE"
proof -
  have i: "idle (boot_log zero_disk)" by (rule boot_log_idle) (simp_all add: zero_disk_hdr, simp add: zero_disk_def)
  obtain s where s: "begin_op (boot_log zero_disk) = Ok s"
    using i by (simp add: begin_op_def idle_def MAXOPBLOCKS_def LOGSIZE_def)
  have "lstep\<^sup>*\<^sup>* ([], boot_log zero_disk) ([10], s)"
    using lstep.begin_op [OF s, of "[]"] by (simp add: MAXOPBLOCKS_def)
  with begin_op_admission [OF i this] show ?thesis by blast
qed

text \<open>
  Claim C23. \<^verbatim>\<open>begin_op\<close> reserves more than the log of \<^verbatim>\<open>mkfs\<close> holds: from an idle state three
  operations are admitted, which may log \<open>3 * MAXOPBLOCKS = 30\<close> blocks; but with
  \<^verbatim>\<open>log.size = LOGSIZE = 30\<close>, one block of which is the header, \<^verbatim>\<open>log_write\<close> of the 30th
  distinct block panics.
\<close>

theorem log_reservation_overrun:
  assumes "idle s" "st = lg_start (lg s)" "length us = 30" "distinct (map fst us)"
    and us: "\<And>b x. (b, x) \<in> set us \<Longrightarrow> b \<notin> log_area st \<and> length x = BSIZE"
  shows "\<exists>s1 s2 s3 s4. begin_op s = Ok s1 \<and> begin_op s1 = Ok s2 \<and> begin_op s2 = Ok s3 \<and>
    foreach (\<lambda>(b, x). update_block b (\<lambda>_. x)) (take 29 us) s3 = Ok s4 \<and>
    update_block (fst (us ! 29)) (\<lambda>_. snd (us ! 29)) s4 = Panic ''too big a transaction''"
proof -
  have ok: "log_ok {} s" and i: "lg_n (lg s) = 0" "lg_outstanding (lg s) = 0" "\<not> lg_committing (lg s)"
    "lg_size (lg s) = int LOGSIZE" using assms(1) by (simp_all add: idle_def)
  let ?s = "\<lambda>k. s\<lparr>lg := (lg s)\<lparr>lg_outstanding := k\<rparr>\<rparr>"
  have b: "begin_op s = Ok (?s 1)" "begin_op (?s 1) = Ok (?s 2)" "begin_op (?s 2) = Ok (?s 3)"
    using i by (simp_all add: begin_op_def MAXOPBLOCKS_def LOGSIZE_def)
  have "txn (length (take 29 us)) {} (?s 3)" using ok i assms(3) by (simp add: txn_def log_ok_def log_wf_def LOGSIZE_def)
  moreover have "st = lg_start (lg (?s 3))" using assms(2) by simp
  moreover have "b \<notin> log_area st \<and> length x = BSIZE" if "(b, x) \<in> set (take 29 us)" for b x using us in_set_takeD that by fast
  ultimately obtain s4 l where 1:
    "foreach (\<lambda>(b, x). update_block b (\<lambda>_. x)) (take 29 us) (?s 3) = Ok s4" "txn 0 {} s4" "changed (?s 3\<lparr>lg := l\<rparr>) s4"
    "lg_size l = lg_size (lg s)" "set (logged s4) = set (logged (?s 3)) \<union> fst ` set (take 29 us)"
    using updates_run [of "take 29 us" "?s 3" st] by auto
  have lg4: "lg s4 = l" using changed_lg [OF 1(3)] by simp
  have wf: "log_wf (lg s4)" using 1(2) by (simp add: txn_def log_ok_def)
  have "set (logged s4) = set (map fst (take 29 us))" using 1(5) i(1) by simp
  then have "card (set (logged s4)) = 29" using assms(3,4) distinct_card [of "map fst (take 29 us)"] by (simp flip: take_map)
  then have n: "lg_n (lg s4) = 29" using log_wfD(7,8) [OF wf refl refl refl] by simp
  obtain j s5 where 2: "bread ROOTDEV (fst (us ! 29)) s4 = Ok (j, s5)" "changed s4 s5"
    by (rule bread_txn [OF 1(2), of "fst (us ! 29)"]) auto
  have "log_write j (bset j x s5) = Panic ''too big a transaction''" for x
    using n changed_lg [OF 2(2)] i(4) lg4 1(4) by (simp add: log_write_def bset_def set_buf_def Let_def LOGSIZE_def)
  then have "update_block (fst (us ! 29)) (\<lambda>_. snd (us ! 29)) s4 = Panic ''too big a transaction''"
    using 2(1) by (simp add: update_block_def)
  with b 1(1) show ?thesis by blast
qed

theorem log_reservation_overrun_witness:
  "\<exists>s3 s4 :: lstate. foreach (\<lambda>(b, x). update_block b (\<lambda>_. x)) (map (\<lambda>i. (of_nat (100 + i), replicate BSIZE 1)) [0..<29]) s3 = Ok s4 \<and>
    update_block 129 (\<lambda>_. replicate BSIZE 1) s4 = Panic ''too big a transaction''"
proof -
  let ?us = "map (\<lambda>i. (of_nat (100 + i) :: uint, replicate BSIZE (1 :: uchar))) [0..<30]"
  have i: "idle (boot_log zero_disk)" by (rule boot_log_idle) (simp_all add: zero_disk_hdr, simp add: zero_disk_def)
  have "of_nat (100 + i) \<notin> log_area 2" if "i < 30" for i
  proof -
    have "unat (of_nat (100 + i) :: uint) = 100 + i" by (rule unat_of_nat32) (use that in simp)
    then show ?thesis using in_log_area [of "of_nat (100 + i)" 2] by (auto simp: LOGSIZE_def simp del: of_nat_add)
  qed
  then have us: "\<And>b x. (b, x) \<in> set ?us \<Longrightarrow> b \<notin> log_area 2 \<and> length x = BSIZE" by auto
  have d: "distinct (map fst ?us)" by (simp add: distinct_map inj_on_def word_of_nat_eq_iff take_bit_nat_eq_self)
  have t: "take 29 ?us = map (\<lambda>i. (of_nat (100 + i), replicate BSIZE 1)) [0..<29]" by (simp add: take_map)
  have n: "?us ! 29 = (129, replicate BSIZE 1)" by simp
  from log_reservation_overrun [OF i _ _ d, of 2] us show ?thesis unfolding t n by auto
qed

end
