(* ===== verification/Fs.thy ===== *)
theory Fs
  imports Logproto
begin

text \<open>
  The file system, \<^verbatim>\<open>kernel/fs.c\<close> and \<^verbatim>\<open>kernel/fs.h\<close>: disk blocks, inodes, their contents,
  directories and path names.

  A slot of \<^verbatim>\<open>icache.inode[NINODE]\<close> is named by its index.  On-disk structures are read and
  stored byte by byte in the data of a buffer.  A local variable that \<^verbatim>\<open>readi\<close> fills or
  \<^verbatim>\<open>writei\<close> reads (\<^verbatim>\<open>struct dirent de\<close>) is passed by value: \<open>Local\<close>.
\<close>

section \<open>Layout\<close>

record superblock =
  sb_magic :: uint
  sb_size :: uint
  sb_nblocks :: uint
  sb_ninodes :: uint
  sb_nlog :: uint
  sb_logstart :: uint
  sb_inodestart :: uint
  sb_bmapstart :: uint

record dinode =
  d_type :: ushort
  d_major :: ushort
  d_minor :: ushort
  d_nlink :: ushort
  d_size :: uint
  d_addrs :: "uint list"

record inode =
  i_dev :: uint
  i_inum :: uint
  i_ref :: int
  i_lock :: sleeplock
  i_valid :: bool
  i_type :: ushort
  i_major :: ushort
  i_minor :: ushort
  i_nlink :: ushort
  i_size :: uint
  i_addrs :: "uint list"

record fstate = lstate +
  sb :: superblock
  icache :: "inode list"

definition ROOTINO :: uint where "ROOTINO = 1"
definition FSMAGIC :: uint where "FSMAGIC = 0x10203040"
definition NDIRECT :: nat where "NDIRECT = 12"
definition NINDIRECT :: nat where "NINDIRECT = BSIZE div 4"
definition MAXFILE :: nat where "MAXFILE = NDIRECT + NINDIRECT"
definition IPB :: nat where "IPB = BSIZE div 64"
definition IBLOCK :: "uint \<Rightarrow> superblock \<Rightarrow> uint" where
  "IBLOCK i q = i div of_nat IPB + sb_inodestart q"
definition BPB :: nat where "BPB = BSIZE * 8"
definition BBLOCK :: "uint \<Rightarrow> superblock \<Rightarrow> uint" where
  "BBLOCK b q = b div of_nat BPB + sb_bmapstart q"
definition DIRSIZ :: nat where "DIRSIZ = 14"
definition NINODE :: nat where "NINODE = 50"
definition T_DIR :: ushort where "T_DIR = 1"
definition T_FILE :: ushort where "T_FILE = 2"
definition T_DEVICE :: ushort where "T_DEVICE = 3"

text \<open>\<^verbatim>\<open>struct dinode\<close> takes 64 bytes, \<^verbatim>\<open>struct superblock\<close> 32, \<^verbatim>\<open>struct dirent\<close> 16.\<close>

definition get_dinode :: "block \<Rightarrow> nat \<Rightarrow> dinode" where
  "get_dinode d off = \<lparr>d_type = get16 d off, d_major = get16 d (off + 2), d_minor = get16 d (off + 4),
     d_nlink = get16 d (off + 6), d_size = get32 d (off + 8), d_addrs = get32s d (off + 12) (NDIRECT + 1)\<rparr>"

definition put_dinode :: "block \<Rightarrow> nat \<Rightarrow> dinode \<Rightarrow> block" where
  "put_dinode d off x =
    put32s (put32 (put16 (put16 (put16 (put16 d off (d_type x)) (off + 2) (d_major x)) (off + 4) (d_minor x))
      (off + 6) (d_nlink x)) (off + 8) (d_size x)) (off + 12) (d_addrs x)"

definition get_superblock :: "block \<Rightarrow> superblock" where
  "get_superblock d = \<lparr>sb_magic = get32 d 0, sb_size = get32 d 4, sb_nblocks = get32 d 8, sb_ninodes = get32 d 12,
     sb_nlog = get32 d 16, sb_logstart = get32 d 20, sb_inodestart = get32 d 24, sb_bmapstart = get32 d 28\<rparr>"

definition readsb :: "uint \<Rightarrow> 'a fstate_scheme \<Rightarrow> 'a fstate_scheme res" where
  "readsb dev s =
    bindr (bread dev 1 s) (\<lambda>(bp, s).
    brelse bp (s\<lparr>sb := get_superblock (b_data (bufs s ! bp))\<rparr>))"

definition fsinit :: "uint \<Rightarrow> 'a fstate_scheme \<Rightarrow> 'a fstate_scheme res" where
  "fsinit dev s =
    bindr (readsb dev s) (\<lambda>s.
    if sb_magic (sb s) \<noteq> FSMAGIC then Panic ''invalid file system''
    else initlog dev (sb_logstart (sb s)) (sb_nlog (sb s)) s)"

section \<open>Blocks\<close>

definition bzero :: "uint \<Rightarrow> uint \<Rightarrow> 'a fstate_scheme \<Rightarrow> 'a fstate_scheme res" where
  "bzero dev bno s =
    bindr (bread dev bno s) (\<lambda>(bp, s).
    bindr (log_write bp (bset bp (replicate BSIZE 0) s)) (\<lambda>s.
    brelse bp s))"

text \<open>The bit of block \<open>b\<close> in its bitmap block, at index \<open>bi = b % BPB\<close>.\<close>

definition bit_at :: "block \<Rightarrow> nat \<Rightarrow> bool" where
  "bit_at d bi = (d ! (bi div 8) AND push_bit (bi mod 8) 1 \<noteq> 0)"

definition set_bit_at :: "block \<Rightarrow> nat \<Rightarrow> block" where
  "set_bit_at d bi = d[bi div 8 := d ! (bi div 8) OR push_bit (bi mod 8) 1]"

definition clear_bit_at :: "block \<Rightarrow> nat \<Rightarrow> block" where
  "clear_bit_at d bi = d[bi div 8 := d ! (bi div 8) AND NOT (push_bit (bi mod 8) 1)]"

text \<open>
  \<^verbatim>\<open>balloc\<close>: the outer loop runs over the first blocks \<open>b\<close> of the groups that one bitmap
  block describes, the inner one over the bits below \<^verbatim>\<open>sb.size\<close>.
\<close>

primrec balloc_loop :: "uint \<Rightarrow> nat list \<Rightarrow> 'a fstate_scheme \<Rightarrow> (uint \<times> 'a fstate_scheme) res" where
  "balloc_loop dev [] s = Panic ''balloc: out of blocks''"
| "balloc_loop dev (b # bs) s =
    bindr (bread dev (BBLOCK (of_nat b) (sb s)) s) (\<lambda>(bp, s).
    let d = b_data (bufs s ! bp) in
    case find (\<lambda>bi. \<not> bit_at d bi) [0..<min BPB (unat (sb_size (sb s)) - b)] of
      Some bi \<Rightarrow>
        bindr (log_write bp (bset bp (set_bit_at d bi) s)) (\<lambda>s.
        bindr (brelse bp s) (\<lambda>s.
        bindr (bzero dev (of_nat (b + bi)) s) (\<lambda>s.
        Ok (of_nat (b + bi), s))))
    | None \<Rightarrow> bindr (brelse bp s) (balloc_loop dev bs))"

definition balloc :: "uint \<Rightarrow> 'a fstate_scheme \<Rightarrow> (uint \<times> 'a fstate_scheme) res" where
  "balloc dev s = balloc_loop dev (map (\<lambda>k. k * BPB) [0..<(unat (sb_size (sb s)) + BPB - 1) div BPB]) s"

definition bfree :: "uint \<Rightarrow> uint \<Rightarrow> 'a fstate_scheme \<Rightarrow> 'a fstate_scheme res" where
  "bfree dev b s =
    bindr (bread dev (BBLOCK b (sb s)) s) (\<lambda>(bp, s).
    let d = b_data (bufs s ! bp); bi = unat b mod BPB in
    if \<not> bit_at d bi then Panic ''freeing free block''
    else
      bindr (log_write bp (bset bp (clear_bit_at d bi) s)) (\<lambda>s.
      brelse bp s))"

section \<open>Inodes\<close>

definition set_inode :: "nat \<Rightarrow> (inode \<Rightarrow> inode) \<Rightarrow> 'a fstate_scheme \<Rightarrow> 'a fstate_scheme" where
  "set_inode i f s = s\<lparr>icache := (icache s)[i := f (icache s ! i)]\<rparr>"

definition iinit :: "'a fstate_scheme \<Rightarrow> 'a fstate_scheme" where
  "iinit s = s\<lparr>icache := map (\<lambda>ip. ip\<lparr>i_lock := initsleeplock\<rparr>) (icache s)\<rparr>"

definition iget :: "uint \<Rightarrow> uint \<Rightarrow> 'a fstate_scheme \<Rightarrow> (nat \<times> 'a fstate_scheme) res" where
  "iget dev inum s =
    (case find (\<lambda>i. i_ref (icache s ! i) > 0 \<and> i_dev (icache s ! i) = dev \<and> i_inum (icache s ! i) = inum) [0..<NINODE] of
       Some i \<Rightarrow> Ok (i, set_inode i (\<lambda>ip. ip\<lparr>i_ref := i_ref ip + 1\<rparr>) s)
     | None \<Rightarrow>
         (case find (\<lambda>i. i_ref (icache s ! i) = 0) [0..<NINODE] of
            None \<Rightarrow> Panic ''iget: no inodes''
          | Some i \<Rightarrow> Ok (i, set_inode i (\<lambda>ip. ip\<lparr>i_dev := dev, i_inum := inum, i_ref := 1, i_valid := False\<rparr>) s)))"

primrec ialloc_loop :: "uint \<Rightarrow> ushort \<Rightarrow> nat list \<Rightarrow> 'a fstate_scheme \<Rightarrow> (nat \<times> 'a fstate_scheme) res" where
  "ialloc_loop dev type [] s = Panic ''ialloc: no inodes''"
| "ialloc_loop dev type (inum # ns) s =
    bindr (bread dev (IBLOCK (of_nat inum) (sb s)) s) (\<lambda>(bp, s).
    let d = b_data (bufs s ! bp); off = 64 * (inum mod IPB) in
    if d_type (get_dinode d off) = 0 then
      bindr (log_write bp (bset bp (put16 (putb d off (replicate 64 0)) off type) s)) (\<lambda>s.
      bindr (brelse bp s) (\<lambda>s.
      iget dev (of_nat inum) s))
    else bindr (brelse bp s) (ialloc_loop dev type ns))"

definition ialloc :: "uint \<Rightarrow> ushort \<Rightarrow> 'a fstate_scheme \<Rightarrow> (nat \<times> 'a fstate_scheme) res" where
  "ialloc dev type s = ialloc_loop dev type [1..<unat (sb_ninodes (sb s))] s"

definition dinode_of :: "inode \<Rightarrow> dinode" where
  "dinode_of ip = \<lparr>d_type = i_type ip, d_major = i_major ip, d_minor = i_minor ip, d_nlink = i_nlink ip,
     d_size = i_size ip, d_addrs = i_addrs ip\<rparr>"

definition load_dinode :: "dinode \<Rightarrow> inode \<Rightarrow> inode" where
  "load_dinode x ip = ip\<lparr>i_type := d_type x, i_major := d_major x, i_minor := d_minor x, i_nlink := d_nlink x,
     i_size := d_size x, i_addrs := d_addrs x\<rparr>"

definition iupdate :: "nat \<Rightarrow> 'a fstate_scheme \<Rightarrow> 'a fstate_scheme res" where
  "iupdate i s =
    (let ip = icache s ! i in
     bindr (bread (i_dev ip) (IBLOCK (i_inum ip) (sb s)) s) (\<lambda>(bp, s).
     bindr (log_write bp (bset bp (put_dinode (b_data (bufs s ! bp)) (64 * (unat (i_inum ip) mod IPB)) (dinode_of ip)) s)) (\<lambda>s.
     brelse bp s)))"

definition idup :: "nat \<Rightarrow> 'a fstate_scheme \<Rightarrow> 'a fstate_scheme" where
  "idup i s = set_inode i (\<lambda>ip. ip\<lparr>i_ref := i_ref ip + 1\<rparr>) s"

definition ilock :: "nat \<Rightarrow> 'a fstate_scheme \<Rightarrow> 'a fstate_scheme res" where
  "ilock i s =
    (if i_ref (icache s ! i) < 1 then Panic ''ilock''
     else
       bindr (acquiresleep (ChInodeLock i) (i_lock (icache s ! i)) s) (\<lambda>lk.
       let s = set_inode i (\<lambda>ip. ip\<lparr>i_lock := lk\<rparr>) s; ip = icache s ! i in
       if \<not> i_valid ip then
         bindr (bread (i_dev ip) (IBLOCK (i_inum ip) (sb s)) s) (\<lambda>(bp, s).
         let s = set_inode i (load_dinode (get_dinode (b_data (bufs s ! bp)) (64 * (unat (i_inum ip) mod IPB)))) s in
         bindr (brelse bp s) (\<lambda>s.
         let s = set_inode i (\<lambda>ip. ip\<lparr>i_valid := True\<rparr>) s in
         if i_type (icache s ! i) = 0 then Panic ''ilock: no type'' else Ok s))
       else Ok s))"

definition iunlock :: "nat \<Rightarrow> 'a fstate_scheme \<Rightarrow> 'a fstate_scheme res" where
  "iunlock i s =
    (if \<not> holdingsleep (i_lock (icache s ! i)) s \<or> i_ref (icache s ! i) < 1 then Panic ''iunlock''
     else let (lk, s) = releasesleep (ChInodeLock i) (i_lock (icache s ! i)) s
          in Ok (set_inode i (\<lambda>ip. ip\<lparr>i_lock := lk\<rparr>) s))"

section \<open>Contents of inodes\<close>

definition bmap :: "nat \<Rightarrow> nat \<Rightarrow> 'a fstate_scheme \<Rightarrow> (uint \<times> 'a fstate_scheme) res" where
  "bmap i bn s =
    (let ip = icache s ! i in
     if bn < NDIRECT then
       if i_addrs ip ! bn = 0 then
         bindr (balloc (i_dev ip) s) (\<lambda>(addr, s).
         Ok (addr, set_inode i (\<lambda>ip. ip\<lparr>i_addrs := (i_addrs ip)[bn := addr]\<rparr>) s))
       else Ok (i_addrs ip ! bn, s)
     else
       let bn = bn - NDIRECT in
       if bn < NINDIRECT then
         bindr (if i_addrs ip ! NDIRECT = 0 then
             bindr (balloc (i_dev ip) s) (\<lambda>(addr, s).
             Ok (addr, set_inode i (\<lambda>ip. ip\<lparr>i_addrs := (i_addrs ip)[NDIRECT := addr]\<rparr>) s))
           else Ok (i_addrs ip ! NDIRECT, s)) (\<lambda>(addr, s).
         bindr (bread (i_dev ip) addr s) (\<lambda>(bp, s).
         bindr (if get32 (b_data (bufs s ! bp)) (4 * bn) = 0 then
             bindr (balloc (i_dev ip) s) (\<lambda>(addr, s).
             bindr (log_write bp (bset bp (put32 (b_data (bufs s ! bp)) (4 * bn) addr) s)) (\<lambda>s.
             Ok (addr, s)))
           else Ok (get32 (b_data (bufs s ! bp)) (4 * bn), s)) (\<lambda>(addr, s).
         bindr (brelse bp s) (\<lambda>s. Ok (addr, s)))))
       else Panic ''bmap: out of range'')"

definition itrunc_direct :: "nat \<Rightarrow> nat \<Rightarrow> 'a fstate_scheme \<Rightarrow> 'a fstate_scheme res" where
  "itrunc_direct i k s =
    (let ip = icache s ! i in
     if i_addrs ip ! k \<noteq> 0 then
       bindr (bfree (i_dev ip) (i_addrs ip ! k) s) (\<lambda>s.
       Ok (set_inode i (\<lambda>ip. ip\<lparr>i_addrs := (i_addrs ip)[k := 0]\<rparr>) s))
     else Ok s)"

definition itrunc :: "nat \<Rightarrow> 'a fstate_scheme \<Rightarrow> 'a fstate_scheme res" where
  "itrunc i s =
    bindr (foreach (itrunc_direct i) [0..<NDIRECT] s) (\<lambda>s.
    let ip = icache s ! i in
    bindr (if i_addrs ip ! NDIRECT \<noteq> 0 then
        bindr (bread (i_dev ip) (i_addrs ip ! NDIRECT) s) (\<lambda>(bp, s).
        bindr (foreach (\<lambda>j s. let a = get32 (b_data (bufs s ! bp)) (4 * j) in
            if a \<noteq> 0 then bfree (i_dev ip) a s else Ok s) [0..<NINDIRECT] s) (\<lambda>s.
        bindr (brelse bp s) (\<lambda>s.
        bindr (bfree (i_dev ip) (i_addrs ip ! NDIRECT) s) (\<lambda>s.
        Ok (set_inode i (\<lambda>ip. ip\<lparr>i_addrs := (i_addrs ip)[NDIRECT := 0]\<rparr>) s)))))
      else Ok s) (\<lambda>s.
    iupdate i (set_inode i (\<lambda>ip. ip\<lparr>i_size := 0\<rparr>) s)))"

definition iput :: "nat \<Rightarrow> 'a fstate_scheme \<Rightarrow> 'a fstate_scheme res" where
  "iput i s =
    (let ip = icache s ! i in
     bindr (if i_ref ip = 1 \<and> i_valid ip \<and> i_nlink ip = 0 then
         bindr (acquiresleep (ChInodeLock i) (i_lock ip) s) (\<lambda>lk.
         bindr (itrunc i (set_inode i (\<lambda>ip. ip\<lparr>i_lock := lk\<rparr>) s)) (\<lambda>s.
         bindr (iupdate i (set_inode i (\<lambda>ip. ip\<lparr>i_type := 0\<rparr>) s)) (\<lambda>s.
         let s = set_inode i (\<lambda>ip. ip\<lparr>i_valid := False\<rparr>) s;
             (lk, s) = releasesleep (ChInodeLock i) (i_lock (icache s ! i)) s
         in Ok (set_inode i (\<lambda>ip. ip\<lparr>i_lock := lk\<rparr>) s))))
       else Ok s) (\<lambda>s.
     Ok (set_inode i (\<lambda>ip. ip\<lparr>i_ref := i_ref ip - 1\<rparr>) s)))"

definition iunlockput :: "nat \<Rightarrow> 'a fstate_scheme \<Rightarrow> 'a fstate_scheme res" where
  "iunlockput i s = bindr (iunlock i s) (iput i)"

record stat =
  st_dev :: uint
  st_ino :: uint
  st_type :: ushort
  st_nlink :: ushort
  st_size :: uint64

definition stati :: "nat \<Rightarrow> 'a fstate_scheme \<Rightarrow> stat" where
  "stati i s =
    (let ip = icache s ! i in
     \<lparr>st_dev = i_dev ip, st_ino = i_inum ip, st_type = i_type ip, st_nlink = i_nlink ip, st_size = ucast (i_size ip)\<rparr>)"

section \<open>Reading and writing\<close>

datatype kdst = UserDst uint64 | KernDst uint64 | LocalDst
datatype ksrc = UserSrc uint64 | KernSrc uint64 | LocalSrc "uchar list"

text \<open>
  \<^verbatim>\<open>either_copyout\<close> of \<open>src\<close> to \<open>dst + tot\<close>, and \<^verbatim>\<open>either_copyin\<close> of \<open>m\<close> bytes from
  \<open>src + tot\<close>, which may stop after some of the bytes.
\<close>

definition kcopyout :: "kdst \<Rightarrow> nat \<Rightarrow> uchar list \<Rightarrow> 'a pstate_scheme \<Rightarrow> int \<times> 'a pstate_scheme" where
  "kcopyout dst tot src s =
    (case dst of UserDst a \<Rightarrow> either_copyout True (a + of_nat tot) src s
     | KernDst a \<Rightarrow> either_copyout False (a + of_nat tot) src s
     | LocalDst \<Rightarrow> (0, s))"

definition kcopyin :: "ksrc \<Rightarrow> nat \<Rightarrow> nat \<Rightarrow> 'a pstate_scheme \<Rightarrow> int \<times> uchar list" where
  "kcopyin src tot m s =
    (case src of UserSrc a \<Rightarrow> either_copyin True (a + of_nat tot) m s
     | KernSrc a \<Rightarrow> either_copyin False (a + of_nat tot) m s
     | LocalSrc bs \<Rightarrow> (0, take m (drop tot bs)))"

text \<open>
  The loop of \<^verbatim>\<open>readi\<close> with \<open>r = n - tot\<close> bytes to go.  The result also carries the bytes that were
  copied out, which is what a local destination holds afterwards.
\<close>

function readi_loop :: "nat \<Rightarrow> kdst \<Rightarrow> nat \<Rightarrow> nat \<Rightarrow> nat \<Rightarrow> 'a fstate_scheme \<Rightarrow> (int \<times> uchar list \<times> 'a fstate_scheme) res" where
  "readi_loop i dst tot off r s =
    (if r = 0 then Ok (int tot, [], s)
     else
       bindr (bmap i (off div BSIZE) s) (\<lambda>(addr, s).
       bindr (bread (i_dev (icache s ! i)) addr s) (\<lambda>(bp, s).
       let m = min r (BSIZE - off mod BSIZE);
           src = getb (b_data (bufs s ! bp)) (off mod BSIZE) m;
           (e, s) = kcopyout dst tot src s
       in
       bindr (brelse bp s) (\<lambda>s.
       if e = -1 then Ok (-1, [], s)
       else bindr (readi_loop i dst (tot + m) (off + m) (r - m) s) (\<lambda>(t, bs, s). Ok (t, src @ bs, s))))))"
  by pat_completeness auto

termination
  by (relation "measure (\<lambda>(i, dst, tot, off, r, s). r)") (auto simp: BSIZE_def)

definition readi :: "nat \<Rightarrow> kdst \<Rightarrow> uint \<Rightarrow> uint \<Rightarrow> 'a fstate_scheme \<Rightarrow> (int \<times> uchar list \<times> 'a fstate_scheme) res" where
  "readi i dst off n s =
    (let sz = i_size (icache s ! i) in
     if off > sz \<or> off + n < off then Ok (0, [], s)
     else readi_loop i dst 0 (unat off) (unat (if off + n > sz then sz - off else n)) s)"

text \<open>
  The loop of \<^verbatim>\<open>writei\<close> returns \<^verbatim>\<open>tot\<close> and \<^verbatim>\<open>off\<close>.  When \<^verbatim>\<open>either_copyin\<close> fails it may have
  stored some bytes into the buffer, which is then released without being logged.
\<close>

function writei_loop :: "nat \<Rightarrow> ksrc \<Rightarrow> nat \<Rightarrow> nat \<Rightarrow> nat \<Rightarrow> 'a fstate_scheme \<Rightarrow> (nat \<times> nat \<times> 'a fstate_scheme) res" where
  "writei_loop i src tot off r s =
    (if r = 0 then Ok (tot, off, s)
     else
       bindr (bmap i (off div BSIZE) s) (\<lambda>(addr, s).
       bindr (bread (i_dev (icache s ! i)) addr s) (\<lambda>(bp, s).
       let m = min r (BSIZE - off mod BSIZE);
           (e, bs) = kcopyin src tot m s;
           s = bset bp (putb (b_data (bufs s ! bp)) (off mod BSIZE) bs) s
       in
       if e = -1 then bindr (brelse bp s) (\<lambda>s. Ok (tot, off, s))
       else
         bindr (log_write bp s) (\<lambda>s.
         bindr (brelse bp s) (\<lambda>s.
         writei_loop i src (tot + m) (off + m) (r - m) s)))))"
  by pat_completeness auto

termination
  by (relation "measure (\<lambda>(i, src, tot, off, r, s). r)") (auto simp: BSIZE_def)

definition writei :: "nat \<Rightarrow> ksrc \<Rightarrow> uint \<Rightarrow> uint \<Rightarrow> 'a fstate_scheme \<Rightarrow> (int \<times> 'a fstate_scheme) res" where
  "writei i src off n s =
    (if off > i_size (icache s ! i) \<or> off + n < off then Ok (-1, s)
     else if unat (off + n) > MAXFILE * BSIZE then Ok (-1, s)
     else
       bindr (writei_loop i src 0 (unat off) (unat n) s) (\<lambda>(tot, off, s).
       bindr (iupdate i (if off > unat (i_size (icache s ! i)) then set_inode i (\<lambda>ip. ip\<lparr>i_size := of_nat off\<rparr>) s else s)) (\<lambda>s.
       Ok (int tot, s))))"

section \<open>Directories\<close>

text \<open>
  Names are the bytes of a string up to, but not including, the zero byte (\<^verbatim>\<open>DIRSIZ\<close> bytes
  without one if the string fills its field).
\<close>

definition byte_at :: "uchar list \<Rightarrow> nat \<Rightarrow> uchar" where
  "byte_at s k = (if k < length s then s ! k else 0)"

fun strncmp_bytes :: "nat \<Rightarrow> uchar list \<Rightarrow> uchar list \<Rightarrow> int" where
  "strncmp_bytes 0 s t = 0"
| "strncmp_bytes (Suc n) s t =
    (if byte_at s 0 \<noteq> 0 \<and> byte_at s 0 = byte_at t 0 then strncmp_bytes n (tl s) (tl t)
     else uint (byte_at s 0) - uint (byte_at t 0))"

definition namecmp :: "uchar list \<Rightarrow> uchar list \<Rightarrow> int" where
  "namecmp s t = strncmp_bytes DIRSIZ s t"

definition de_inum :: "uchar list \<Rightarrow> ushort" where "de_inum de = of_le (take 2 de)"
definition de_name :: "uchar list \<Rightarrow> uchar list" where "de_name de = drop 2 de"

primrec dirlookup_loop :: "nat \<Rightarrow> uchar list \<Rightarrow> nat list \<Rightarrow> 'a fstate_scheme \<Rightarrow> ((nat \<times> uint) option \<times> 'a fstate_scheme) res" where
  "dirlookup_loop dp name [] s = Ok (None, s)"
| "dirlookup_loop dp name (off # offs) s =
    bindr (readi dp LocalDst (of_nat off) 16 s) (\<lambda>(r, de, s).
    if r \<noteq> 16 then Panic ''dirlookup read''
    else if de_inum de = 0 then dirlookup_loop dp name offs s
    else if namecmp name (de_name de) = 0 then
      bindr (iget (i_dev (icache s ! dp)) (ucast (de_inum de)) s) (\<lambda>(ip, s). Ok (Some (ip, of_nat off), s))
    else dirlookup_loop dp name offs s)"

text \<open>The offsets \<open>0, 16, \<dots>\<close> below the size of the directory.\<close>

definition dir_offs :: "uint \<Rightarrow> nat list" where
  "dir_offs sz = map (\<lambda>k. 16 * k) [0..<(unat sz + 15) div 16]"

definition dirlookup :: "nat \<Rightarrow> uchar list \<Rightarrow> 'a fstate_scheme \<Rightarrow> ((nat \<times> uint) option \<times> 'a fstate_scheme) res" where
  "dirlookup dp name s =
    (if i_type (icache s ! dp) \<noteq> T_DIR then Panic ''dirlookup not DIR''
     else dirlookup_loop dp name (dir_offs (i_size (icache s ! dp))) s)"

text \<open>The loop of \<^verbatim>\<open>dirlink\<close> leaves the offset of the first empty entry, or the size.\<close>

primrec dirlink_loop :: "nat \<Rightarrow> nat \<Rightarrow> nat list \<Rightarrow> 'a fstate_scheme \<Rightarrow> (nat \<times> 'a fstate_scheme) res" where
  "dirlink_loop dp e [] s = Ok (e, s)"
| "dirlink_loop dp e (off # offs) s =
    bindr (readi dp LocalDst (of_nat off) 16 s) (\<lambda>(r, de, s).
    if r \<noteq> 16 then Panic ''dirlink read''
    else if de_inum de = 0 then Ok (off, s)
    else dirlink_loop dp (off + 16) offs s)"

definition dirlink :: "nat \<Rightarrow> uchar list \<Rightarrow> uint \<Rightarrow> 'a fstate_scheme \<Rightarrow> (int \<times> 'a fstate_scheme) res" where
  "dirlink dp name inum s =
    bindr (dirlookup dp name s) (\<lambda>(r, s).
    case r of
      Some (ip, _) \<Rightarrow> bindr (iput ip s) (\<lambda>s. Ok (-1, s))
    | None \<Rightarrow>
        bindr (dirlink_loop dp 0 (dir_offs (i_size (icache s ! dp))) s) (\<lambda>(off, s).
        bindr (writei dp (LocalSrc (le_bytes 2 (ucast inum :: ushort) @ padded DIRSIZ name)) (of_nat off) 16 s) (\<lambda>(w, s).
        if w \<noteq> 16 then Panic ''dirlink'' else Ok (0, s))))"

section \<open>Paths\<close>

text \<open>
  A path is the list of its bytes before the terminating zero; \<^verbatim>\<open>'/'\<close> is 47.  \<^verbatim>\<open>skipelem\<close>
  returns the rest of the path and the name, cut to \<^verbatim>\<open>DIRSIZ\<close> bytes.
\<close>

definition skipelem :: "uchar list \<Rightarrow> (uchar list \<times> uchar list) option" where
  "skipelem path =
    (let path = dropWhile (\<lambda>c. c = 47) path in
     if path = [] then None
     else Some (dropWhile (\<lambda>c. c = 47) (dropWhile (\<lambda>c. c \<noteq> 47) path), take DIRSIZ (takeWhile (\<lambda>c. c \<noteq> 47) path)))"

lemma skipelem_shorter: "skipelem path = Some (rest, name) \<Longrightarrow> length rest < length path"
proof -
  assume a: "skipelem path = Some (rest, name)"
  define p where "p = dropWhile (\<lambda>c. c = 47) path"
  from a have p: "p \<noteq> []" "rest = dropWhile (\<lambda>c. c = 47) (dropWhile (\<lambda>c. c \<noteq> 47) p)"
    by (auto simp: skipelem_def Let_def p_def split: if_splits)
  then have "hd p \<noteq> 47" using hd_dropWhile [of "\<lambda>c. c = 47" path] by (simp add: p_def)
  then have "length (dropWhile (\<lambda>c. c \<noteq> 47) p) < length p"
    using p(1) by (cases p) (auto simp: le_imp_less_Suc length_dropWhile_le)
  moreover have "length p \<le> length path" by (simp add: p_def length_dropWhile_le)
  moreover have "length rest \<le> length (dropWhile (\<lambda>c. c \<noteq> 47) p)" by (simp add: p(2) length_dropWhile_le)
  ultimately show ?thesis by simp
qed

function namex_loop :: "nat \<Rightarrow> uchar list \<Rightarrow> uchar list \<Rightarrow> bool \<Rightarrow> 'a fstate_scheme \<Rightarrow> (nat option \<times> uchar list \<times> 'a fstate_scheme) res" where
  "namex_loop ip path name nameiparent s =
    (case skipelem path of
       None \<Rightarrow>
         if nameiparent then bindr (iput ip s) (\<lambda>s. Ok (None, name, s)) else Ok (Some ip, name, s)
     | Some (path, name) \<Rightarrow>
         bindr (ilock ip s) (\<lambda>s.
         if i_type (icache s ! ip) \<noteq> T_DIR then bindr (iunlockput ip s) (\<lambda>s. Ok (None, name, s))
         else if nameiparent \<and> path = [] then bindr (iunlock ip s) (\<lambda>s. Ok (Some ip, name, s))
         else
           bindr (dirlookup ip name s) (\<lambda>(r, s).
           case r of
             None \<Rightarrow> bindr (iunlockput ip s) (\<lambda>s. Ok (None, name, s))
           | Some (next, _) \<Rightarrow> bindr (iunlockput ip s) (\<lambda>s. namex_loop next path name nameiparent s))))"
  by pat_completeness auto

termination
  by (relation "measure (\<lambda>(ip, path, name, np, s). length path)") (auto dest: skipelem_shorter)

definition namex :: "uchar list \<Rightarrow> bool \<Rightarrow> 'a fstate_scheme \<Rightarrow> (nat option \<times> uchar list \<times> 'a fstate_scheme) res" where
  "namex path nameiparent s =
    bindr (if path \<noteq> [] \<and> hd path = 47 then iget ROOTDEV ROOTINO s
      else let i = the (p_cwd (curproc s)) in Ok (i, idup i s)) (\<lambda>(ip, s).
    namex_loop ip path [] nameiparent s)"

definition namei :: "uchar list \<Rightarrow> 'a fstate_scheme \<Rightarrow> (nat option \<times> 'a fstate_scheme) res" where
  "namei path s = bindr (namex path False s) (\<lambda>(r, _, s). Ok (r, s))"

definition nameiparent :: "uchar list \<Rightarrow> 'a fstate_scheme \<Rightarrow> (nat option \<times> uchar list \<times> 'a fstate_scheme) res" where
  "nameiparent path s = namex path True s"

end
