(* ===== verification/Ring.thy ===== *)
theory Ring
  imports Fs
begin

text \<open>
  Ring buffers.  The kernel has three of them with free-running counters: the pipe
  (\<^verbatim>\<open>kernel/pipe.c\<close>, 512 bytes, 32-bit counters), the UART transmit buffer (\<^verbatim>\<open>kernel/uart.c\<close>,
  32 bytes, 64-bit counters) and the console input buffer (\<^verbatim>\<open>kernel/console.c\<close>, 128 bytes, 32-bit
  counters).  The counters wrap; that the size divides \<open>2 ^ w\<close> makes the index
  \<^verbatim>\<open>counter % SIZE\<close> go round the buffer all the same.

  The locale \<open>fifo\<close> is what a client relies on: a bounded first-in first-out queue.  Its lemma
  says that over any sequence of operations the bytes taken out, followed by the bytes still
  inside, are the bytes that were inside at first, followed by those put in.
\<close>

section \<open>The queue contract\<close>

locale fifo =
  fixes ok :: "'q \<Rightarrow> bool" and contents :: "'q \<Rightarrow> 'x list" and cap :: nat
    and put :: "'x \<Rightarrow> 'q \<Rightarrow> 'q" and get :: "'q \<Rightarrow> 'x \<times> 'q"
  assumes put_ok: "ok q \<Longrightarrow> length (contents q) < cap \<Longrightarrow> ok (put x q) \<and> contents (put x q) = contents q @ [x]"
    and get_ok: "ok q \<Longrightarrow> contents q \<noteq> [] \<Longrightarrow> ok (snd (get q)) \<and> contents q = fst (get q) # contents (snd (get q))"
    and bounded: "ok q \<Longrightarrow> length (contents q) \<le> cap"
begin

text \<open>A history: \<open>Some x\<close> puts \<open>x\<close> if there is room, \<open>None\<close> takes a byte if there is one.\<close>

primrec run :: "'x option list \<Rightarrow> 'q \<Rightarrow> 'x list \<times> 'x list \<times> 'q" where
  "run [] q = ([], [], q)"
| "run (e # es) q =
    (case e of
       Some x \<Rightarrow> if length (contents q) < cap then (case run es (put x q) of (i, out, q) \<Rightarrow> (x # i, out, q)) else run es q
     | None \<Rightarrow> if contents q \<noteq> [] then (case run es (snd (get q)) of (i, out, q') \<Rightarrow> (i, fst (get q) # out, q')) else run es q)"

lemma run_fifo:
  "ok q \<Longrightarrow> run es q = (ins, outs, q') \<Longrightarrow> ok q' \<and> contents q @ ins = outs @ contents q' \<and> length (contents q') \<le> cap"
proof (induction es arbitrary: q ins outs q')
  case Nil
  then show ?case by (simp add: bounded)
next
  case (Cons e es)
  show ?case
  proof (cases e)
    case None
    show ?thesis
    proof (cases "contents q = []")
      case True
      then have "run es q = (ins, outs, q')" using Cons.prems(2) None by simp
      from Cons.IH [OF Cons.prems(1) this] show ?thesis .
    next
      case False
      obtain i out p where r: "run es (snd (get q)) = (i, out, p)" by (cases "run es (snd (get q))") auto
      have g: "ok (snd (get q))" "contents q = fst (get q) # contents (snd (get q))" using get_ok [OF Cons.prems(1) False] by auto
      have "ins = i" "outs = fst (get q) # out" "q' = p" using Cons.prems(2) None False r by auto
      then show ?thesis using Cons.IH [OF g(1) r] g(2) by simp
    qed
  next
    case (Some x)
    show ?thesis
    proof (cases "length (contents q) < cap")
      case False
      then have "run es q = (ins, outs, q')" using Cons.prems(2) Some by simp
      from Cons.IH [OF Cons.prems(1) this] show ?thesis .
    next
      case True
      obtain i out p where r: "run es (put x q) = (i, out, p)" by (cases "run es (put x q)") auto
      have g: "ok (put x q)" "contents (put x q) = contents q @ [x]" using put_ok [OF Cons.prems(1) True] by auto
      have "ins = x # i" "outs = out" "q' = p" using Cons.prems(2) Some True r by auto
      then show ?thesis using Cons.IH [OF g(1) r] g(2) by simp
    qed
  qed
qed

end

section \<open>A ring with free-running counters\<close>

text \<open>
  \<open>ring_contents buf r w\<close>: the bytes between the read and the write counter.
\<close>

definition ring_contents :: "'x list \<Rightarrow> 'w::len word \<Rightarrow> 'w word \<Rightarrow> 'x list" where
  "ring_contents buf r w = map (\<lambda>k. buf ! (unat (r + of_nat k) mod length buf)) [0..<unat (w - r)]"

definition ring_ok :: "nat \<Rightarrow> 'x list \<Rightarrow> 'w::len word \<Rightarrow> 'w word \<Rightarrow> bool" where
  "ring_ok n buf r w \<longleftrightarrow> length buf = n \<and> unat (w - r) \<le> n"

definition ring_size :: "'w::len itself \<Rightarrow> nat \<Rightarrow> bool" where
  "ring_size t n \<longleftrightarrow> n dvd 2 ^ LENGTH('w) \<and> 0 < n \<and> n < 2 ^ LENGTH('w)"

lemma length_ring_contents [simp]: "length (ring_contents buf r w) = unat (w - r)"
  by (simp add: ring_contents_def)

lemma unat_add_mod:
  assumes "n dvd 2 ^ LENGTH('w::len)"
  shows "unat (a + of_nat k :: 'w word) mod n = (unat a + k) mod n"
proof -
  have "unat (a + of_nat k) = (unat a + k) mod 2 ^ LENGTH('w)"
    by (simp add: unat_word_ariths unat_of_nat mod_add_right_eq)
  then show ?thesis using mod_mod_cancel [OF assms] by simp
qed

lemma mod_shift_inj:
  assumes "(a + j) mod n = (a + k) mod n" "j < n" "k < (n :: nat)"
  shows "j = k"
proof -
  have "j = k" if "(a + j) mod n = (a + k) mod n" "j \<le> k" "k < n" for j k
  proof -
    have "n dvd k - j" using mod_eq_dvd_iff_nat [of "a + j" "a + k" n] that by simp
    then show "j = k" using that(2,3) nat_dvd_not_less [of "k - j" n] by fastforce
  qed
  then show ?thesis using assms by (metis nle_le)
qed

lemma ring_slot_inj:
  assumes "n dvd 2 ^ LENGTH('w::len)" "j < n" "k < n" "unat (a + of_nat j :: 'w word) mod n = unat (a + of_nat k) mod n"
  shows "j = k"
  using assms(4) mod_shift_inj [OF _ assms(2,3)] unfolding unat_add_mod [OF assms(1)] by blast

lemma unat_add_1: "Suc (unat x) < 2 ^ LENGTH('w) \<Longrightarrow> unat (x + 1 :: 'w::len word) = Suc (unat x)"
  by (simp add: unat_word_ariths)

lemma ring_put:
  fixes r w :: "'w::len word"
  assumes "ring_size TYPE('w) n" "ring_ok n buf r w" "unat (w - r) < n"
  shows "ring_ok n (buf[unat w mod n := c]) r (w + 1)"
    and "ring_contents (buf[unat w mod n := c]) r (w + 1) = ring_contents buf r w @ [c]"
proof -
  have n: "n dvd 2 ^ LENGTH('w)" "0 < n" "n < 2 ^ LENGTH('w)" and len: "length buf = n"
    using assms(1,2) by (simp_all add: ring_size_def ring_ok_def)
  let ?k = "unat (w - r)"
  have w: "w = r + of_nat ?k" by simp
  have e: "w + 1 - r = (w - r) + 1" by simp
  have s: "unat (w + 1 - r) = Suc ?k"
    unfolding e by (rule unat_add_1) (use assms(3) n(3) in simp)
  then show "ring_ok n (buf[unat w mod n := c]) r (w + 1)" using assms(3) len by (simp add: ring_ok_def)
  have "unat (r + of_nat j) mod n \<noteq> unat w mod n" if "j < ?k" for j
    using ring_slot_inj [OF n(1), of j ?k r] that assms(3) w by auto
  then have "map (\<lambda>k. buf[unat w mod n := c] ! (unat (r + of_nat k) mod n)) [0..<?k] = ring_contents buf r w"
    unfolding ring_contents_def len by (intro map_cong refl nth_list_update_neq) (metis atLeastLessThan_iff set_upt)
  moreover have "buf[unat w mod n := c] ! (unat (r + of_nat ?k) mod n) = c" using len n(2) w by simp
  ultimately show "ring_contents (buf[unat w mod n := c]) r (w + 1) = ring_contents buf r w @ [c]"
    using len s by (simp add: ring_contents_def)
qed

lemma ring_get:
  fixes r w :: "'w::len word"
  assumes "ring_ok n buf r w" "r \<noteq> w"
  shows "ring_ok n buf (r + 1) w"
    and "ring_contents buf r w = buf ! (unat r mod n) # ring_contents buf (r + 1) w"
proof -
  have len: "length buf = n" and le: "unat (w - r) \<le> n" using assms(1) by (simp_all add: ring_ok_def)
  have "w - r \<noteq> 0" using assms(2) by simp
  then have p: "unat (w - (r + 1)) = unat (w - r) - 1" "0 < unat (w - r)"
    using unat_minus_one [of "w - r"] by (simp_all add: unat_gt_0 algebra_simps)
  then show "ring_ok n buf (r + 1) w" using len le by (simp add: ring_ok_def)
  obtain m where m: "unat (w - r) = Suc m" using p(2) by (metis gr0_implies_Suc)
  have "[0..<Suc m] = 0 # map Suc [0..<m]" by (simp add: map_Suc_upt upt_conv_Cons del: upt_Suc)
  moreover have "r + of_nat (Suc k) = r + 1 + of_nat k" for k by simp
  ultimately show "ring_contents buf r w = buf ! (unat r mod n) # ring_contents buf (r + 1) w"
    unfolding ring_contents_def p(1) m len by (simp add: comp_def add.assoc del: of_nat_Suc upt_Suc)
qed

lemma ring_full_iff:
  fixes r w :: "'w::len word"
  assumes "ring_size TYPE('w) n" "ring_ok n buf r w"
  shows "w = r + of_nat n \<longleftrightarrow> unat (w - r) = n"
proof -
  have "unat (of_nat n :: 'w word) = n" using assms(1) by (intro unat_of_nat_small) (simp add: ring_size_def)
  then have "unat (w - r) = n \<longleftrightarrow> w - r = of_nat n" using word_unat_eq_iff by metis
  then show ?thesis by (auto simp: algebra_simps)
qed

end
