(* ===== verification/Console.thy ===== *)
theory Console
  imports Ring
begin

text \<open>
  The console: the serial port driver \<^verbatim>\<open>kernel/uart.c\<close>, formatted output
  \<^verbatim>\<open>kernel/printf.c\<close> and the console driver \<^verbatim>\<open>kernel/console.c\<close>.

  The device is what it answers and what it is given: \<open>uart_lsr\<close> holds its answers to the
  coming reads of the bit \<^verbatim>\<open>LSR_TX_IDLE\<close> (once they have run out the port stays busy),
  \<open>uart_in\<close> the bytes it has received, \<open>uart_out\<close> the bytes that were stored in \<^verbatim>\<open>THR\<close>.

  A routine that may sleep in the middle of its work yields \<open>Wait c l\<close>: the process sleeps on
  channel \<open>c\<close> with local variables \<open>l\<close>, from which it goes on when it is woken.
\<close>

section \<open>State\<close>

datatype ('l, 'r) io = Return 'r | Wait chan 'l

record dstate = fstate +
  cons_buf :: "uchar list"
  cons_r :: uint
  cons_w :: uint
  cons_e :: uint
  uart_tx_buf :: "uchar list"
  uart_tx_w :: uint64
  uart_tx_r :: uint64
  uart_lsr :: "bool list"
  uart_in :: "uchar list"
  uart_out :: "uchar list"
  panicked :: bool

definition UART_TX_BUF_SIZE :: nat where "UART_TX_BUF_SIZE = 32"
definition INPUT_BUF :: nat where "INPUT_BUF = 128"
definition BACKSPACE :: int where "BACKSPACE = 0x100"

definition Ctrl :: "char \<Rightarrow> int" where
  "Ctrl x = of_char x - of_char CHR ''@''"

definition bytes :: "string \<Rightarrow> uchar list" where
  "bytes = map of_char"

section \<open>The serial port\<close>

definition write_THR :: "int \<Rightarrow> 'a dstate_scheme \<Rightarrow> 'a dstate_scheme" where
  "write_THR c s = s\<lparr>uart_out := uart_out s @ [of_int c]\<rparr>"

definition tx_idle :: "'a dstate_scheme \<Rightarrow> bool \<times> 'a dstate_scheme" where
  "tx_idle s = (case uart_lsr s of [] \<Rightarrow> (False, s) | b # bs \<Rightarrow> (b, s\<lparr>uart_lsr := bs\<rparr>))"

text \<open>The two accesses to the transmit ring.\<close>

definition uart_tx_put :: "uchar \<Rightarrow> 'a dstate_scheme \<Rightarrow> 'a dstate_scheme" where
  "uart_tx_put c s =
    s\<lparr>uart_tx_buf := (uart_tx_buf s)[unat (uart_tx_w s) mod UART_TX_BUF_SIZE := c], uart_tx_w := uart_tx_w s + 1\<rparr>"

definition uart_tx_get :: "'a dstate_scheme \<Rightarrow> uchar \<times> 'a dstate_scheme" where
  "uart_tx_get s = (uart_tx_buf s ! (unat (uart_tx_r s) mod UART_TX_BUF_SIZE), s\<lparr>uart_tx_r := uart_tx_r s + 1\<rparr>)"

function uartstart :: "'a dstate_scheme \<Rightarrow> 'a dstate_scheme" where
  "uartstart s =
    (if uart_tx_w s = uart_tx_r s then s
     else
       let (idle, s) = tx_idle s in
       if \<not> idle then s
       else
         let (c, s) = uart_tx_get s;
             s = wakeup ChUart s
         in uartstart (write_THR (uint c) s))"
  by pat_completeness auto
termination
proof (relation "measure (\<lambda>s. unat (uart_tx_w s - uart_tx_r s))", goal_cases)
  case 1
  show ?case by simp
next
  case (2 s x idle t y c u v)
  then have *: "uart_tx_w t = uart_tx_w s" "uart_tx_r t = uart_tx_r s"
    by (auto simp: tx_idle_def split: list.splits)
  have "uart_tx_w s - uart_tx_r s \<noteq> 0" using 2(1) by simp
  then have "unat (uart_tx_w s - uart_tx_r s - 1) < unat (uart_tx_w s - uart_tx_r s)"
    using unat_minus_one [of "uart_tx_w s - uart_tx_r s"] by (simp add: unat_gt_0)
  with 2 * show ?case by (simp add: uart_tx_get_def wakeup_def write_THR_def algebra_simps)
qed

declare uartstart.simps [simp del]

definition uartputc :: "int \<Rightarrow> 'a dstate_scheme \<Rightarrow> 'a dstate_scheme res" where
  "uartputc c s =
    (if panicked s then Diverge
     else if uart_tx_w s = uart_tx_r s + of_nat UART_TX_BUF_SIZE then Block ChUart
     else Ok (uartstart (uart_tx_put (of_int c) s)))"

text \<open>\<^verbatim>\<open>uartputc_sync\<close> reads the status until the port is idle; a port that stays busy makes it spin for ever.\<close>

fun wait_idle :: "bool list \<Rightarrow> bool list option" where
  "wait_idle [] = None"
| "wait_idle (b # bs) = (if b then Some bs else wait_idle bs)"

definition uartputc_sync :: "int \<Rightarrow> 'a dstate_scheme \<Rightarrow> 'a dstate_scheme res" where
  "uartputc_sync c s =
    (if panicked s then Diverge
     else case wait_idle (uart_lsr s) of None \<Rightarrow> Diverge | Some bs \<Rightarrow> Ok (write_THR c (s\<lparr>uart_lsr := bs\<rparr>)))"

definition uartgetc :: "'a dstate_scheme \<Rightarrow> int \<times> 'a dstate_scheme" where
  "uartgetc s = (case uart_in s of [] \<Rightarrow> (-1, s) | c # cs \<Rightarrow> (uint c, s\<lparr>uart_in := cs\<rparr>))"

section \<open>Formatted output\<close>

definition consputc :: "int \<Rightarrow> 'a dstate_scheme \<Rightarrow> 'a dstate_scheme res" where
  "consputc c s =
    (if c = BACKSPACE then
       bindr (uartputc_sync 8 s) (\<lambda>s. bindr (uartputc_sync 32 s) (\<lambda>s. uartputc_sync 8 s))
     else uartputc_sync c s)"

definition digits :: "uchar list" where
  "digits = bytes ''0123456789abcdef''"

text \<open>The \<^verbatim>\<open>do ... while\<close> loop of \<^verbatim>\<open>printint\<close>: the digits, least significant first.\<close>

function print_digits :: "nat \<Rightarrow> nat \<Rightarrow> uchar list" where
  "print_digits base x =
    digits ! (x mod base) # (if x div base \<noteq> 0 \<and> 2 \<le> base then print_digits base (x div base) else [])"
  by pat_completeness auto
termination
  by (relation "measure snd") (auto intro!: div_less_dividend simp: div_greater_zero_iff)

declare print_digits.simps [simp del]

text \<open>\<^verbatim>\<open>buf\<close> of \<^verbatim>\<open>printint\<close>, and the loop that prints it backwards.\<close>

definition printint_buf :: "uint \<Rightarrow> nat \<Rightarrow> bool \<Rightarrow> uchar list" where
  "printint_buf xx base sign =
    (let neg = sign \<and> sint xx < 0;
         x = (if neg then - xx else xx)
     in print_digits base (unat x) @ (if neg then [of_char CHR ''-''] else []))"

definition printint :: "uint \<Rightarrow> nat \<Rightarrow> bool \<Rightarrow> 'a dstate_scheme \<Rightarrow> 'a dstate_scheme res" where
  "printint xx base sign s = foreach (\<lambda>c. consputc (uint c)) (rev (printint_buf xx base sign)) s"

primrec printptr_loop :: "nat \<Rightarrow> uint64 \<Rightarrow> 'a dstate_scheme \<Rightarrow> 'a dstate_scheme res" where
  "printptr_loop 0 x s = Ok s"
| "printptr_loop (Suc k) x s =
    bindr (consputc (uint (digits ! unat (drop_bit 60 x))) s) (printptr_loop k (push_bit 4 x))"

definition printptr :: "uint64 \<Rightarrow> 'a dstate_scheme \<Rightarrow> 'a dstate_scheme res" where
  "printptr x s =
    bindr (consputc (of_char CHR ''0'') s) (\<lambda>s.
    bindr (consputc (of_char CHR ''x'') s) (\<lambda>s.
    printptr_loop 16 x s))"

text \<open>
  The arguments after the format.  Taking one of another type than the directive names is
  undefined in C, as is running out of them: the model does not go on.
\<close>

datatype va = VInt uint | VPtr uint64 | VStr "uchar list option"

definition printf_directive :: "uchar \<Rightarrow> va list \<Rightarrow> 'a dstate_scheme \<Rightarrow> (va list \<times> 'a dstate_scheme) res" where
  "printf_directive c ap s =
    (if c = of_char CHR ''d'' then
       (case ap of VInt x # ap \<Rightarrow> bindr (printint x 10 True s) (\<lambda>s. Ok (ap, s)) | _ \<Rightarrow> Diverge)
     else if c = of_char CHR ''x'' then
       (case ap of VInt x # ap \<Rightarrow> bindr (printint x 16 True s) (\<lambda>s. Ok (ap, s)) | _ \<Rightarrow> Diverge)
     else if c = of_char CHR ''p'' then
       (case ap of VPtr x # ap \<Rightarrow> bindr (printptr x s) (\<lambda>s. Ok (ap, s)) | _ \<Rightarrow> Diverge)
     else if c = of_char CHR ''s'' then
       (case ap of
          VStr z # ap \<Rightarrow>
            let str = (case z of None \<Rightarrow> bytes ''(null)'' | Some b \<Rightarrow> b) in
            bindr (foreach (\<lambda>c. consputc (uint c)) str s) (\<lambda>s. Ok (ap, s))
        | _ \<Rightarrow> Diverge)
     else if c = of_char CHR ''%'' then bindr (consputc (of_char CHR ''%'') s) (\<lambda>s. Ok (ap, s))
     else bindr (consputc (of_char CHR ''%'') s) (\<lambda>s. bindr (consputc (uint c) s) (\<lambda>s. Ok (ap, s))))"

fun printf_loop :: "uchar list \<Rightarrow> va list \<Rightarrow> 'a dstate_scheme \<Rightarrow> 'a dstate_scheme res" where
  "printf_loop [] ap s = Ok s"
| "printf_loop (c # fmt) ap s =
    (if c \<noteq> of_char CHR ''%'' then bindr (consputc (uint c) s) (printf_loop fmt ap)
     else
       case fmt of
         [] \<Rightarrow> Ok s
       | d # fmt \<Rightarrow> bindr (printf_directive d ap s) (\<lambda>(ap, s). printf_loop fmt ap s))"

definition printf :: "uchar list option \<Rightarrow> va list \<Rightarrow> 'a dstate_scheme \<Rightarrow> 'a dstate_scheme res" where
  "printf fmt ap s = (case fmt of None \<Rightarrow> Panic ''null fmt'' | Some fmt \<Rightarrow> printf_loop fmt ap s)"

text \<open>The console output of \<^verbatim>\<open>panic\<close> before it freezes the other CPUs.\<close>

definition panic :: "uchar list \<Rightarrow> 'a dstate_scheme \<Rightarrow> 'a dstate_scheme res" where
  "panic z s =
    bindr (printf (Some (bytes ''panic: '')) [] s) (\<lambda>s.
    bindr (printf (Some z) [] s) (\<lambda>s.
    bindr (printf (Some [10]) [] s) (\<lambda>s.
    Ok (s\<lparr>panicked := True\<rparr>))))"

definition procdump_print :: "'a dstate_scheme \<Rightarrow> 'a dstate_scheme res" where
  "procdump_print s =
    bindr (printf (Some [10]) [] s) (\<lambda>s.
    foreach (\<lambda>(pid, state, name) s.
      bindr (printf (Some (bytes ''%d %s %s'')) [VInt pid, VStr (Some (bytes state)), VStr (Some (takeWhile (\<lambda>c. c \<noteq> 0) name))] s)
        (printf (Some [10]) [])) (procdump s) s)"

section \<open>The console driver\<close>

text \<open>\<^verbatim>\<open>consolewrite\<close> with \<open>k\<close> bytes to go; the locals of a sleeper are \<^verbatim>\<open>i\<close> and the byte it could not send.\<close>

primrec consolewrite_loop :: "bool \<Rightarrow> uint64 \<Rightarrow> nat \<Rightarrow> nat \<Rightarrow> 'a dstate_scheme \<Rightarrow> ((nat \<times> uchar, int) io \<times> 'a dstate_scheme) res" where
  "consolewrite_loop user_src src i 0 s = Ok (Return (int i), s)"
| "consolewrite_loop user_src src i (Suc k) s =
    (let (r, c) = either_copyin user_src (src + of_nat i) 1 s in
     if r = -1 then Ok (Return (int i), s)
     else
       case uartputc (uint (c ! 0)) s of
         Ok s \<Rightarrow> consolewrite_loop user_src src (Suc i) k s
       | Block ch \<Rightarrow> Ok (Wait ch (i, c ! 0), s)
       | Panic m \<Rightarrow> Panic m
       | Diverge \<Rightarrow> Diverge)"

definition consolewrite :: "bool \<Rightarrow> uint64 \<Rightarrow> int \<Rightarrow> 'a dstate_scheme \<Rightarrow> ((nat \<times> uchar, int) io \<times> 'a dstate_scheme) res" where
  "consolewrite user_src src n s = consolewrite_loop user_src src 0 (nat n) s"

definition consolewrite_resume :: "bool \<Rightarrow> uint64 \<Rightarrow> int \<Rightarrow> nat \<times> uchar \<Rightarrow> 'a dstate_scheme \<Rightarrow> ((nat \<times> uchar, int) io \<times> 'a dstate_scheme) res" where
  "consolewrite_resume user_src src n l s =
    (case l of (i, c) \<Rightarrow>
       case uartputc (uint c) s of
         Ok s \<Rightarrow> consolewrite_loop user_src src (Suc i) (nat n - Suc i) s
       | Block ch \<Rightarrow> Ok (Wait ch (i, c), s)
       | Panic m \<Rightarrow> Panic m
       | Diverge \<Rightarrow> Diverge)"

definition cons_get :: "'a dstate_scheme \<Rightarrow> uchar \<times> 'a dstate_scheme" where
  "cons_get s = (cons_buf s ! (unat (cons_r s) mod INPUT_BUF), s\<lparr>cons_r := cons_r s + 1\<rparr>)"

text \<open>\<^verbatim>\<open>consoleread\<close> with \<open>n\<close> bytes to go; the locals of a sleeper are \<^verbatim>\<open>dst\<close> and \<^verbatim>\<open>n\<close>.\<close>

fun consoleread_loop :: "bool \<Rightarrow> nat \<Rightarrow> uint64 \<Rightarrow> nat \<Rightarrow> 'a dstate_scheme \<Rightarrow> (uint64 \<times> nat, int) io \<times> 'a dstate_scheme" where
  "consoleread_loop user_dst target dst 0 s = (Return (int target), s)"
| "consoleread_loop user_dst target dst (Suc m) s =
    (if cons_r s = cons_w s then
       if p_killed (curproc s) then (Return (-1), s) else (Wait ChCons (dst, Suc m), s)
     else
       let (c, s1) = cons_get s in
       if uint c = Ctrl CHR ''D'' then
         (Return (int target - int (Suc m)), if Suc m < target then s1\<lparr>cons_r := cons_r s1 - 1\<rparr> else s1)
       else
         let (r, s2) = either_copyout user_dst dst [c] s1 in
         if r = -1 then (Return (int target - int (Suc m)), s2)
         else if c = 10 then (Return (int target - int m), s2)
         else consoleread_loop user_dst target (dst + 1) m s2)"

definition consoleread :: "bool \<Rightarrow> uint64 \<Rightarrow> int \<Rightarrow> 'a dstate_scheme \<Rightarrow> (uint64 \<times> nat, int) io \<times> 'a dstate_scheme" where
  "consoleread user_dst dst n s = consoleread_loop user_dst (nat n) dst (nat n) s"

lemma uartputc_sync_Ok:
  assumes "uartputc_sync c s = Ok s'"
  obtains bs where "s' = s\<lparr>uart_lsr := bs, uart_out := uart_out s @ [of_int c]\<rparr>"
  using assms by (auto simp: uartputc_sync_def write_THR_def split: if_splits option.splits)

text \<open>What \<^verbatim>\<open>consputc\<close> sends.\<close>

definition echo :: "int \<Rightarrow> uchar list" where
  "echo c = (if c = BACKSPACE then [8, 32, 8] else [of_int c])"

lemma consputc_Ok:
  assumes "consputc c s = Ok s'"
  obtains bs where "s' = s\<lparr>uart_lsr := bs, uart_out := uart_out s @ echo c\<rparr>"
proof (cases "c = BACKSPACE")
  case True
  then obtain t u where *: "uartputc_sync 8 s = Ok t" "uartputc_sync 32 t = Ok u" "uartputc_sync 8 u = Ok s'"
    using assms by (auto simp: consputc_def res_simps)
  obtain b1 b2 b3 where "t = s\<lparr>uart_lsr := b1, uart_out := uart_out s @ [8]\<rparr>" "u = t\<lparr>uart_lsr := b2, uart_out := uart_out t @ [32]\<rparr>"
    "s' = u\<lparr>uart_lsr := b3, uart_out := uart_out u @ [8]\<rparr>"
    using uartputc_sync_Ok [OF *(1)] uartputc_sync_Ok [OF *(2)] uartputc_sync_Ok [OF *(3)] by (metis of_int_numeral)
  then show thesis using that [of b3] True by (simp add: echo_def)
next
  case False
  then show thesis using assms that by (auto simp: consputc_def echo_def elim: uartputc_sync_Ok)
qed

text \<open>The loop of \<^verbatim>\<open>C('U')\<close>.\<close>

function kill_line :: "'a dstate_scheme \<Rightarrow> 'a dstate_scheme res" where
  "kill_line s =
    (if cons_e s \<noteq> cons_w s \<and> cons_buf s ! (unat (cons_e s - 1) mod INPUT_BUF) \<noteq> 10
     then bindr (consputc BACKSPACE (s\<lparr>cons_e := cons_e s - 1\<rparr>)) kill_line
     else Ok s)"
  by pat_completeness auto

termination
proof (relation "measure (\<lambda>s. unat (cons_e s - cons_w s))", goal_cases)
  case 1
  show ?case by simp
next
  case (2 s t)
  have *: "cons_e t = cons_e s - 1" "cons_w t = cons_w s" by (rule consputc_Ok [OF 2(2)]; simp)+
  have "cons_e s - cons_w s \<noteq> 0" using 2(1) by simp
  then have "unat (cons_e s - cons_w s - 1) < unat (cons_e s - cons_w s)"
    using unat_minus_one [of "cons_e s - cons_w s"] by (simp add: unat_gt_0)
  then show ?case unfolding * in_measure by (simp add: diff_right_commute * diff_diff_eq add.commute)
qed

declare kill_line.simps [simp del]

definition consoleintr :: "int \<Rightarrow> 'a dstate_scheme \<Rightarrow> 'a dstate_scheme res" where
  "consoleintr c s =
    (if c = Ctrl CHR ''P'' then procdump_print s
     else if c = Ctrl CHR ''U'' then kill_line s
     else if c = Ctrl CHR ''H'' \<or> c = 0x7f then
       if cons_e s \<noteq> cons_w s then consputc BACKSPACE (s\<lparr>cons_e := cons_e s - 1\<rparr>) else Ok s
     else if c \<noteq> 0 \<and> cons_e s - cons_r s < of_nat INPUT_BUF then
       let c = (if c = 13 then 10 else c) in
       bindr (consputc c s) (\<lambda>s.
       let s = s\<lparr>cons_buf := (cons_buf s)[unat (cons_e s) mod INPUT_BUF := of_int c], cons_e := cons_e s + 1\<rparr> in
       if c = 10 \<or> c = Ctrl CHR ''D'' \<or> cons_e s = cons_r s + of_nat INPUT_BUF
       then Ok (wakeup ChCons (s\<lparr>cons_w := cons_e s\<rparr>))
       else Ok s)
     else Ok s)"

text \<open>\<^verbatim>\<open>uartintr\<close>: the loop takes every received byte; then the transmit ring is served.\<close>

definition uartintr :: "'a dstate_scheme \<Rightarrow> 'a dstate_scheme res" where
  "uartintr s =
    bindr (foreach (\<lambda>_ s. let (c, s) = uartgetc s in consoleintr c s) (uart_in s) s) (\<lambda>s. Ok (uartstart s))"

end
