(* ===== verification/Mbuf.thy ===== *)
theory Mbuf
  imports Console
begin

text \<open>
  Packet buffers and byte order, the first part of \<^verbatim>\<open>kernel/net.c\<close> and \<^verbatim>\<open>kernel/net.h\<close>.

  A packet buffer fills a page of the allocator and is named by the page's address.  Its
  \<^verbatim>\<open>head\<close> is kept as an offset from \<^verbatim>\<open>buf\<close>; \<open>m_buf\<close> is \<^verbatim>\<open>buf[MBUF_SIZE]\<close>
  together with the rest of the page, which an access past the array would reach.  A page that
  holds no packet buffer (it was freed, say) has the value \<open>None\<close>; using it as one is undefined in
  C and stops the model (\<open>Diverge\<close>).
\<close>

section \<open>State\<close>

definition MBUF_SIZE :: nat where "MBUF_SIZE = 2048"
definition MBUF_DEFAULT_HEADROOM :: uint where "MBUF_DEFAULT_HEADROOM = 128"

text \<open>The bytes of the page after \<^verbatim>\<open>next\<close>, \<^verbatim>\<open>head\<close> and \<^verbatim>\<open>len\<close>.\<close>

definition MBUF_ROOM :: nat where "MBUF_ROOM = 4096 - 20"

record mbuf =
  m_next :: uint64
  m_head :: int
  m_len :: uint
  m_buf :: "uchar list"

record mbufq =
  q_head :: uint64
  q_tail :: uint64

record sock =
  so_next :: uint64
  so_raddr :: uint
  so_lport :: ushort
  so_rport :: ushort
  so_rxq :: mbufq

record tx_desc =
  tx_addr :: uint64
  tx_length :: ushort
  tx_cso :: uchar
  tx_cmd :: uchar
  tx_status :: uchar
  tx_css :: uchar
  tx_special :: ushort

record rx_desc =
  rx_addr :: uint64
  rx_length :: ushort
  rx_csum :: ushort
  rx_status :: uchar
  rx_errors :: uchar
  rx_special :: ushort

record nstate = dstate +
  mbufs :: "uint64 \<Rightarrow> mbuf option"
  socks :: "uint64 \<Rightarrow> sock option"
  sockets :: uint64
  tx_ring :: "tx_desc list"
  tx_mbufs :: "uint64 list"
  rx_ring :: "rx_desc list"
  rx_mbufs :: "uint64 list"
  e1000_regs :: "nat \<Rightarrow> uint"

definition get_mbuf :: "uint64 \<Rightarrow> 'a nstate_scheme \<Rightarrow> mbuf res" where
  "get_mbuf m s = (case mbufs s m of None \<Rightarrow> Diverge | Some x \<Rightarrow> Ok x)"

definition set_mbuf :: "uint64 \<Rightarrow> mbuf \<Rightarrow> 'a nstate_scheme \<Rightarrow> 'a nstate_scheme" where
  "set_mbuf m x s = s\<lparr>mbufs := (mbufs s)(m \<mapsto> x)\<rparr>"

section \<open>Size and position of a buffer\<close>

definition mbufpull :: "uint \<Rightarrow> mbuf \<Rightarrow> int option \<times> mbuf" where
  "mbufpull len m =
    (let tmp = m_head m in
     if m_len m < len then (None, m)
     else (Some tmp, m\<lparr>m_len := m_len m - len, m_head := m_head m + uint len\<rparr>))"

definition mbufpush :: "uint \<Rightarrow> mbuf \<Rightarrow> (int \<times> mbuf) res" where
  "mbufpush len m =
    (let m = m\<lparr>m_head := m_head m - uint len\<rparr> in
     if m_head m < 0 then Panic ''mbufpush''
     else Ok (m_head m, m\<lparr>m_len := m_len m + len\<rparr>))"

definition mbufput :: "uint \<Rightarrow> mbuf \<Rightarrow> (int \<times> mbuf) res" where
  "mbufput len m =
    (let tmp = m_head m + uint (m_len m);
         m = m\<lparr>m_len := m_len m + len\<rparr>
     in if m_len m > of_nat MBUF_SIZE then Panic ''mbufput'' else Ok (tmp, m))"

definition mbuftrim :: "uint \<Rightarrow> mbuf \<Rightarrow> int option \<times> mbuf" where
  "mbuftrim len m =
    (if len > m_len m then (None, m)
     else let m = m\<lparr>m_len := m_len m - len\<rparr> in (Some (m_head m + uint (m_len m)), m))"

definition mbufalloc :: "uint \<Rightarrow> 'a nstate_scheme \<Rightarrow> uint64 \<times> 'a nstate_scheme" where
  "mbufalloc headroom s =
    (if headroom > of_nat MBUF_SIZE then (0, s)
     else
       let (m, s) = kalloc s in
       if m = 0 then (0, s)
       else (m, set_mbuf m \<lparr>m_next = 0, m_head = uint headroom, m_len = 0,
               m_buf = replicate MBUF_SIZE 0 @ replicate (MBUF_ROOM - MBUF_SIZE) 5\<rparr> s))"

definition mbuffree :: "uint64 \<Rightarrow> 'a nstate_scheme \<Rightarrow> 'a nstate_scheme res" where
  "mbuffree m s = bindr (kfree m s) (\<lambda>s. Ok (s\<lparr>mbufs := (mbufs s)(m := None)\<rparr>))"

section \<open>Queues of buffers\<close>

definition mbufq_pushtail :: "mbufq \<Rightarrow> uint64 \<Rightarrow> 'a nstate_scheme \<Rightarrow> (mbufq \<times> 'a nstate_scheme) res" where
  "mbufq_pushtail q m s =
    bindr (get_mbuf m s) (\<lambda>x.
    let s = set_mbuf m (x\<lparr>m_next := 0\<rparr>) s in
    if q_head q = 0 then Ok (\<lparr>q_head = m, q_tail = m\<rparr>, s)
    else
      bindr (get_mbuf (q_tail q) s) (\<lambda>y.
      Ok (q\<lparr>q_tail := m\<rparr>, set_mbuf (q_tail q) (y\<lparr>m_next := m\<rparr>) s)))"

definition mbufq_pophead :: "mbufq \<Rightarrow> 'a nstate_scheme \<Rightarrow> (uint64 \<times> mbufq) res" where
  "mbufq_pophead q s =
    (let head = q_head q in
     if head = 0 then Ok (0, q)
     else bindr (get_mbuf head s) (\<lambda>x. Ok (head, q\<lparr>q_head := m_next x\<rparr>)))"

definition mbufq_empty :: "mbufq \<Rightarrow> bool" where
  "mbufq_empty q = (q_head q = 0)"

definition mbufq_init :: "mbufq \<Rightarrow> mbufq" where
  "mbufq_init q = q\<lparr>q_head := 0\<rparr>"

section \<open>Byte order\<close>

definition bswaps :: "ushort \<Rightarrow> ushort" where
  "bswaps val = push_bit 8 (val AND 0x00ff) OR drop_bit 8 (val AND 0xff00)"

definition bswapl :: "uint \<Rightarrow> uint" where
  "bswapl val =
    push_bit 24 (val AND 0x000000ff) OR push_bit 8 (val AND 0x0000ff00) OR
    drop_bit 8 (val AND 0x00ff0000) OR drop_bit 24 (val AND 0xff000000)"

section \<open>The checksum of the Internet protocol\<close>

text \<open>The accumulation of 16-bit words, with the odd byte at the end.\<close>

fun in_cksum_sum :: "uchar list \<Rightarrow> uint \<Rightarrow> uint" where
  "in_cksum_sum (b # c # bs) acc = in_cksum_sum bs (acc + ucast (of_le [b, c] :: ushort))"
| "in_cksum_sum [b] acc = acc + ucast b"
| "in_cksum_sum [] acc = acc"

definition in_cksum :: "uchar list \<Rightarrow> ushort" where
  "in_cksum addr =
    (let acc = in_cksum_sum addr 0;
         acc = (acc AND 0xffff) + drop_bit 16 acc;
         acc = acc + drop_bit 16 acc
     in NOT (ucast acc))"

section \<open>Byte order: the swaps are involutions\<close>

lemma bit_bswaps:
  assumes "k < 16"
  shows "bit (bswaps v) k \<longleftrightarrow> bit v (if k < 8 then k + 8 else k - 8)"
proof -
  have m: "(0x00ff :: ushort) = mask 8" "(0xff00 :: ushort) = push_bit 8 (mask 8)" by (simp_all add: mask_numeral)
  show ?thesis unfolding bswaps_def m using assms by (auto simp: bit_simps add.commute)
qed

lemma bswaps_bswaps [simp]: "bswaps (bswaps v) = v"
  by (rule bit_word_eqI) (auto simp: bit_bswaps)

lemma bit_bswapl:
  assumes "k < 32"
  shows "bit (bswapl v) k \<longleftrightarrow> bit v (if k < 8 then k + 24 else if k < 16 then k + 8 else if k < 24 then k - 8 else k - 24)"
proof -
  have m: "(0x000000ff :: uint) = mask 8" "(0x0000ff00 :: uint) = push_bit 8 (mask 8)"
    "(0x00ff0000 :: uint) = push_bit 16 (mask 8)" "(0xff000000 :: uint) = push_bit 24 (mask 8)" by (simp_all add: mask_numeral)
  show ?thesis unfolding bswapl_def m using assms by (auto simp: bit_simps add.commute)
qed

lemma bswapl_bswapl [simp]: "bswapl (bswapl v) = v"
  by (rule bit_word_eqI) (auto simp: bit_bswapl)

end
