(* ===== verification/Net.thy ===== *)
theory Net
  imports Mbuf
begin

text \<open>
  The network stack: the driver \<^verbatim>\<open>kernel/e1000.c\<close>, the protocols of \<^verbatim>\<open>kernel/net.c\<close> and
  the sockets of \<^verbatim>\<open>kernel/sysnet.c\<close>.

  The device reads and writes the descriptor rings on its own; a proof about a routine says what
  the descriptors hold when the routine starts.  A header is stored field by field in the bytes
  of its packet buffer, at the offset that \<^verbatim>\<open>mbufpush\<close>, \<^verbatim>\<open>mbufput\<close> or
  \<^verbatim>\<open>mbufpull\<close> returned.  Sockets, too, fill a page each and are named by its address.
\<close>

section \<open>The driver\<close>

definition TX_RING_SIZE :: nat where "TX_RING_SIZE = 16"
definition RX_RING_SIZE :: nat where "RX_RING_SIZE = 16"

definition E1000_CTL :: nat where "E1000_CTL = 0x00000 div 4"
definition E1000_ICR :: nat where "E1000_ICR = 0x000C0 div 4"
definition E1000_IMS :: nat where "E1000_IMS = 0x000D0 div 4"
definition E1000_RCTL :: nat where "E1000_RCTL = 0x00100 div 4"
definition E1000_TCTL :: nat where "E1000_TCTL = 0x00400 div 4"
definition E1000_TIPG :: nat where "E1000_TIPG = 0x00410 div 4"
definition E1000_RDBAL :: nat where "E1000_RDBAL = 0x02800 div 4"
definition E1000_RDTR :: nat where "E1000_RDTR = 0x02820 div 4"
definition E1000_RADV :: nat where "E1000_RADV = 0x0282C div 4"
definition E1000_RDH :: nat where "E1000_RDH = 0x02810 div 4"
definition E1000_RDT :: nat where "E1000_RDT = 0x02818 div 4"
definition E1000_RDLEN :: nat where "E1000_RDLEN = 0x02808 div 4"
definition E1000_TDBAL :: nat where "E1000_TDBAL = 0x03800 div 4"
definition E1000_TDLEN :: nat where "E1000_TDLEN = 0x03808 div 4"
definition E1000_TDH :: nat where "E1000_TDH = 0x03810 div 4"
definition E1000_TDT :: nat where "E1000_TDT = 0x03818 div 4"
definition E1000_MTA :: nat where "E1000_MTA = 0x05200 div 4"
definition E1000_RA :: nat where "E1000_RA = 0x05400 div 4"

definition E1000_CTL_RST :: uint where "E1000_CTL_RST = 0x00400000"
definition E1000_TCTL_EN :: uint where "E1000_TCTL_EN = 0x00000002"
definition E1000_TCTL_PSP :: uint where "E1000_TCTL_PSP = 0x00000008"
definition E1000_RCTL_EN :: uint where "E1000_RCTL_EN = 0x00000002"
definition E1000_RCTL_BAM :: uint where "E1000_RCTL_BAM = 0x00008000"
definition E1000_RCTL_SZ_2048 :: uint where "E1000_RCTL_SZ_2048 = 0x00000000"
definition E1000_RCTL_SECRC :: uint where "E1000_RCTL_SECRC = 0x04000000"
definition E1000_TXD_CMD_EOP :: uchar where "E1000_TXD_CMD_EOP = 0x01"
definition E1000_TXD_CMD_RS :: uchar where "E1000_TXD_CMD_RS = 0x08"
definition E1000_TXD_STAT_DD :: uchar where "E1000_TXD_STAT_DD = 0x01"
definition E1000_RXD_STAT_DD :: uchar where "E1000_RXD_STAT_DD = 0x01"

definition set_reg :: "nat \<Rightarrow> uint \<Rightarrow> 'a nstate_scheme \<Rightarrow> 'a nstate_scheme" where
  "set_reg r v s = s\<lparr>e1000_regs := (e1000_regs s)(r := v)\<rparr>"

definition head_addr :: "uint64 \<Rightarrow> mbuf \<Rightarrow> uint64" where
  "head_addr m x = m + 20 + of_int (m_head x)"

text \<open>
  \<^verbatim>\<open>e1000_init\<close>, with the addresses of the two rings as arguments.  A ring of 16 descriptors
  of 16 bytes takes 256 bytes, so the two checks on \<^verbatim>\<open>sizeof\<close> never fail.
\<close>

definition e1000_init_rx :: "nat \<Rightarrow> 'a nstate_scheme \<Rightarrow> 'a nstate_scheme res" where
  "e1000_init_rx i s =
    (let (m, s) = mbufalloc 0 s;
         s = s\<lparr>rx_mbufs := (rx_mbufs s)[i := m]\<rparr>
     in
     if m = 0 then Panic ''e1000''
     else
       bindr (get_mbuf m s) (\<lambda>x.
       Ok (s\<lparr>rx_ring := (rx_ring s)[i := (rx_ring s ! i)\<lparr>rx_addr := head_addr m x\<rparr>]\<rparr>)))"

definition e1000_init :: "uint64 \<Rightarrow> uint64 \<Rightarrow> 'a nstate_scheme \<Rightarrow> 'a nstate_scheme res" where
  "e1000_init tx_base rx_base s =
    (let s = set_reg E1000_IMS 0 s;
         s = set_reg E1000_CTL (e1000_regs s E1000_CTL OR E1000_CTL_RST) s;
         s = set_reg E1000_IMS 0 s;
         s = s\<lparr>tx_ring := replicate TX_RING_SIZE \<lparr>tx_addr = 0, tx_length = 0, tx_cso = 0, tx_cmd = 0,
                 tx_status = E1000_TXD_STAT_DD, tx_css = 0, tx_special = 0\<rparr>,
               tx_mbufs := replicate TX_RING_SIZE 0\<rparr>;
         s = set_reg E1000_TDBAL (ucast tx_base) s;
         s = set_reg E1000_TDLEN (of_nat (16 * TX_RING_SIZE)) s;
         s = set_reg E1000_TDH 0 (set_reg E1000_TDT 0 s);
         s = s\<lparr>rx_ring := replicate RX_RING_SIZE \<lparr>rx_addr = 0, rx_length = 0, rx_csum = 0, rx_status = 0,
                 rx_errors = 0, rx_special = 0\<rparr>\<rparr>
     in
     bindr (foreach e1000_init_rx [0..<RX_RING_SIZE] s) (\<lambda>s.
     let s = set_reg E1000_RDBAL (ucast rx_base) s;
         s = set_reg E1000_RDH 0 s;
         s = set_reg E1000_RDT (of_nat RX_RING_SIZE - 1) s;
         s = set_reg E1000_RDLEN (of_nat (16 * RX_RING_SIZE)) s;
         s = set_reg E1000_RA 0x12005452 s;
         s = set_reg (E1000_RA + 1) (0x5634 OR push_bit 31 1) s;
         s = foldl (\<lambda>s i. set_reg (E1000_MTA + i) 0 s) s [0..<4096 div 32];
         s = set_reg E1000_TCTL (E1000_TCTL_EN OR E1000_TCTL_PSP OR push_bit 4 0x10 OR push_bit 12 0x40) s;
         s = set_reg E1000_TIPG (10 OR push_bit 10 8 OR push_bit 20 6) s;
         s = set_reg E1000_RCTL (E1000_RCTL_EN OR E1000_RCTL_BAM OR E1000_RCTL_SZ_2048 OR E1000_RCTL_SECRC) s;
         s = set_reg E1000_RDTR 0 s;
         s = set_reg E1000_RADV 0 s;
         s = set_reg E1000_IMS (push_bit 7 1) s
     in Ok s))"

definition e1000_transmit :: "uint64 \<Rightarrow> 'a nstate_scheme \<Rightarrow> (int \<times> 'a nstate_scheme) res" where
  "e1000_transmit m s =
    (let i = unat (e1000_regs s E1000_TDT);
         desc = tx_ring s ! i
     in
     if tx_status desc AND E1000_TXD_STAT_DD = 0 then Ok (-1, s)
     else
       bindr (if tx_mbufs s ! i \<noteq> 0 then mbuffree (tx_mbufs s ! i) s else Ok s) (\<lambda>s.
       bindr (get_mbuf m s) (\<lambda>x.
       let cmd = tx_cmd desc OR E1000_TXD_CMD_RS;
           cmd = (if m_next x = 0 then cmd OR E1000_TXD_CMD_EOP else cmd);
           desc = desc\<lparr>tx_addr := head_addr m x, tx_length := ucast (m_len x), tx_cmd := cmd\<rparr>;
           s = s\<lparr>tx_ring := (tx_ring s)[i := desc], tx_mbufs := (tx_mbufs s)[i := m]\<rparr>
       in Ok (0, set_reg E1000_TDT (of_nat ((i + 1) mod TX_RING_SIZE)) s))))"

section \<open>Sending\<close>

definition local_ip :: uint where
  "local_ip = push_bit 24 10 OR push_bit 16 0 OR push_bit 8 2 OR 15"

definition local_mac :: "uchar list" where "local_mac = [0x52, 0x54, 0x00, 0x12, 0x34, 0x56]"
definition broadcast_mac :: "uchar list" where "broadcast_mac = [0xFF, 0xFF, 0xFF, 0xFF, 0xFF, 0xFF]"

definition ETHTYPE_IP :: ushort where "ETHTYPE_IP = 0x0800"
definition ETHTYPE_ARP :: ushort where "ETHTYPE_ARP = 0x0806"
definition IPPROTO_UDP :: uchar where "IPPROTO_UDP = 17"
definition ARP_HRD_ETHER :: ushort where "ARP_HRD_ETHER = 1"
definition ARP_OP_REQUEST :: ushort where "ARP_OP_REQUEST = 1"
definition ARP_OP_REPLY :: ushort where "ARP_OP_REPLY = 2"
definition IP_VHL :: uchar where "IP_VHL = push_bit 4 4 OR drop_bit 2 20"

text \<open>The stores into a header at offset \<open>h\<close> of the buffer.\<close>

definition eth_header :: "nat \<Rightarrow> ushort \<Rightarrow> uchar list \<Rightarrow> uchar list" where
  "eth_header h ethtype d =
    put16 (putb (putb d (h + 6) local_mac) h broadcast_mac) (h + 12) (bswaps ethtype)"

definition ip_header :: "nat \<Rightarrow> uchar \<Rightarrow> uint \<Rightarrow> uint \<Rightarrow> uchar list \<Rightarrow> uchar list" where
  "ip_header h proto dip len d =
    (let d = putb d h (replicate 20 0);
         d = putb d h [IP_VHL];
         d = putb d (h + 9) [proto];
         d = put32 d (h + 12) (bswapl local_ip);
         d = put32 d (h + 16) (bswapl dip);
         d = put16 d (h + 2) (bswaps (ucast len));
         d = putb d (h + 8) [100]
     in put16 d (h + 10) (in_cksum (getb d h 20)))"

definition udp_header :: "nat \<Rightarrow> ushort \<Rightarrow> ushort \<Rightarrow> uint \<Rightarrow> uchar list \<Rightarrow> uchar list" where
  "udp_header h sport dport len d =
    (let d = put16 d h (bswaps sport);
         d = put16 d (h + 2) (bswaps dport);
         d = put16 d (h + 4) (bswaps (ucast len))
     in put16 d (h + 6) 0)"

definition arp_header :: "nat \<Rightarrow> ushort \<Rightarrow> uchar list \<Rightarrow> uint \<Rightarrow> uchar list \<Rightarrow> uchar list" where
  "arp_header h op dmac dip d =
    (let d = put16 d h (bswaps ARP_HRD_ETHER);
         d = put16 d (h + 2) (bswaps ETHTYPE_IP);
         d = putb d (h + 4) [6];
         d = putb d (h + 5) [4];
         d = put16 d (h + 6) (bswaps op);
         d = putb d (h + 8) local_mac;
         d = put32 d (h + 14) (bswapl local_ip);
         d = putb d (h + 18) dmac
     in put32 d (h + 24) (bswapl dip))"

definition net_tx_eth :: "uint64 \<Rightarrow> ushort \<Rightarrow> 'a nstate_scheme \<Rightarrow> 'a nstate_scheme res" where
  "net_tx_eth m ethtype s =
    bindr (get_mbuf m s) (\<lambda>x.
    bindr (mbufpush 14 x) (\<lambda>(h, x).
    let s = set_mbuf m (x\<lparr>m_buf := eth_header (nat h) ethtype (m_buf x)\<rparr>) s in
    bindr (e1000_transmit m s) (\<lambda>(r, s). if r \<noteq> 0 then mbuffree m s else Ok s)))"

definition net_tx_ip :: "uint64 \<Rightarrow> uchar \<Rightarrow> uint \<Rightarrow> 'a nstate_scheme \<Rightarrow> 'a nstate_scheme res" where
  "net_tx_ip m proto dip s =
    bindr (get_mbuf m s) (\<lambda>x.
    bindr (mbufpush 20 x) (\<lambda>(h, x).
    net_tx_eth m ETHTYPE_IP (set_mbuf m (x\<lparr>m_buf := ip_header (nat h) proto dip (m_len x) (m_buf x)\<rparr>) s)))"

definition net_tx_udp :: "uint64 \<Rightarrow> uint \<Rightarrow> ushort \<Rightarrow> ushort \<Rightarrow> 'a nstate_scheme \<Rightarrow> 'a nstate_scheme res" where
  "net_tx_udp m dip sport dport s =
    bindr (get_mbuf m s) (\<lambda>x.
    bindr (mbufpush 8 x) (\<lambda>(h, x).
    net_tx_ip m IPPROTO_UDP dip (set_mbuf m (x\<lparr>m_buf := udp_header (nat h) sport dport (m_len x) (m_buf x)\<rparr>) s)))"

definition net_tx_arp :: "ushort \<Rightarrow> uchar list \<Rightarrow> uint \<Rightarrow> 'a nstate_scheme \<Rightarrow> (int \<times> 'a nstate_scheme) res" where
  "net_tx_arp op dmac dip s =
    (let (m, s) = mbufalloc MBUF_DEFAULT_HEADROOM s in
     if m = 0 then Ok (-1, s)
     else
       bindr (get_mbuf m s) (\<lambda>x.
       bindr (mbufput 28 x) (\<lambda>(h, x).
       bindr (net_tx_eth m ETHTYPE_ARP (set_mbuf m (x\<lparr>m_buf := arp_header (nat h) op dmac dip (m_buf x)\<rparr>) s)) (\<lambda>s.
       Ok (0, s)))))"

section \<open>Sockets: delivery\<close>

text \<open>
  Walks along the list of sockets.  Every socket fills a page, so a list without a cycle has
  fewer than 32768 of them; the fuel of a walk is more than that.
\<close>

definition SOCK_FUEL :: nat where "SOCK_FUEL = 32768"

fun find_sock :: "nat \<Rightarrow> uint64 \<Rightarrow> uint \<Rightarrow> ushort \<Rightarrow> ushort \<Rightarrow> 'a nstate_scheme \<Rightarrow> uint64 res" where
  "find_sock fuel si raddr lport rport s =
    (if si = 0 then Ok 0
     else if fuel = 0 then Diverge
     else
       case socks s si of
         None \<Rightarrow> Diverge
       | Some x \<Rightarrow>
           if so_raddr x = raddr \<and> so_lport x = lport \<and> so_rport x = rport then Ok si
           else find_sock (fuel - 1) (so_next x) raddr lport rport s)"

declare find_sock.simps [simp del]

definition sockrecvudp :: "uint64 \<Rightarrow> uint \<Rightarrow> ushort \<Rightarrow> ushort \<Rightarrow> 'a nstate_scheme \<Rightarrow> 'a nstate_scheme res" where
  "sockrecvudp m raddr lport rport s =
    bindr (find_sock SOCK_FUEL (sockets s) raddr lport rport s) (\<lambda>si.
    if si = 0 then mbuffree m s
    else
      let x = the (socks s si) in
      bindr (mbufq_pushtail (so_rxq x) m s) (\<lambda>(q, s).
      Ok (wakeup (ChSock si) (s\<lparr>socks := (socks s)(si \<mapsto> x\<lparr>so_rxq := q\<rparr>)\<rparr>))))"

section \<open>Receiving\<close>

definition net_rx_arp :: "uint64 \<Rightarrow> 'a nstate_scheme \<Rightarrow> 'a nstate_scheme res" where
  "net_rx_arp m s =
    bindr (get_mbuf m s) (\<lambda>x.
    case mbufpull 28 x of
      (None, x) \<Rightarrow> mbuffree m (set_mbuf m x s)
    | (Some h, x) \<Rightarrow>
        let h = nat h; d = m_buf x; s = set_mbuf m x s;
            tip = bswapl (get32 d (h + 24))
        in
        if bswaps (get16 d h) \<noteq> ARP_HRD_ETHER \<or> bswaps (get16 d (h + 2)) \<noteq> ETHTYPE_IP \<or>
           d ! (h + 4) \<noteq> 6 \<or> d ! (h + 5) \<noteq> 4 then mbuffree m s
        else if bswaps (get16 d (h + 6)) \<noteq> ARP_OP_REQUEST \<or> tip \<noteq> local_ip then mbuffree m s
        else
          let smac = getb d (h + 8) 6;
              sip = bswapl (get32 d (h + 14))
          in bindr (net_tx_arp ARP_OP_REPLY smac sip s) (\<lambda>(r, s). mbuffree m s))"

text \<open>\<^verbatim>\<open>iphdr\<close> points into the same buffer: its offset.  \<^verbatim>\<open>len\<close> is a 16-bit variable.\<close>

definition net_rx_udp :: "uint64 \<Rightarrow> ushort \<Rightarrow> nat \<Rightarrow> 'a nstate_scheme \<Rightarrow> 'a nstate_scheme res" where
  "net_rx_udp m len iphdr s =
    bindr (get_mbuf m s) (\<lambda>x.
    case mbufpull 8 x of
      (None, x) \<Rightarrow> mbuffree m (set_mbuf m x s)
    | (Some h, x) \<Rightarrow>
        let h = nat h; d = m_buf x in
        if bswaps (get16 d (h + 4)) \<noteq> len then mbuffree m (set_mbuf m x s)
        else
          let len = len - 8 in
          if ucast len > m_len x then mbuffree m (set_mbuf m x s)
          else
            let (r, x) = mbuftrim (m_len x - ucast len) x;
                s = set_mbuf m x s;
                sip = bswapl (get32 d (iphdr + 12));
                sport = bswaps (get16 d h);
                dport = bswaps (get16 d (h + 2))
            in sockrecvudp m sip dport sport s)"

definition net_rx_ip :: "uint64 \<Rightarrow> 'a nstate_scheme \<Rightarrow> 'a nstate_scheme res" where
  "net_rx_ip m s =
    bindr (get_mbuf m s) (\<lambda>x.
    case mbufpull 20 x of
      (None, x) \<Rightarrow> mbuffree m (set_mbuf m x s)
    | (Some h, x) \<Rightarrow>
        let h = nat h; d = m_buf x; s = set_mbuf m x s in
        if d ! h \<noteq> IP_VHL then mbuffree m s
        else if in_cksum (getb d h 20) \<noteq> 0 then mbuffree m s
        else if bswaps (get16 d (h + 6)) \<noteq> 0 then mbuffree m s
        else if bswapl (get32 d (h + 16)) \<noteq> local_ip then mbuffree m s
        else if d ! (h + 9) \<noteq> IPPROTO_UDP then mbuffree m s
        else
          let len = bswaps (get16 d (h + 2)) - 20 in
          net_rx_udp m len h s)"

definition net_rx :: "uint64 \<Rightarrow> 'a nstate_scheme \<Rightarrow> 'a nstate_scheme res" where
  "net_rx m s =
    bindr (get_mbuf m s) (\<lambda>x.
    case mbufpull 14 x of
      (None, x) \<Rightarrow> mbuffree m (set_mbuf m x s)
    | (Some h, x) \<Rightarrow>
        let type = bswaps (get16 (m_buf x) (nat h + 12));
            s = set_mbuf m x s
        in
        if type = ETHTYPE_IP then net_rx_ip m s
        else if type = ETHTYPE_ARP then net_rx_arp m s
        else mbuffree m s)"

definition e1000_recv :: "'a nstate_scheme \<Rightarrow> 'a nstate_scheme res" where
  "e1000_recv s =
    (let i = unat ((e1000_regs s E1000_RDT + 1) mod of_nat RX_RING_SIZE);
         desc = rx_ring s ! i
     in
     if rx_status desc AND E1000_RXD_STAT_DD = 0 then Ok s
     else
       bindr (get_mbuf (rx_mbufs s ! i) s) (\<lambda>x.
       bindr (net_rx (rx_mbufs s ! i) (set_mbuf (rx_mbufs s ! i) (x\<lparr>m_len := ucast (rx_length desc)\<rparr>) s)) (\<lambda>s.
       let (m, s) = mbufalloc 0 s;
           s = s\<lparr>rx_mbufs := (rx_mbufs s)[i := m]\<rparr>
       in
       if m = 0 then Panic ''e1000_recv''
       else
         bindr (get_mbuf m s) (\<lambda>y.
         let s = s\<lparr>rx_ring := (rx_ring s)[i := (rx_ring s ! i)\<lparr>rx_addr := head_addr m y, rx_status := 0\<rparr>]\<rparr>
         in Ok (set_reg E1000_RDT (of_nat i) s)))))"

text \<open>Reading \<^verbatim>\<open>ICR\<close> acknowledges the interrupt and changes nothing the driver keeps.\<close>

definition e1000_intr :: "'a nstate_scheme \<Rightarrow> 'a nstate_scheme res" where
  "e1000_intr s = e1000_recv s"

section \<open>Sockets: system calls\<close>

text \<open>\<^verbatim>\<open>unlink_sock\<close> is the loop of \<^verbatim>\<open>sockclose\<close>: \<open>prev\<close> is the socket whose \<^verbatim>\<open>next\<close> field
  \<^verbatim>\<open>pos\<close> points to, 0 for the variable \<^verbatim>\<open>sockets\<close>.\<close>

fun unlink_sock :: "nat \<Rightarrow> uint64 \<Rightarrow> uint64 \<Rightarrow> uint64 \<Rightarrow> 'a nstate_scheme \<Rightarrow> 'a nstate_scheme res" where
  "unlink_sock fuel prev pos si s =
    (if pos = 0 then Ok s
     else if fuel = 0 then Diverge
     else
       case socks s pos of
         None \<Rightarrow> Diverge
       | Some x \<Rightarrow>
           if pos = si then
             Ok (if prev = 0 then s\<lparr>sockets := so_next x\<rparr>
                 else s\<lparr>socks := (socks s)(prev := map_option (\<lambda>y. y\<lparr>so_next := so_next x\<rparr>) (socks s prev))\<rparr>)
           else unlink_sock (fuel - 1) pos (so_next x) si s)"

declare unlink_sock.simps [simp del]

fun drain_rxq :: "nat \<Rightarrow> mbufq \<Rightarrow> 'a nstate_scheme \<Rightarrow> 'a nstate_scheme res" where
  "drain_rxq fuel q s =
    (if mbufq_empty q then Ok s
     else if fuel = 0 then Diverge
     else
       bindr (mbufq_pophead q s) (\<lambda>(m, q).
       bindr (mbuffree m s) (\<lambda>s. drain_rxq (fuel - 1) q s)))"

declare drain_rxq.simps [simp del]

definition sockclose :: "uint64 \<Rightarrow> 'a nstate_scheme \<Rightarrow> 'a nstate_scheme res" where
  "sockclose si s =
    bindr (unlink_sock SOCK_FUEL 0 (sockets s) si s) (\<lambda>s.
    case socks s si of
      None \<Rightarrow> Diverge
    | Some x \<Rightarrow>
        bindr (drain_rxq SOCK_FUEL (so_rxq x) s) (\<lambda>s.
        bindr (kfree si s) (\<lambda>s.
        Ok (s\<lparr>socks := (socks s)(si := None)\<rparr>))))"

text \<open>
  \<^verbatim>\<open>sockread\<close> from the start or after a wake-up.  With a negative \<^verbatim>\<open>n\<close> the length handed to
  \<^verbatim>\<open>copyout\<close> is a huge unsigned number, and kernel memory behind the packet is read: the model
  does not follow that.
\<close>

definition sockread :: "uint64 \<Rightarrow> uint64 \<Rightarrow> int \<Rightarrow> 'a nstate_scheme \<Rightarrow> ((unit, int) io \<times> 'a nstate_scheme) res" where
  "sockread si addr n s =
    (case socks s si of
       None \<Rightarrow> Diverge
     | Some x \<Rightarrow>
         if mbufq_empty (so_rxq x) \<and> \<not> p_killed (curproc s) then Ok (Wait (ChSock si) (), s)
         else if p_killed (curproc s) then Ok (Return (-1), s)
         else
           bindr (mbufq_pophead (so_rxq x) s) (\<lambda>(m, q).
           let s = s\<lparr>socks := (socks s)(si \<mapsto> x\<lparr>so_rxq := q\<rparr>)\<rparr> in
           bindr (get_mbuf m s) (\<lambda>y.
           let len = sint (m_len y);
               len = (if len > n then n else len)
           in
           if len < 0 then Diverge
           else
             let (r, s) = copyout (p_pagetable (curproc s)) addr (getb (m_buf y) (nat (m_head y)) (nat len)) s in
             if r = -1 then bindr (mbuffree m s) (\<lambda>s. Ok (Return (-1), s))
             else bindr (mbuffree m s) (\<lambda>s. Ok (Return len, s)))))"

definition sockwrite :: "uint64 \<Rightarrow> uint64 \<Rightarrow> int \<Rightarrow> 'a nstate_scheme \<Rightarrow> (int \<times> 'a nstate_scheme) res" where
  "sockwrite si addr n s =
    (let (m, s) = mbufalloc MBUF_DEFAULT_HEADROOM s in
     if m = 0 then Ok (-1, s)
     else
       bindr (get_mbuf m s) (\<lambda>x.
       bindr (mbufput (of_int n) x) (\<lambda>(h, x).
       let (r, bs) = copyin (p_pagetable (curproc s)) addr (unat (of_int n :: uint)) s;
           s = set_mbuf m (x\<lparr>m_buf := putb (m_buf x) (nat h) bs\<rparr>) s
       in
       if r = -1 then bindr (mbuffree m s) (\<lambda>s. Ok (-1, s))
       else
         case socks s si of
           None \<Rightarrow> Diverge
         | Some y \<Rightarrow>
             bindr (net_tx_udp m (so_raddr y) (so_lport y) (so_rport y) s) (\<lambda>s.
             Ok (n, s)))))"

end
