(* ===== verification/File.thy ===== *)
theory File
  imports Net
begin

text \<open>
  Open files and pipes: \<^verbatim>\<open>kernel/file.c\<close>, \<^verbatim>\<open>kernel/pipe.c\<close> and the allocation of sockets
  (\<^verbatim>\<open>sockalloc\<close> of \<^verbatim>\<open>kernel/sysnet.c\<close>).

  A slot of \<^verbatim>\<open>ftable.file[NFILE]\<close> is named by its index, a pipe by the address of the page it
  fills.  \<open>stat_pad\<close> is what the kernel stack holds in the four bytes of padding of a
  \<^verbatim>\<open>struct stat\<close>.  \<^verbatim>\<open>consoleinit\<close> is the only routine that stores into \<^verbatim>\<open>devsw\<close>, so the table is its one entry.
\<close>

section \<open>State\<close>

datatype ftype = FD_NONE | FD_PIPE | FD_INODE | FD_DEVICE | FD_SOCK

record kfile =
  f_type :: ftype
  f_ref :: int
  f_readable :: bool
  f_writable :: bool
  f_pipe :: uint64
  f_ip :: nat
  f_sock :: uint64
  f_off :: uint
  f_major :: ushort

record pipe =
  pi_data :: "uchar list"
  pi_nread :: uint
  pi_nwrite :: uint
  pi_readopen :: bool
  pi_writeopen :: bool

record kstate = nstate +
  ftable :: "kfile list"
  pipes :: "uint64 \<Rightarrow> pipe option"
  ticks :: uint
  stat_pad :: "uchar list"

definition NFILE :: nat where "NFILE = 100"
definition NDEV :: int where "NDEV = 10"
definition CONSOLE :: int where "CONSOLE = 1"
definition PIPESIZE :: nat where "PIPESIZE = 512"

section \<open>Pipes\<close>

definition get_pipe :: "uint64 \<Rightarrow> 'a kstate_scheme \<Rightarrow> pipe res" where
  "get_pipe a s = (case pipes s a of None \<Rightarrow> Diverge | Some x \<Rightarrow> Ok x)"

definition set_pipe :: "uint64 \<Rightarrow> pipe \<Rightarrow> 'a kstate_scheme \<Rightarrow> 'a kstate_scheme" where
  "set_pipe a x s = s\<lparr>pipes := (pipes s)(a \<mapsto> x)\<rparr>"

definition pipe_put :: "uchar \<Rightarrow> pipe \<Rightarrow> pipe" where
  "pipe_put ch p = p\<lparr>pi_data := (pi_data p)[unat (pi_nwrite p) mod PIPESIZE := ch], pi_nwrite := pi_nwrite p + 1\<rparr>"

definition pipe_get :: "pipe \<Rightarrow> uchar \<times> pipe" where
  "pipe_get p = (pi_data p ! (unat (pi_nread p) mod PIPESIZE), p\<lparr>pi_nread := pi_nread p + 1\<rparr>)"

definition pipeclose :: "uint64 \<Rightarrow> bool \<Rightarrow> 'a kstate_scheme \<Rightarrow> 'a kstate_scheme res" where
  "pipeclose a writable s =
    bindr (get_pipe a s) (\<lambda>p.
    let p = (if writable then p\<lparr>pi_writeopen := False\<rparr> else p\<lparr>pi_readopen := False\<rparr>);
        s = wakeup (if writable then ChPipeRead a else ChPipeWrite a) (set_pipe a p s)
    in
    if \<not> pi_readopen p \<and> \<not> pi_writeopen p
    then bindr (kfree a s) (\<lambda>s. Ok (s\<lparr>pipes := (pipes s)(a := None)\<rparr>))
    else Ok s)"

text \<open>
  The loop of \<^verbatim>\<open>pipewrite\<close> with \<open>k\<close> bytes to go, from the start or from the loop's head after a
  wake-up, where \<^verbatim>\<open>i\<close> is the local that a sleeper keeps.
\<close>

primrec pipewrite_loop :: "uint64 \<Rightarrow> uint64 \<Rightarrow> nat \<Rightarrow> nat \<Rightarrow> 'a kstate_scheme \<Rightarrow> ((nat, int) io \<times> 'a kstate_scheme) res" where
  "pipewrite_loop a addr i 0 s = Ok (Return (int i), wakeup (ChPipeRead a) s)"
| "pipewrite_loop a addr i (Suc k) s =
    bindr (get_pipe a s) (\<lambda>p.
    if \<not> pi_readopen p \<or> p_killed (curproc s) then Ok (Return (-1), s)
    else if pi_nwrite p = pi_nread p + of_nat PIPESIZE then Ok (Wait (ChPipeWrite a) i, wakeup (ChPipeRead a) s)
    else
      let (r, ch) = copyin (p_pagetable (curproc s)) (addr + of_nat i) 1 s in
      if r = -1 then Ok (Return (int i), wakeup (ChPipeRead a) s)
      else pipewrite_loop a addr (Suc i) k (set_pipe a (pipe_put (ch ! 0) p) s))"

definition pipewrite :: "uint64 \<Rightarrow> uint64 \<Rightarrow> int \<Rightarrow> 'a kstate_scheme \<Rightarrow> ((nat, int) io \<times> 'a kstate_scheme) res" where
  "pipewrite a addr n s = pipewrite_loop a addr 0 (nat n) s"

definition pipewrite_resume :: "uint64 \<Rightarrow> uint64 \<Rightarrow> int \<Rightarrow> nat \<Rightarrow> 'a kstate_scheme \<Rightarrow> ((nat, int) io \<times> 'a kstate_scheme) res" where
  "pipewrite_resume a addr n i s = pipewrite_loop a addr i (nat n - i) s"

primrec piperead_loop :: "uint64 \<Rightarrow> uint64 \<Rightarrow> nat \<Rightarrow> nat \<Rightarrow> 'a kstate_scheme \<Rightarrow> (int \<times> 'a kstate_scheme) res" where
  "piperead_loop a addr i 0 s = Ok (int i, s)"
| "piperead_loop a addr i (Suc k) s =
    bindr (get_pipe a s) (\<lambda>p.
    if pi_nread p = pi_nwrite p then Ok (int i, s)
    else
      let (ch, p) = pipe_get p;
          s = set_pipe a p s;
          (r, s) = copyout (p_pagetable (curproc s)) (addr + of_nat i) [ch] s
      in
      if r = -1 then Ok (int i, s)
      else piperead_loop a addr (Suc i) k s)"

definition piperead :: "uint64 \<Rightarrow> uint64 \<Rightarrow> int \<Rightarrow> 'a kstate_scheme \<Rightarrow> ((unit, int) io \<times> 'a kstate_scheme) res" where
  "piperead a addr n s =
    bindr (get_pipe a s) (\<lambda>p.
    if pi_nread p = pi_nwrite p \<and> pi_writeopen p then
      if p_killed (curproc s) then Ok (Return (-1), s) else Ok (Wait (ChPipeRead a) (), s)
    else
      bindr (piperead_loop a addr 0 (nat n) s) (\<lambda>(i, s).
      Ok (Return i, wakeup (ChPipeWrite a) s)))"

section \<open>The file table\<close>

definition set_file :: "nat \<Rightarrow> (kfile \<Rightarrow> kfile) \<Rightarrow> 'a kstate_scheme \<Rightarrow> 'a kstate_scheme" where
  "set_file f g s = s\<lparr>ftable := (ftable s)[f := g (ftable s ! f)]\<rparr>"

fun find_file :: "kfile list \<Rightarrow> nat \<Rightarrow> nat option" where
  "find_file [] i = None"
| "find_file (x # xs) i = (if f_ref x = 0 then Some i else find_file xs (Suc i))"

definition filealloc :: "'a kstate_scheme \<Rightarrow> nat option \<times> 'a kstate_scheme" where
  "filealloc s =
    (case find_file (ftable s) 0 of
       Some f \<Rightarrow> (Some f, set_file f (\<lambda>x. x\<lparr>f_ref := 1\<rparr>) s)
     | None \<Rightarrow> (None, s))"

definition filedup :: "nat \<Rightarrow> 'a kstate_scheme \<Rightarrow> 'a kstate_scheme res" where
  "filedup f s =
    (if f_ref (ftable s ! f) < 1 then Panic ''filedup''
     else Ok (set_file f (\<lambda>x. x\<lparr>f_ref := f_ref x + 1\<rparr>) s))"

definition fileclose :: "nat \<Rightarrow> 'a kstate_scheme \<Rightarrow> 'a kstate_scheme res" where
  "fileclose f s =
    (if f_ref (ftable s ! f) < 1 then Panic ''fileclose''
     else
       let s = set_file f (\<lambda>x. x\<lparr>f_ref := f_ref x - 1\<rparr>) s in
       if f_ref (ftable s ! f) > 0 then Ok s
       else
         let ff = ftable s ! f;
             s = set_file f (\<lambda>x. x\<lparr>f_ref := 0, f_type := FD_NONE\<rparr>) s
         in
         case f_type ff of
           FD_PIPE \<Rightarrow> pipeclose (f_pipe ff) (f_writable ff) s
         | FD_INODE \<Rightarrow> bindr (begin_op s) (\<lambda>s. bindr (iput (f_ip ff) s) end_op)
         | FD_DEVICE \<Rightarrow> bindr (begin_op s) (\<lambda>s. bindr (iput (f_ip ff) s) end_op)
         | FD_SOCK \<Rightarrow> sockclose (f_sock ff) s
         | FD_NONE \<Rightarrow> Ok s)"

definition close_opt :: "nat option \<Rightarrow> 'a kstate_scheme \<Rightarrow> 'a kstate_scheme res" where
  "close_opt f s = (case f of None \<Rightarrow> Ok s | Some f \<Rightarrow> fileclose f s)"

text \<open>A fresh page holds the byte 5 throughout, also in \<^verbatim>\<open>data\<close>.\<close>

definition pipealloc :: "'a kstate_scheme \<Rightarrow> ((nat \<times> nat) option \<times> 'a kstate_scheme) res" where
  "pipealloc s =
    (case filealloc s of
       (None, s) \<Rightarrow> Ok (None, s)
     | (Some f0, s) \<Rightarrow>
         case filealloc s of
           (None, s) \<Rightarrow> bindr (fileclose f0 s) (\<lambda>s. Ok (None, s))
         | (Some f1, s) \<Rightarrow>
             let (a, s) = kalloc s in
             if a = 0 then bindr (fileclose f0 s) (\<lambda>s. bindr (fileclose f1 s) (\<lambda>s. Ok (None, s)))
             else
               let s = set_pipe a \<lparr>pi_data = replicate PIPESIZE 5, pi_nread = 0, pi_nwrite = 0,
                         pi_readopen = True, pi_writeopen = True\<rparr> s;
                   s = set_file f0 (\<lambda>x. x\<lparr>f_type := FD_PIPE, f_readable := True, f_writable := False, f_pipe := a\<rparr>) s;
                   s = set_file f1 (\<lambda>x. x\<lparr>f_type := FD_PIPE, f_readable := False, f_writable := True, f_pipe := a\<rparr>) s
               in Ok (Some (f0, f1), s))"

text \<open>\<^verbatim>\<open>mbufq_init\<close> sets \<^verbatim>\<open>rxq.head\<close>; \<^verbatim>\<open>rxq.tail\<close> keeps the filling of a fresh page.\<close>

definition sockalloc :: "uint \<Rightarrow> ushort \<Rightarrow> ushort \<Rightarrow> 'a kstate_scheme \<Rightarrow> (nat option \<times> 'a kstate_scheme) res" where
  "sockalloc raddr lport rport s =
    (case filealloc s of
       (None, s) \<Rightarrow> Ok (None, s)
     | (Some f, s) \<Rightarrow>
         let (si, s) = kalloc s in
         if si = 0 then bindr (fileclose f s) (\<lambda>s. Ok (None, s))
         else
           let x = \<lparr>so_next = 0x0505050505050505, so_raddr = raddr, so_lport = lport, so_rport = rport,
                 so_rxq = mbufq_init \<lparr>q_head = 0x0505050505050505, q_tail = 0x0505050505050505\<rparr>\<rparr>;
               s = s\<lparr>socks := (socks s)(si \<mapsto> x)\<rparr>;
               s = set_file f (\<lambda>x. x\<lparr>f_type := FD_SOCK, f_readable := True, f_writable := True, f_sock := si\<rparr>) s
           in
           bindr (find_sock SOCK_FUEL (sockets s) raddr lport rport s) (\<lambda>pos.
           if pos \<noteq> 0 then
             bindr (kfree si s) (\<lambda>s.
             let s = s\<lparr>socks := (socks s)(si := None)\<rparr> in
             bindr (fileclose f s) (\<lambda>s. Ok (None, s)))
           else
             Ok (Some f, s\<lparr>socks := (socks s)(si \<mapsto> x\<lparr>so_next := sockets s\<rparr>), sockets := si\<rparr>)))"

section \<open>Operations on open files\<close>

definition stat_bytes :: "uchar list \<Rightarrow> stat \<Rightarrow> uchar list" where
  "stat_bytes pad st =
    le_bytes 4 (st_dev st) @ le_bytes 4 (st_ino st) @ le_bytes 2 (st_type st) @ le_bytes 2 (st_nlink st) @
    pad @ le_bytes 8 (st_size st)"

definition filestat :: "nat \<Rightarrow> uint64 \<Rightarrow> 'a kstate_scheme \<Rightarrow> (int \<times> 'a kstate_scheme) res" where
  "filestat f addr s =
    (let x = ftable s ! f in
     if f_type x = FD_INODE \<or> f_type x = FD_DEVICE then
       bindr (ilock (f_ip x) s) (\<lambda>s.
       let st = stati (f_ip x) s in
       bindr (iunlock (f_ip x) s) (\<lambda>s.
       let (r, s) = copyout (p_pagetable (curproc s)) addr (stat_bytes (stat_pad s) st) s in
       Ok (if r < 0 then -1 else 0, s)))
     else Ok (-1, s))"

text \<open>What a process that sleeps in \<^verbatim>\<open>fileread\<close> or \<^verbatim>\<open>filewrite\<close> goes on with.\<close>

datatype fwait = WaitPipeRead | WaitPipeWrite nat | WaitConsRead uint64 nat | WaitConsWrite nat uchar | WaitSock

definition io_map :: "('l \<Rightarrow> fwait) \<Rightarrow> ('l, int) io \<times> 's \<Rightarrow> (fwait, int) io \<times> 's" where
  "io_map g rs = (case rs of (Return r, s) \<Rightarrow> (Return r, s) | (Wait c l, s) \<Rightarrow> (Wait c (g l), s))"

definition fileread :: "nat \<Rightarrow> uint64 \<Rightarrow> int \<Rightarrow> 'a kstate_scheme \<Rightarrow> ((fwait, int) io \<times> 'a kstate_scheme) res" where
  "fileread f addr n s =
    (let x = ftable s ! f in
     if \<not> f_readable x then Ok (Return (-1), s)
     else
       case f_type x of
         FD_PIPE \<Rightarrow> bindr (piperead (f_pipe x) addr n s) (\<lambda>r. Ok (io_map (\<lambda>_. WaitPipeRead) r))
       | FD_DEVICE \<Rightarrow>
           if sint (f_major x) < 0 \<or> sint (f_major x) \<ge> NDEV \<or> sint (f_major x) \<noteq> CONSOLE then Ok (Return (-1), s)
           else Ok (io_map (\<lambda>(dst, n). WaitConsRead dst n) (consoleread True addr n s))
       | FD_INODE \<Rightarrow>
           bindr (ilock (f_ip x) s) (\<lambda>s.
           bindr (readi (f_ip x) (UserDst addr) (f_off x) (of_int n) s) (\<lambda>(r, bs, s).
           let s = (if r > 0 then set_file f (\<lambda>x. x\<lparr>f_off := f_off x + of_int r\<rparr>) s else s) in
           bindr (iunlock (f_ip x) s) (\<lambda>s. Ok (Return r, s))))
       | FD_SOCK \<Rightarrow> bindr (sockread (f_sock x) addr n s) (\<lambda>r. Ok (io_map (\<lambda>_. WaitSock) r))
       | FD_NONE \<Rightarrow> Panic ''fileread'')"

text \<open>The loop of \<^verbatim>\<open>filewrite\<close> over an inode: one transaction for every \<^verbatim>\<open>max\<close> bytes.\<close>

definition filewrite_max :: int where
  "filewrite_max = ((MAXOPBLOCKS - 1 - 1 - 2) div 2) * int BSIZE"

function filewrite_loop :: "nat \<Rightarrow> uint64 \<Rightarrow> int \<Rightarrow> int \<Rightarrow> 'a kstate_scheme \<Rightarrow> (int \<times> 'a kstate_scheme) res" where
  "filewrite_loop f addr i n s =
    (if i < n then
       let n1 = min (n - i) filewrite_max in
       bindr (begin_op s) (\<lambda>s.
       bindr (ilock (f_ip (ftable s ! f)) s) (\<lambda>s.
       bindr (writei (f_ip (ftable s ! f)) (UserSrc (addr + of_int i)) (f_off (ftable s ! f)) (of_int n1) s) (\<lambda>(r, s).
       let s = (if r > 0 then set_file f (\<lambda>x. x\<lparr>f_off := f_off x + of_int r\<rparr>) s else s) in
       bindr (iunlock (f_ip (ftable s ! f)) s) (\<lambda>s.
       bindr (end_op s) (\<lambda>s.
       if r \<noteq> n1 then Ok (i, s) else filewrite_loop f addr (i + r) n s)))))
     else Ok (i, s))"
  by pat_completeness auto

termination
  by (relation "measure (\<lambda>(f, addr, i, n, s). nat (n - i))") (auto simp: filewrite_max_def MAXOPBLOCKS_def BSIZE_def min_def)

declare filewrite_loop.simps [simp del]

definition filewrite :: "nat \<Rightarrow> uint64 \<Rightarrow> int \<Rightarrow> 'a kstate_scheme \<Rightarrow> ((fwait, int) io \<times> 'a kstate_scheme) res" where
  "filewrite f addr n s =
    (let x = ftable s ! f in
     if \<not> f_writable x then Ok (Return (-1), s)
     else
       case f_type x of
         FD_PIPE \<Rightarrow> bindr (pipewrite (f_pipe x) addr n s) (\<lambda>r. Ok (io_map WaitPipeWrite r))
       | FD_DEVICE \<Rightarrow>
           if sint (f_major x) < 0 \<or> sint (f_major x) \<ge> NDEV \<or> sint (f_major x) \<noteq> CONSOLE then Ok (Return (-1), s)
           else bindr (consolewrite True addr n s) (\<lambda>r. Ok (io_map (\<lambda>(i, c). WaitConsWrite i c) r))
       | FD_INODE \<Rightarrow> bindr (filewrite_loop f addr 0 n s) (\<lambda>(i, s). Ok (Return (if i = n then n else -1), s))
       | FD_SOCK \<Rightarrow> bindr (sockwrite (f_sock x) addr n s) (\<lambda>(r, s). Ok (Return r, s))
       | FD_NONE \<Rightarrow> Panic ''filewrite'')"

end
