(* ===== verification/Sysproc.thy ===== *)
theory Sysproc
  imports File
begin

text \<open>
  System calls about processes: the fetching of arguments (\<^verbatim>\<open>kernel/syscall.c\<close>), \<^verbatim>\<open>userinit\<close>,
  \<^verbatim>\<open>fork\<close> and \<^verbatim>\<open>exit\<close> (\<^verbatim>\<open>kernel/proc.c\<close>) and \<^verbatim>\<open>kernel/sysproc.c\<close>.

  A system call returns a value for register \<^verbatim>\<open>a0\<close>, puts its process to sleep with what the
  process will go on with, or ends it.
\<close>

section \<open>Arguments\<close>

text \<open>Offsets of the registers in \<^verbatim>\<open>struct trapframe\<close>.\<close>

definition TF_epc :: uint64 where "TF_epc = 24"
definition TF_sp :: uint64 where "TF_sp = 48"
definition TF_a0 :: uint64 where "TF_a0 = 112"
definition TF_a1 :: uint64 where "TF_a1 = 120"
definition TF_a7 :: uint64 where "TF_a7 = 168"

definition TF_SIZE :: nat where "TF_SIZE = 288"

definition get_tf :: "proc \<Rightarrow> uint64 \<Rightarrow> 'a pstate_scheme \<Rightarrow> uint64" where
  "get_tf p r s = load64 (pmem s) (p_trapframe p + r)"

definition set_tf :: "proc \<Rightarrow> uint64 \<Rightarrow> uint64 \<Rightarrow> 'a pstate_scheme \<Rightarrow> 'a pstate_scheme" where
  "set_tf p r v s = s\<lparr>pmem := store64 (pmem s) (p_trapframe p + r) v\<rparr>"

definition fetchaddr :: "uint64 \<Rightarrow> 'a pstate_scheme \<Rightarrow> uint64 option" where
  "fetchaddr addr s =
    (let p = curproc s in
     if addr \<ge> p_sz p \<or> addr + 8 > p_sz p then None
     else
       let (r, bs) = copyin (p_pagetable p) addr 8 s in
       if r \<noteq> 0 then None else Some (of_le bs))"

text \<open>\<^verbatim>\<open>fetchstr\<close> returns its status and the bytes that it stored into the buffer.\<close>

definition fetchstr :: "uint64 \<Rightarrow> nat \<Rightarrow> 'a pstate_scheme \<Rightarrow> int \<times> uchar list" where
  "fetchstr addr maxlen s =
    (let (err, bs) = copyinstr (p_pagetable (curproc s)) addr maxlen s in
     if err < 0 then (err, bs)
     else (int (length (takeWhile (\<lambda>c. c \<noteq> 0) bs)), bs))"

definition argraw :: "nat \<Rightarrow> 'a pstate_scheme \<Rightarrow> uint64 res" where
  "argraw n s = (if n \<le> 5 then Ok (get_tf (curproc s) (TF_a0 + 8 * of_nat n) s) else Panic ''argraw'')"

definition argint :: "nat \<Rightarrow> 'a pstate_scheme \<Rightarrow> int res" where
  "argint n s = bindr (argraw n s) (\<lambda>v. Ok (sint (ucast v :: uint)))"

definition argaddr :: "nat \<Rightarrow> 'a pstate_scheme \<Rightarrow> uint64 res" where
  "argaddr n s = argraw n s"

text \<open>The string without its zero byte, if there is one within \<open>maxlen\<close> bytes.\<close>

definition argstr :: "nat \<Rightarrow> nat \<Rightarrow> 'a pstate_scheme \<Rightarrow> uchar list option res" where
  "argstr n maxlen s =
    bindr (argaddr n s) (\<lambda>addr.
    let (r, bs) = fetchstr addr maxlen s in
    Ok (if r < 0 then None else Some (takeWhile (\<lambda>c. c \<noteq> 0) bs)))"

section \<open>Results of system calls\<close>

datatype swait = SFile fwait | SWait | STicks uint

datatype sysret = SRet uint64 | SSleep swait | SExited

definition sys_ret :: "int \<Rightarrow> sysret" where
  "sys_ret r = SRet (of_int r)"

text \<open>A wait inside a file operation puts the process to sleep.\<close>

definition sys_io :: "(fwait, int) io \<times> 'a kstate_scheme \<Rightarrow> (sysret \<times> 'a kstate_scheme) res" where
  "sys_io rs =
    (case rs of
       (Return r, s) \<Rightarrow> Ok (sys_ret r, s)
     | (Wait c l, s) \<Rightarrow> bindr (sleep c s) (\<lambda>s. Ok (SSleep (SFile l), s)))"

section \<open>Creating and ending processes\<close>

text \<open>\<^verbatim>\<open>safestrcpy\<close> into the field \<^verbatim>\<open>name[16]\<close>: at most 15 bytes, then a zero byte; the rest stays.\<close>

definition name_copy :: "uchar list \<Rightarrow> uchar list \<Rightarrow> uchar list" where
  "name_copy old src =
    (let t = take 15 (takeWhile (\<lambda>c. c \<noteq> 0) src) in t @ [0] @ drop (length t + 1) old)"

definition initcode :: "uchar list" where
  "initcode = [
    0x17, 0x05, 0x00, 0x00, 0x13, 0x05, 0x45, 0x02,
    0x97, 0x05, 0x00, 0x00, 0x93, 0x85, 0x35, 0x02,
    0x93, 0x08, 0x70, 0x00, 0x73, 0x00, 0x00, 0x00,
    0x93, 0x08, 0x20, 0x00, 0x73, 0x00, 0x00, 0x00,
    0xef, 0xf0, 0x9f, 0xff, 0x2f, 0x69, 0x6e, 0x69,
    0x74, 0x00, 0x00, 0x24, 0x00, 0x00, 0x00, 0x00,
    0x00, 0x00, 0x00, 0x00]"

text \<open>\<^verbatim>\<open>userinit\<close> uses the result of \<^verbatim>\<open>allocproc\<close> without a check; a null pointer there is undefined.\<close>

definition userinit :: "'a fstate_scheme \<Rightarrow> 'a fstate_scheme res" where
  "userinit s =
    bindr (allocproc s) (\<lambda>(r, s).
    case r of
      None \<Rightarrow> Diverge
    | Some i \<Rightarrow>
        let s = s\<lparr>initproc := i\<rparr> in
        bindr (uvminit (p_pagetable (procs s ! i)) initcode s) (\<lambda>s.
        let s = set_proc i (\<lambda>p. p\<lparr>p_sz := PGSIZE\<rparr>) s;
            s = set_tf (procs s ! i) TF_epc 0 s;
            s = set_tf (procs s ! i) TF_sp PGSIZE s;
            s = set_proc i (\<lambda>p. p\<lparr>p_name := name_copy (p_name p) (bytes ''initcode'')\<rparr>) s
        in
        bindr (namei (bytes ''/'') s) (\<lambda>(cwd, s).
        Ok (set_proc i (\<lambda>p. p\<lparr>p_cwd := cwd, p_state := RUNNABLE\<rparr>) s))))"

definition fork_file :: "nat \<Rightarrow> nat \<Rightarrow> nat \<Rightarrow> 'a kstate_scheme \<Rightarrow> 'a kstate_scheme res" where
  "fork_file p np i s =
    (case p_ofile (procs s ! p) ! i of
       None \<Rightarrow> Ok s
     | Some f \<Rightarrow> bindr (filedup f s) (\<lambda>s. Ok (set_proc np (\<lambda>x. x\<lparr>p_ofile := (p_ofile x)[i := Some f]\<rparr>) s)))"

definition fork :: "'a kstate_scheme \<Rightarrow> (int \<times> 'a kstate_scheme) res" where
  "fork s =
    (let p = cur s in
     bindr (allocproc s) (\<lambda>(r, s).
     case r of
       None \<Rightarrow> Ok (-1, s)
     | Some np \<Rightarrow>
         bindr (uvmcopy (p_pagetable (procs s ! p)) (p_pagetable (procs s ! np)) (p_sz (procs s ! p)) s) (\<lambda>(e, s).
         if e < 0 then bindr (freeproc np s) (\<lambda>s. Ok (-1, s))
         else
           let s = set_proc np (\<lambda>x. x\<lparr>p_sz := p_sz (procs s ! p), p_parent := Some p\<rparr>) s;
               s = s\<lparr>pmem := mwrite (pmem s) (p_trapframe (procs s ! np)) (mread (pmem s) (p_trapframe (procs s ! p)) TF_SIZE)\<rparr>;
               s = set_tf (procs s ! np) TF_a0 0 s
           in
           bindr (foreach (fork_file p np) [0..<NOFILE] s) (\<lambda>s.
           let cwd = the (p_cwd (procs s ! p));
               s = idup cwd s;
               s = set_proc np (\<lambda>x. x\<lparr>p_cwd := Some cwd, p_name := name_copy (p_name x) (p_name (procs s ! p))\<rparr>) s;
               pid = p_pid (procs s ! np);
               s = set_proc np (\<lambda>x. x\<lparr>p_state := RUNNABLE\<rparr>) s
           in Ok (sint pid, s)))))"

definition exit_file :: "nat \<Rightarrow> nat \<Rightarrow> 'a kstate_scheme \<Rightarrow> 'a kstate_scheme res" where
  "exit_file p fd s =
    (case p_ofile (procs s ! p) ! fd of
       None \<Rightarrow> Ok s
     | Some f \<Rightarrow> bindr (fileclose f s) (\<lambda>s. Ok (set_proc p (\<lambda>x. x\<lparr>p_ofile := (p_ofile x)[fd := None]\<rparr>) s)))"

definition exit :: "uint \<Rightarrow> 'a kstate_scheme \<Rightarrow> 'a kstate_scheme res" where
  "exit status s =
    (let p = cur s in
     if p = initproc s then Panic ''init exiting''
     else
       bindr (foreach (exit_file p) [0..<NOFILE] s) (\<lambda>s.
       bindr (begin_op s) (\<lambda>s.
       bindr (iput (the (p_cwd (procs s ! p))) s) (\<lambda>s.
       bindr (end_op s) (\<lambda>s.
       exit_zombie status (set_proc p (\<lambda>x. x\<lparr>p_cwd := None\<rparr>) s))))))"

section \<open>The system calls\<close>

definition sys_exit :: "'a kstate_scheme \<Rightarrow> (sysret \<times> 'a kstate_scheme) res" where
  "sys_exit s = bindr (argint 0 s) (\<lambda>n. bindr (exit (of_int n) s) (\<lambda>s. Ok (SExited, s)))"

definition sys_getpid :: "'a kstate_scheme \<Rightarrow> (sysret \<times> 'a kstate_scheme) res" where
  "sys_getpid s = Ok (sys_ret (sint (p_pid (curproc s))), s)"

definition sys_fork :: "'a kstate_scheme \<Rightarrow> (sysret \<times> 'a kstate_scheme) res" where
  "sys_fork s = bindr (fork s) (\<lambda>(r, s). Ok (sys_ret r, s))"

definition sys_wait :: "'a kstate_scheme \<Rightarrow> (sysret \<times> 'a kstate_scheme) res" where
  "sys_wait s =
    bindr (argaddr 0 s) (\<lambda>p.
    bindr (wait p s) (\<lambda>(r, s).
    Ok (case r of WaitReturn r \<Rightarrow> sys_ret r | WaitSleep \<Rightarrow> SSleep SWait, s)))"

text \<open>\<^verbatim>\<open>addr\<close> is an \<^verbatim>\<open>int\<close>, so the old size is cut to 32 bits and sign-extended.\<close>

definition sys_sbrk :: "'a kstate_scheme \<Rightarrow> (sysret \<times> 'a kstate_scheme) res" where
  "sys_sbrk s =
    bindr (argint 0 s) (\<lambda>n.
    let addr = sint (ucast (p_sz (curproc s)) :: uint) in
    bindr (growproc n s) (\<lambda>(r, s).
    Ok (if r < 0 then sys_ret (-1) else sys_ret addr, s)))"

text \<open>The loop of \<^verbatim>\<open>sys_sleep\<close>, entered first and after each wake-up; \<^verbatim>\<open>n\<close> is compared as an unsigned number.\<close>

definition sleep_loop :: "uint \<Rightarrow> int \<Rightarrow> 'a kstate_scheme \<Rightarrow> (sysret \<times> 'a kstate_scheme) res" where
  "sleep_loop ticks0 n s =
    (if ticks s - ticks0 < of_int n then
       if p_killed (curproc s) then Ok (sys_ret (-1), s)
       else bindr (sleep ChTicks s) (\<lambda>s. Ok (SSleep (STicks ticks0), s))
     else Ok (sys_ret 0, s))"

definition sys_sleep :: "'a kstate_scheme \<Rightarrow> (sysret \<times> 'a kstate_scheme) res" where
  "sys_sleep s = bindr (argint 0 s) (\<lambda>n. sleep_loop (ticks s) n s)"

definition sys_kill :: "'a kstate_scheme \<Rightarrow> (sysret \<times> 'a kstate_scheme) res" where
  "sys_kill s = bindr (argint 0 s) (\<lambda>pid. let (r, s) = kill (of_int pid) s in Ok (sys_ret r, s))"

definition sys_uptime :: "'a kstate_scheme \<Rightarrow> (sysret \<times> 'a kstate_scheme) res" where
  "sys_uptime s = Ok (SRet (ucast (ticks s)), s)"

end
