(* ===== verification/Exec.thy ===== *)
theory Exec
  imports Sysproc
begin

text \<open>
  Loading a program: \<^verbatim>\<open>kernel/exec.c\<close> and the file format of \<^verbatim>\<open>kernel/elf.h\<close>.

  The strings of \<^verbatim>\<open>argv\<close> are in kernel pages, named by their addresses; the list leaves out the
  null pointer at the end.  A jump to \<^verbatim>\<open>bad\<close> is the result \<open>None\<close> of the part it leaves.
\<close>

section \<open>The file format\<close>

record elfhdr =
  e_magic :: uint
  e_entry :: uint64
  e_phoff :: uint64
  e_phnum :: ushort

record proghdr =
  ph_type :: uint
  ph_off :: uint64
  ph_vaddr :: uint64
  ph_filesz :: uint64
  ph_memsz :: uint64

definition ELF_MAGIC :: uint where "ELF_MAGIC = 0x464C457F"
definition ELF_PROG_LOAD :: uint where "ELF_PROG_LOAD = 1"
definition MAXARG :: nat where "MAXARG = 32"

definition get64 :: "uchar list \<Rightarrow> nat \<Rightarrow> uint64" where
  "get64 d off = of_le (getb d off 8)"

definition get_elfhdr :: "uchar list \<Rightarrow> elfhdr" where
  "get_elfhdr d = \<lparr>e_magic = get32 d 0, e_entry = get64 d 24, e_phoff = get64 d 32, e_phnum = get16 d 56\<rparr>"

definition get_proghdr :: "uchar list \<Rightarrow> proghdr" where
  "get_proghdr d = \<lparr>ph_type = get32 d 0, ph_off = get64 d 8, ph_vaddr = get64 d 16, ph_filesz = get64 d 32, ph_memsz = get64 d 40\<rparr>"

section \<open>Loading segments\<close>

text \<open>
  The counter \<^verbatim>\<open>i\<close> of \<^verbatim>\<open>loadseg\<close> has 32 bits.  It could wrap only after \<^verbatim>\<open>readi\<close> had read
  4 GB of a file of at most \<^verbatim>\<open>MAXFILE * BSIZE\<close> bytes, so it is a natural number here.
\<close>

function loadseg_loop :: "uint64 \<Rightarrow> uint64 \<Rightarrow> nat \<Rightarrow> uint \<Rightarrow> nat \<Rightarrow> nat \<Rightarrow> 'a fstate_scheme \<Rightarrow> (int \<times> 'a fstate_scheme) res" where
  "loadseg_loop pagetable va ip offset sz i s =
    (if i < sz then
       let pa = walkaddr pagetable (va + of_nat i) s in
       if pa = 0 then Panic ''loadseg: address should exist''
       else
         let n = (if sz - i < 4096 then sz - i else 4096) in
         bindr (readi ip (KernDst pa) (offset + of_nat i) (of_nat n) s) (\<lambda>(r, bs, s).
         if r \<noteq> int n then Ok (-1, s)
         else loadseg_loop pagetable va ip offset sz (i + 4096) s)
     else Ok (0, s))"
  by pat_completeness auto

termination
  by (relation "measure (\<lambda>(pagetable, va, ip, offset, sz, i, s). sz - i)") auto

declare loadseg_loop.simps [simp del]

definition loadseg :: "uint64 \<Rightarrow> uint64 \<Rightarrow> nat \<Rightarrow> uint \<Rightarrow> uint \<Rightarrow> 'a fstate_scheme \<Rightarrow> (int \<times> 'a fstate_scheme) res" where
  "loadseg pagetable va ip offset sz s =
    (if va mod PGSIZE \<noteq> 0 then Panic ''loadseg: va must be page aligned''
     else loadseg_loop pagetable va ip offset (unat sz) 0 s)"

text \<open>
  The loop over \<open>k\<close> program headers.  The second component is \<^verbatim>\<open>sz\<close>, which \<^verbatim>\<open>bad\<close> needs as well;
  the flag says whether the loop went through.
\<close>

primrec exec_load :: "uint64 \<Rightarrow> nat \<Rightarrow> uint \<Rightarrow> uint64 \<Rightarrow> nat \<Rightarrow> 'a fstate_scheme \<Rightarrow> (bool \<times> uint64 \<times> 'a fstate_scheme) res" where
  "exec_load pagetable ip off sz 0 s = Ok (True, sz, s)"
| "exec_load pagetable ip off sz (Suc k) s =
    bindr (readi ip LocalDst off 56 s) (\<lambda>(r, bs, s).
    let ph = get_proghdr bs in
    if r \<noteq> 56 then Ok (False, sz, s)
    else if ph_type ph \<noteq> ELF_PROG_LOAD then exec_load pagetable ip (off + 56) sz k s
    else if ph_memsz ph < ph_filesz ph then Ok (False, sz, s)
    else if ph_vaddr ph + ph_memsz ph < ph_vaddr ph then Ok (False, sz, s)
    else
      bindr (uvmalloc pagetable sz (ph_vaddr ph + ph_memsz ph) s) (\<lambda>(sz1, s).
      if sz1 = 0 then Ok (False, sz, s)
      else if ph_vaddr ph mod PGSIZE \<noteq> 0 then Ok (False, sz1, s)
      else
        bindr (loadseg pagetable (ph_vaddr ph) ip (ucast (ph_off ph)) (ucast (ph_filesz ph)) s) (\<lambda>(r, s).
        if r < 0 then Ok (False, sz1, s)
        else exec_load pagetable ip (off + 56) sz1 k s)))"

section \<open>The stack\<close>

text \<open>The argument strings, and then the array of pointers to them.  \<open>ustack\<close> is filled from the front.\<close>

definition align16 :: "uint64 \<Rightarrow> uint64" where
  "align16 sp = sp - sp mod 16"

primrec push_args :: "uint64 \<Rightarrow> uint64 \<Rightarrow> uint64 list \<Rightarrow> uint64 \<Rightarrow> uint64 list \<Rightarrow> 'a mach_scheme \<Rightarrow> ((uint64 \<times> uint64 list) option \<times> 'a mach_scheme) res" where
  "push_args pagetable stackbase [] sp ustack s = Ok (Some (sp, ustack), s)"
| "push_args pagetable stackbase (a # argv) sp ustack s =
    (if length ustack \<ge> MAXARG then Ok (None, s)
     else
       case strlen (pmem s) a of
         None \<Rightarrow> Diverge
       | Some n \<Rightarrow>
           let sp = align16 (sp - (of_nat n + 1)) in
           if sp < stackbase then Ok (None, s)
           else
             let (r, s) = copyout pagetable sp (mread (pmem s) a (n + 1)) s in
             if r < 0 then Ok (None, s)
             else push_args pagetable stackbase argv sp (ustack @ [sp]) s)"

definition push_ustack :: "uint64 \<Rightarrow> uint64 \<Rightarrow> uint64 \<Rightarrow> uint64 list \<Rightarrow> 'a mach_scheme \<Rightarrow> uint64 option \<times> 'a mach_scheme" where
  "push_ustack pagetable stackbase sp ustack s =
    (let argc = length ustack;
         sp = align16 (sp - (of_nat argc + 1) * 8)
     in
     if sp < stackbase then (None, s)
     else
       let (r, s) = copyout pagetable sp (concat (map (le_bytes 8) (ustack @ [0]))) s in
       if r < 0 then (None, s) else (Some sp, s))"

text \<open>From the allocation of the stack on: the new size and either the final stack pointer and \<^verbatim>\<open>argc\<close> or \<open>None\<close>.\<close>

definition exec_stack :: "uint64 \<Rightarrow> uint64 \<Rightarrow> uint64 list \<Rightarrow> 'a mach_scheme \<Rightarrow> (uint64 \<times> (uint64 \<times> nat) option \<times> 'a mach_scheme) res" where
  "exec_stack pagetable sz argv s =
    (let sz = PGROUNDUP sz in
     bindr (uvmalloc pagetable sz (sz + 2 * PGSIZE) s) (\<lambda>(sz1, s).
     if sz1 = 0 then Ok (sz, None, s)
     else
       let sz = sz1 in
       bindr (uvmclear pagetable (sz - 2 * PGSIZE) s) (\<lambda>s.
       let sp = sz; stackbase = sp - PGSIZE in
       bindr (push_args pagetable stackbase argv sp [] s) (\<lambda>(r, s).
       case r of
         None \<Rightarrow> Ok (sz, None, s)
       | Some (sp, ustack) \<Rightarrow>
           case push_ustack pagetable stackbase sp ustack s of
             (None, s) \<Rightarrow> Ok (sz, None, s)
           | (Some sp, s) \<Rightarrow> Ok (sz, Some (sp, length ustack), s)))))"

section \<open>exec\<close>

definition exec_bad :: "uint64 \<Rightarrow> uint64 \<Rightarrow> nat option \<Rightarrow> 'a fstate_scheme \<Rightarrow> (int \<times> 'a fstate_scheme) res" where
  "exec_bad pagetable sz ip s =
    bindr (if pagetable \<noteq> 0 then proc_freepagetable pagetable sz s else Ok s) (\<lambda>s.
    case ip of
      None \<Rightarrow> Ok (-1, s)
    | Some ip \<Rightarrow> bindr (iunlockput ip s) (\<lambda>s. bindr (end_op s) (\<lambda>s. Ok (-1, s))))"

definition last_elem :: "uchar list \<Rightarrow> uchar list" where
  "last_elem path = rev (takeWhile (\<lambda>c. c \<noteq> 47) (rev path))"

definition exec_commit :: "uchar list \<Rightarrow> uint64 \<Rightarrow> uint64 \<Rightarrow> uint64 \<Rightarrow> uint64 \<Rightarrow> 'a fstate_scheme \<Rightarrow> 'a fstate_scheme res" where
  "exec_commit path pagetable sz sp entry s =
    (let p = cur s;
         oldsz = p_sz (curproc s);
         s = set_tf (curproc s) TF_a1 sp s;
         s = set_proc p (\<lambda>x. x\<lparr>p_name := name_copy (p_name x) (last_elem path)\<rparr>) s;
         oldpagetable = p_pagetable (curproc s);
         s = set_proc p (\<lambda>x. x\<lparr>p_pagetable := pagetable, p_sz := sz\<rparr>) s;
         s = set_tf (curproc s) TF_epc entry s;
         s = set_tf (curproc s) TF_sp sp s
     in proc_freepagetable oldpagetable oldsz s)"

definition exec :: "uchar list \<Rightarrow> uint64 list \<Rightarrow> 'a fstate_scheme \<Rightarrow> (int \<times> 'a fstate_scheme) res" where
  "exec path argv s =
    bindr (begin_op s) (\<lambda>s.
    bindr (namei path s) (\<lambda>(r, s).
    case r of
      None \<Rightarrow> bindr (end_op s) (\<lambda>s. Ok (-1, s))
    | Some ip \<Rightarrow>
        bindr (ilock ip s) (\<lambda>s.
        bindr (readi ip LocalDst 0 64 s) (\<lambda>(r, bs, s).
        let elf = get_elfhdr bs in
        if r \<noteq> 64 then exec_bad 0 0 (Some ip) s
        else if e_magic elf \<noteq> ELF_MAGIC then exec_bad 0 0 (Some ip) s
        else
          bindr (proc_pagetable (cur s) s) (\<lambda>(pagetable, s).
          if pagetable = 0 then exec_bad 0 0 (Some ip) s
          else
            bindr (exec_load pagetable ip (ucast (e_phoff elf)) 0 (unat (e_phnum elf)) s) (\<lambda>(ok, sz, s).
            if \<not> ok then exec_bad pagetable sz (Some ip) s
            else
              bindr (iunlockput ip s) (\<lambda>s.
              bindr (end_op s) (\<lambda>s.
              bindr (exec_stack pagetable sz argv s) (\<lambda>(sz, r, s).
              case r of
                None \<Rightarrow> exec_bad pagetable sz None s
              | Some (sp, argc) \<Rightarrow>
                  bindr (exec_commit path pagetable sz sp (e_entry elf) s) (\<lambda>s. Ok (int argc, s)))))))))))"

end
