(* ===== verification/Sysfile.thy ===== *)
theory Sysfile
  imports Exec
begin

text \<open>
  System calls about files: \<^verbatim>\<open>kernel/sysfile.c\<close>, and the dispatch of system calls, the last part of
  \<^verbatim>\<open>kernel/syscall.c\<close>.
\<close>

section \<open>File descriptors\<close>

definition MAXPATH :: nat where "MAXPATH = 128"
definition O_RDONLY :: uint where "O_RDONLY = 0x000"
definition O_WRONLY :: uint where "O_WRONLY = 0x001"
definition O_RDWR :: uint where "O_RDWR = 0x002"
definition O_CREATE :: uint where "O_CREATE = 0x200"
definition O_TRUNC :: uint where "O_TRUNC = 0x400"

definition argfd :: "nat \<Rightarrow> 'a kstate_scheme \<Rightarrow> (nat \<times> nat) option res" where
  "argfd n s =
    bindr (argint n s) (\<lambda>fd.
    Ok (if fd < 0 \<or> fd \<ge> int NOFILE then None
        else map_option (\<lambda>f. (nat fd, f)) (p_ofile (curproc s) ! nat fd)))"

fun find_fd :: "nat option list \<Rightarrow> nat \<Rightarrow> nat option" where
  "find_fd [] fd = None"
| "find_fd (f # fs) fd = (if f = None then Some fd else find_fd fs (Suc fd))"

definition set_ofile :: "nat \<Rightarrow> nat option \<Rightarrow> 'a pstate_scheme \<Rightarrow> 'a pstate_scheme" where
  "set_ofile fd f s = set_proc (cur s) (\<lambda>p. p\<lparr>p_ofile := (p_ofile p)[fd := f]\<rparr>) s"

definition fdalloc :: "nat \<Rightarrow> 'a pstate_scheme \<Rightarrow> nat option \<times> 'a pstate_scheme" where
  "fdalloc f s =
    (case find_fd (p_ofile (curproc s)) 0 of
       None \<Rightarrow> (None, s)
     | Some fd \<Rightarrow> (Some fd, set_ofile fd (Some f) s))"

definition sys_dup :: "'a kstate_scheme \<Rightarrow> (sysret \<times> 'a kstate_scheme) res" where
  "sys_dup s =
    bindr (argfd 0 s) (\<lambda>r.
    case r of
      None \<Rightarrow> Ok (sys_ret (-1), s)
    | Some (_, f) \<Rightarrow>
        case fdalloc f s of
          (None, s) \<Rightarrow> Ok (sys_ret (-1), s)
        | (Some fd, s) \<Rightarrow> bindr (filedup f s) (\<lambda>s. Ok (sys_ret (int fd), s)))"

definition sys_read :: "'a kstate_scheme \<Rightarrow> (sysret \<times> 'a kstate_scheme) res" where
  "sys_read s =
    bindr (argfd 0 s) (\<lambda>r.
    case r of
      None \<Rightarrow> Ok (sys_ret (-1), s)
    | Some (_, f) \<Rightarrow> bindr (argint 2 s) (\<lambda>n. bindr (argaddr 1 s) (\<lambda>p. bindr (fileread f p n s) sys_io)))"

definition sys_write :: "'a kstate_scheme \<Rightarrow> (sysret \<times> 'a kstate_scheme) res" where
  "sys_write s =
    bindr (argfd 0 s) (\<lambda>r.
    case r of
      None \<Rightarrow> Ok (sys_ret (-1), s)
    | Some (_, f) \<Rightarrow> bindr (argint 2 s) (\<lambda>n. bindr (argaddr 1 s) (\<lambda>p. bindr (filewrite f p n s) sys_io)))"

definition sys_close :: "'a kstate_scheme \<Rightarrow> (sysret \<times> 'a kstate_scheme) res" where
  "sys_close s =
    bindr (argfd 0 s) (\<lambda>r.
    case r of
      None \<Rightarrow> Ok (sys_ret (-1), s)
    | Some (fd, f) \<Rightarrow> bindr (fileclose f (set_ofile fd None s)) (\<lambda>s. Ok (sys_ret 0, s)))"

definition sys_fstat :: "'a kstate_scheme \<Rightarrow> (sysret \<times> 'a kstate_scheme) res" where
  "sys_fstat s =
    bindr (argfd 0 s) (\<lambda>r.
    case r of
      None \<Rightarrow> Ok (sys_ret (-1), s)
    | Some (_, f) \<Rightarrow> bindr (argaddr 1 s) (\<lambda>st. bindr (filestat f st s) (\<lambda>(r, s). Ok (sys_ret r, s))))"

section \<open>Links and directories\<close>

text \<open>\<^verbatim>\<open>end_op(); return r;\<close>\<close>

definition finish :: "int \<Rightarrow> 'a kstate_scheme \<Rightarrow> (sysret \<times> 'a kstate_scheme) res" where
  "finish r s = bindr (end_op s) (\<lambda>s. Ok (sys_ret r, s))"

definition link_bad :: "nat \<Rightarrow> 'a kstate_scheme \<Rightarrow> (sysret \<times> 'a kstate_scheme) res" where
  "link_bad ip s =
    bindr (ilock ip s) (\<lambda>s.
    bindr (iupdate ip (set_inode ip (\<lambda>x. x\<lparr>i_nlink := i_nlink x - 1\<rparr>) s)) (\<lambda>s.
    bindr (iunlockput ip s) (finish (-1))))"

definition do_link :: "uchar list \<Rightarrow> uchar list \<Rightarrow> 'a kstate_scheme \<Rightarrow> (sysret \<times> 'a kstate_scheme) res" where
  "do_link old new s =
    bindr (begin_op s) (\<lambda>s.
    bindr (namei old s) (\<lambda>(r, s).
    case r of
      None \<Rightarrow> finish (-1) s
    | Some ip \<Rightarrow>
        bindr (ilock ip s) (\<lambda>s.
        if i_type (icache s ! ip) = T_DIR then bindr (iunlockput ip s) (finish (-1))
        else
          bindr (iupdate ip (set_inode ip (\<lambda>x. x\<lparr>i_nlink := i_nlink x + 1\<rparr>) s)) (\<lambda>s.
          bindr (iunlock ip s) (\<lambda>s.
          bindr (nameiparent new s) (\<lambda>(r, name, s).
          case r of
            None \<Rightarrow> link_bad ip s
          | Some dp \<Rightarrow>
              bindr (ilock dp s) (\<lambda>s.
              bindr (if i_dev (icache s ! dp) \<noteq> i_dev (icache s ! ip) then Ok (-1, s)
                     else dirlink dp name (i_inum (icache s ! ip)) s) (\<lambda>(e, s).
              if e < 0 then bindr (iunlockput dp s) (link_bad ip)
              else
                bindr (iunlockput dp s) (\<lambda>s.
                bindr (iput ip s) (finish 0))))))))))"

definition sys_link :: "'a kstate_scheme \<Rightarrow> (sysret \<times> 'a kstate_scheme) res" where
  "sys_link s =
    bindr (argstr 0 MAXPATH s) (\<lambda>old.
    case old of
      None \<Rightarrow> Ok (sys_ret (-1), s)
    | Some old \<Rightarrow>
        bindr (argstr 1 MAXPATH s) (\<lambda>new.
        case new of
          None \<Rightarrow> Ok (sys_ret (-1), s)
        | Some new \<Rightarrow> do_link old new s))"

primrec isdirempty_loop :: "nat \<Rightarrow> nat list \<Rightarrow> 'a fstate_scheme \<Rightarrow> (bool \<times> 'a fstate_scheme) res" where
  "isdirempty_loop dp [] s = Ok (True, s)"
| "isdirempty_loop dp (off # offs) s =
    bindr (readi dp LocalDst (of_nat off) 16 s) (\<lambda>(r, de, s).
    if r \<noteq> 16 then Panic ''isdirempty: readi''
    else if de_inum de \<noteq> 0 then Ok (False, s)
    else isdirempty_loop dp offs s)"

definition isdirempty :: "nat \<Rightarrow> 'a fstate_scheme \<Rightarrow> (bool \<times> 'a fstate_scheme) res" where
  "isdirempty dp s = isdirempty_loop dp (filter (\<lambda>off. 32 \<le> off) (dir_offs (i_size (icache s ! dp)))) s"

definition unlink_bad :: "nat \<Rightarrow> 'a kstate_scheme \<Rightarrow> (sysret \<times> 'a kstate_scheme) res" where
  "unlink_bad dp s = bindr (iunlockput dp s) (finish (-1))"

definition do_unlink :: "uchar list \<Rightarrow> 'a kstate_scheme \<Rightarrow> (sysret \<times> 'a kstate_scheme) res" where
  "do_unlink path s =
    bindr (begin_op s) (\<lambda>s.
    bindr (nameiparent path s) (\<lambda>(r, name, s).
    case r of
      None \<Rightarrow> finish (-1) s
    | Some dp \<Rightarrow>
        bindr (ilock dp s) (\<lambda>s.
        if namecmp name (bytes ''.'') = 0 \<or> namecmp name (bytes ''..'') = 0 then unlink_bad dp s
        else
          bindr (dirlookup dp name s) (\<lambda>(r, s).
          case r of
            None \<Rightarrow> unlink_bad dp s
          | Some (ip, off) \<Rightarrow>
              bindr (ilock ip s) (\<lambda>s.
              if sint (i_nlink (icache s ! ip)) < 1 then Panic ''unlink: nlink < 1''
              else
                bindr (if i_type (icache s ! ip) = T_DIR then isdirempty ip s else Ok (True, s)) (\<lambda>(empty, s).
                if \<not> empty then bindr (iunlockput ip s) (unlink_bad dp)
                else
                  bindr (writei dp (LocalSrc (replicate 16 0)) off 16 s) (\<lambda>(w, s).
                  if w \<noteq> 16 then Panic ''unlink: writei''
                  else
                    bindr (if i_type (icache s ! ip) = T_DIR
                      then iupdate dp (set_inode dp (\<lambda>x. x\<lparr>i_nlink := i_nlink x - 1\<rparr>) s) else Ok s) (\<lambda>s.
                    bindr (iunlockput dp s) (\<lambda>s.
                    bindr (iupdate ip (set_inode ip (\<lambda>x. x\<lparr>i_nlink := i_nlink x - 1\<rparr>) s)) (\<lambda>s.
                    bindr (iunlockput ip s) (finish 0)))))))))))"

definition sys_unlink :: "'a kstate_scheme \<Rightarrow> (sysret \<times> 'a kstate_scheme) res" where
  "sys_unlink s =
    bindr (argstr 0 MAXPATH s) (\<lambda>path.
    case path of None \<Rightarrow> Ok (sys_ret (-1), s) | Some path \<Rightarrow> do_unlink path s)"

definition create_new :: "nat \<Rightarrow> uchar list \<Rightarrow> ushort \<Rightarrow> ushort \<Rightarrow> ushort \<Rightarrow> 'a fstate_scheme \<Rightarrow> (nat option \<times> 'a fstate_scheme) res" where
  "create_new dp name type major minor s =
    bindr (ialloc (i_dev (icache s ! dp)) type s) (\<lambda>(ip, s).
    bindr (ilock ip s) (\<lambda>s.
    bindr (iupdate ip (set_inode ip (\<lambda>x. x\<lparr>i_major := major, i_minor := minor, i_nlink := 1\<rparr>) s)) (\<lambda>s.
    bindr (if type = T_DIR then
             bindr (iupdate dp (set_inode dp (\<lambda>x. x\<lparr>i_nlink := i_nlink x + 1\<rparr>) s)) (\<lambda>s.
             bindr (dirlink ip (bytes ''.'') (i_inum (icache s ! ip)) s) (\<lambda>(e, s).
             if e < 0 then Panic ''create dots''
             else
               bindr (dirlink ip (bytes ''..'') (i_inum (icache s ! dp)) s) (\<lambda>(e, s).
               if e < 0 then Panic ''create dots'' else Ok s)))
           else Ok s) (\<lambda>s.
    bindr (dirlink dp name (i_inum (icache s ! ip)) s) (\<lambda>(e, s).
    if e < 0 then Panic ''create: dirlink''
    else bindr (iunlockput dp s) (\<lambda>s. Ok (Some ip, s)))))))"

definition create :: "uchar list \<Rightarrow> ushort \<Rightarrow> ushort \<Rightarrow> ushort \<Rightarrow> 'a fstate_scheme \<Rightarrow> (nat option \<times> 'a fstate_scheme) res" where
  "create path type major minor s =
    bindr (nameiparent path s) (\<lambda>(r, name, s).
    case r of
      None \<Rightarrow> Ok (None, s)
    | Some dp \<Rightarrow>
        bindr (ilock dp s) (\<lambda>s.
        bindr (dirlookup dp name s) (\<lambda>(r, s).
        case r of
          Some (ip, _) \<Rightarrow>
            bindr (iunlockput dp s) (\<lambda>s.
            bindr (ilock ip s) (\<lambda>s.
            if type = T_FILE \<and> (i_type (icache s ! ip) = T_FILE \<or> i_type (icache s ! ip) = T_DEVICE) then Ok (Some ip, s)
            else bindr (iunlockput ip s) (\<lambda>s. Ok (None, s))))
        | None \<Rightarrow> create_new dp name type major minor s)))"

section \<open>open\<close>

definition open_file :: "nat \<Rightarrow> uint \<Rightarrow> 'a kstate_scheme \<Rightarrow> (sysret \<times> 'a kstate_scheme) res" where
  "open_file ip omode s =
    (if i_type (icache s ! ip) = T_DEVICE \<and> (sint (i_major (icache s ! ip)) < 0 \<or> sint (i_major (icache s ! ip)) \<ge> NDEV)
     then bindr (iunlockput ip s) (finish (-1))
     else
       case filealloc s of
         (None, s) \<Rightarrow> bindr (iunlockput ip s) (finish (-1))
       | (Some f, s) \<Rightarrow>
           case fdalloc f s of
             (None, s) \<Rightarrow> bindr (fileclose f s) (\<lambda>s. bindr (iunlockput ip s) (finish (-1)))
           | (Some fd, s) \<Rightarrow>
               let s = (if i_type (icache s ! ip) = T_DEVICE
                        then set_file f (\<lambda>x. x\<lparr>f_type := FD_DEVICE, f_major := i_major (icache s ! ip)\<rparr>) s
                        else set_file f (\<lambda>x. x\<lparr>f_type := FD_INODE, f_off := 0\<rparr>) s);
                   s = set_file f (\<lambda>x. x\<lparr>f_ip := ip, f_readable := (omode AND O_WRONLY = 0),
                         f_writable := (omode AND O_WRONLY \<noteq> 0 \<or> omode AND O_RDWR \<noteq> 0)\<rparr>) s
               in
               bindr (if omode AND O_TRUNC \<noteq> 0 \<and> i_type (icache s ! ip) = T_FILE then itrunc ip s else Ok s) (\<lambda>s.
               bindr (iunlock ip s) (finish (int fd))))"

definition do_open :: "uchar list \<Rightarrow> uint \<Rightarrow> 'a kstate_scheme \<Rightarrow> (sysret \<times> 'a kstate_scheme) res" where
  "do_open path omode s =
    bindr (begin_op s) (\<lambda>s.
    if omode AND O_CREATE \<noteq> 0 then
      bindr (create path T_FILE 0 0 s) (\<lambda>(r, s).
      case r of None \<Rightarrow> finish (-1) s | Some ip \<Rightarrow> open_file ip omode s)
    else
      bindr (namei path s) (\<lambda>(r, s).
      case r of
        None \<Rightarrow> finish (-1) s
      | Some ip \<Rightarrow>
          bindr (ilock ip s) (\<lambda>s.
          if i_type (icache s ! ip) = T_DIR \<and> omode \<noteq> O_RDONLY then bindr (iunlockput ip s) (finish (-1))
          else open_file ip omode s)))"

definition sys_open :: "'a kstate_scheme \<Rightarrow> (sysret \<times> 'a kstate_scheme) res" where
  "sys_open s =
    bindr (argstr 0 MAXPATH s) (\<lambda>path.
    case path of
      None \<Rightarrow> Ok (sys_ret (-1), s)
    | Some path \<Rightarrow> bindr (argint 1 s) (\<lambda>omode. do_open path (of_int omode) s))"

definition create_put :: "uchar list \<Rightarrow> ushort \<Rightarrow> ushort \<Rightarrow> ushort \<Rightarrow> 'a kstate_scheme \<Rightarrow> (sysret \<times> 'a kstate_scheme) res" where
  "create_put path type major minor s =
    bindr (create path type major minor s) (\<lambda>(r, s).
    case r of None \<Rightarrow> finish (-1) s | Some ip \<Rightarrow> bindr (iunlockput ip s) (finish 0))"

definition sys_mkdir :: "'a kstate_scheme \<Rightarrow> (sysret \<times> 'a kstate_scheme) res" where
  "sys_mkdir s =
    bindr (begin_op s) (\<lambda>s.
    bindr (argstr 0 MAXPATH s) (\<lambda>path.
    case path of None \<Rightarrow> finish (-1) s | Some path \<Rightarrow> create_put path T_DIR 0 0 s))"

definition sys_mknod :: "'a kstate_scheme \<Rightarrow> (sysret \<times> 'a kstate_scheme) res" where
  "sys_mknod s =
    bindr (begin_op s) (\<lambda>s.
    bindr (argstr 0 MAXPATH s) (\<lambda>path.
    case path of
      None \<Rightarrow> finish (-1) s
    | Some path \<Rightarrow>
        bindr (argint 1 s) (\<lambda>major.
        bindr (argint 2 s) (\<lambda>minor.
        create_put path T_DEVICE (of_int major) (of_int minor) s))))"

definition sys_chdir :: "'a kstate_scheme \<Rightarrow> (sysret \<times> 'a kstate_scheme) res" where
  "sys_chdir s =
    bindr (begin_op s) (\<lambda>s.
    bindr (argstr 0 MAXPATH s) (\<lambda>path.
    case path of
      None \<Rightarrow> finish (-1) s
    | Some path \<Rightarrow>
        bindr (namei path s) (\<lambda>(r, s).
        case r of
          None \<Rightarrow> finish (-1) s
        | Some ip \<Rightarrow>
            bindr (ilock ip s) (\<lambda>s.
            if i_type (icache s ! ip) \<noteq> T_DIR then bindr (iunlockput ip s) (finish (-1))
            else
              bindr (iunlock ip s) (\<lambda>s.
              bindr (iput (the (p_cwd (curproc s))) s) (\<lambda>s.
              bindr (end_op s) (\<lambda>s.
              Ok (sys_ret 0, set_proc (cur s) (\<lambda>p. p\<lparr>p_cwd := Some ip\<rparr>) s))))))))"

section \<open>exec and pipe\<close>

text \<open>
  The loop of \<^verbatim>\<open>sys_exec\<close> that copies the argument strings into kernel pages: the flag says
  whether it went through, the list holds the pages allocated so far.
\<close>

function exec_argv :: "uint64 \<Rightarrow> uint64 list \<Rightarrow> 'a pstate_scheme \<Rightarrow> bool \<times> uint64 list \<times> 'a pstate_scheme" where
  "exec_argv uargv argv s =
    (if length argv \<ge> MAXARG then (False, argv, s)
     else
       case fetchaddr (uargv + 8 * of_nat (length argv)) s of
         None \<Rightarrow> (False, argv, s)
       | Some uarg \<Rightarrow>
           if uarg = 0 then (True, argv, s)
           else
             let (a, s) = kalloc s in
             if a = 0 then (False, argv, s)
             else
               let (r, bs) = fetchstr uarg 4096 s;
                   s = s\<lparr>pmem := mwrite (pmem s) a bs\<rparr>
               in
               if r < 0 then (False, argv @ [a], s)
               else exec_argv uargv (argv @ [a]) s)"
  by pat_completeness auto

termination
  by (relation "measure (\<lambda>(uargv, argv, s). MAXARG - length argv)") auto

declare exec_argv.simps [simp del]

definition sys_exec :: "'a kstate_scheme \<Rightarrow> (sysret \<times> 'a kstate_scheme) res" where
  "sys_exec s =
    bindr (argstr 0 MAXPATH s) (\<lambda>path.
    case path of
      None \<Rightarrow> Ok (sys_ret (-1), s)
    | Some path \<Rightarrow>
        bindr (argaddr 1 s) (\<lambda>uargv.
        case exec_argv uargv [] s of
          (ok, argv, s) \<Rightarrow>
            bindr (if ok then exec path argv s else Ok (-1, s)) (\<lambda>(ret, s).
            bindr (foreach kfree argv s) (\<lambda>s. Ok (sys_ret ret, s)))))"

definition sys_pipe :: "'a kstate_scheme \<Rightarrow> (sysret \<times> 'a kstate_scheme) res" where
  "sys_pipe s =
    bindr (argaddr 0 s) (\<lambda>fdarray.
    bindr (pipealloc s) (\<lambda>(r, s).
    case r of
      None \<Rightarrow> Ok (sys_ret (-1), s)
    | Some (rfile, wfile) \<Rightarrow>
        let fail = (\<lambda>s. bindr (fileclose rfile s) (\<lambda>s. bindr (fileclose wfile s) (\<lambda>s. Ok (sys_ret (-1), s)))) in
        case fdalloc rfile s of
          (None, s) \<Rightarrow> fail s
        | (Some fd0, s) \<Rightarrow>
            case fdalloc wfile s of
              (None, s) \<Rightarrow> fail (set_ofile fd0 None s)
            | (Some fd1, s) \<Rightarrow>
                let (e0, s) = copyout (p_pagetable (curproc s)) fdarray (le_bytes 4 (of_nat fd0 :: uint)) s;
                    (e1, s) = (if e0 < 0 then (e0, s)
                               else copyout (p_pagetable (curproc s)) (fdarray + 4) (le_bytes 4 (of_nat fd1 :: uint)) s)
                in
                if e1 < 0 then fail (set_ofile fd1 None (set_ofile fd0 None s))
                else Ok (sys_ret 0, s)))"

definition sys_connect :: "'a kstate_scheme \<Rightarrow> (sysret \<times> 'a kstate_scheme) res" where
  "sys_connect s =
    bindr (argint 0 s) (\<lambda>raddr.
    bindr (argint 1 s) (\<lambda>lport.
    bindr (argint 2 s) (\<lambda>rport.
    bindr (sockalloc (of_int raddr) (of_int lport) (of_int rport) s) (\<lambda>(r, s).
    case r of
      None \<Rightarrow> Ok (sys_ret (-1), s)
    | Some f \<Rightarrow>
        case fdalloc f s of
          (None, s) \<Rightarrow> bindr (fileclose f s) (\<lambda>s. Ok (sys_ret (-1), s))
        | (Some fd, s) \<Rightarrow> Ok (sys_ret (int fd), s)))))"

section \<open>Dispatch\<close>

definition syscalls :: "int \<Rightarrow> ('a kstate_scheme \<Rightarrow> (sysret \<times> 'a kstate_scheme) res) option" where
  "syscalls num =
    (if num = 1 then Some sys_fork else if num = 2 then Some sys_exit else if num = 3 then Some sys_wait
     else if num = 4 then Some sys_pipe else if num = 5 then Some sys_read else if num = 6 then Some sys_kill
     else if num = 7 then Some sys_exec else if num = 8 then Some sys_fstat else if num = 9 then Some sys_chdir
     else if num = 10 then Some sys_dup else if num = 11 then Some sys_getpid else if num = 12 then Some sys_sbrk
     else if num = 13 then Some sys_sleep else if num = 14 then Some sys_uptime else if num = 15 then Some sys_open
     else if num = 16 then Some sys_write else if num = 17 then Some sys_mknod else if num = 18 then Some sys_unlink
     else if num = 19 then Some sys_link else if num = 20 then Some sys_mkdir else if num = 21 then Some sys_close
     else if num = 29 then Some sys_connect else None)"

text \<open>Only a call that returns stores into register \<^verbatim>\<open>a0\<close>.\<close>

definition syscall :: "'a kstate_scheme \<Rightarrow> (sysret \<times> 'a kstate_scheme) res" where
  "syscall s =
    (let num = sint (ucast (get_tf (curproc s) TF_a7 s) :: uint) in
     case syscalls num of
       Some f \<Rightarrow>
         bindr (f s) (\<lambda>(r, s).
         case r of
           SRet v \<Rightarrow> Ok (r, set_tf (curproc s) TF_a0 v s)
         | _ \<Rightarrow> Ok (r, s))
     | None \<Rightarrow>
         let p = curproc s in
         bindr (printf (Some (bytes ''%d %s: unknown sys call %d'' @ [10]))
                  [VInt (p_pid p), VStr (Some (takeWhile (\<lambda>c. c \<noteq> 0) (p_name p))), VInt (of_int num)] s) (\<lambda>s.
         Ok (SRet (-1), set_tf (curproc s) TF_a0 (-1) s)))"

end
