(* ===== verification/Frames.thy ===== *)
theory Frames
  imports Ring
begin

text \<open>
  What the routines of the lower levels leave alone.  The user copy routines depend on memory only,
  and they and the allocator change nothing above it.
\<close>

section \<open>Translation depends on memory only\<close>

lemma walk_level_pmem:
  "pmem s = pmem t \<Longrightarrow> fst (walk_level l pt va False s) = fst (walk_level l pt va False t)"
  by (induction l arbitrary: pt) (simp_all add: Let_def)

lemma walkaddr_pmem: "pmem s = pmem t \<Longrightarrow> walkaddr pt va s = walkaddr pt va t"
  using walk_level_pmem [of s t 2 pt va] by (simp add: walkaddr_def Let_def)

lemma copyin_pmem: "pmem s = pmem t \<Longrightarrow> copyin pt a n s = copyin pt a n t"
proof (induction pt a n s rule: copyin.induct)
  case (1 pt a n s)
  have w: "walkaddr pt v s = walkaddr pt v t" for v by (rule walkaddr_pmem [OF "1.prems"])
  show ?case
  proof (cases "0 < n \<and> walkaddr pt (PGROUNDDOWN a) s \<noteq> 0")
    case True
    then show ?thesis
      using "1.IH" [OF _ refl refl _ refl refl "1.prems"] "1.prems" by (subst (1 2) copyin.simps) (simp add: w Let_def)
  next
    case False
    then show ?thesis by (subst (1 2) copyin.simps) (auto simp: w Let_def)
  qed
qed

section \<open>Memory routines change memory only\<close>

lemma mach_same:
  "mach.more s' = mach.more s \<Longrightarrow> kend s' = kend s \<Longrightarrow> s' = s\<lparr>pmem := pmem s', freelist := freelist s'\<rparr>"
  by (cases s; cases s') simp

lemma copyout_freelist: "copyout pt a src s = (r, s') \<Longrightarrow> freelist s' = freelist s"
proof (induction pt a src s arbitrary: r s' rule: copyout.induct)
  case (1 pt a src s)
  show ?case
  proof (cases "0 < length src \<and> walkaddr pt (PGROUNDDOWN a) s \<noteq> 0")
    case True
    have "copyout pt a src s = copyout pt (PGROUNDDOWN a + PGSIZE) (drop (min (4096 - unat (a - PGROUNDDOWN a)) (length src)) src)
        (s\<lparr>pmem := mwrite (pmem s) (walkaddr pt (PGROUNDDOWN a) s + (a - PGROUNDDOWN a))
             (take (min (4096 - unat (a - PGROUNDDOWN a)) (length src)) src)\<rparr>)"
      using True by (subst copyout.simps) (simp add: Let_def)
    then show ?thesis using "1.IH" [OF _ refl refl _ refl refl, of r s'] True "1.prems" by simp
  next
    case False
    then show ?thesis using "1.prems" by (subst (asm) copyout.simps) (auto simp: Let_def split: if_splits)
  qed
qed

lemma copyout_frame: "copyout pt a src s = (r, s') \<Longrightarrow> s' = s\<lparr>pmem := pmem s'\<rparr>"
  using copyout_more [of pt a src s r s'] copyout_freelist [of pt a src s r s'] by (cases s; cases s') simp

lemma kfree_frame: "kfree p s = Ok s' \<Longrightarrow> s' = s\<lparr>pmem := pmem s', freelist := freelist s'\<rparr>"
  using kfree_more [of p s s'] mach_same by blast

lemma kalloc_frame: "kalloc s = (p, s') \<Longrightarrow> s' = s\<lparr>pmem := pmem s', freelist := freelist s'\<rparr>"
  by (auto simp: kalloc_def Let_def split: if_splits)

section \<open>What other processes do meanwhile\<close>

text \<open>
  Steps of the process level that put nobody to sleep on a channel of \<open>C\<close>: wake-ups, kills, context
  switches, sleeping elsewhere, and attention moving to another CPU.
\<close>

inductive kernel_step :: "chan set \<Rightarrow> 'a pstate_scheme \<Rightarrow> 'a pstate_scheme \<Rightarrow> bool" for C where
  wake: "kernel_step C s (wakeup d s)"
| kill: "kill pid s = (r, s') \<Longrightarrow> kernel_step C s s'"
| yield: "yield s = Ok s' \<Longrightarrow> kernel_step C s s'"
| schedule: "scheduler_slot i s = (b, s') \<Longrightarrow> kernel_step C s s'"
| other_sleep: "d \<notin> C \<Longrightarrow> sleep d s = Ok s' \<Longrightarrow> kernel_step C s s'"
| return: "kernel_step C s (sleep_return s)"
| hart: "kernel_step C s (s\<lparr>hart := h\<rparr>)"

lemma kernel_step_no_sleeper:
  assumes "kernel_step C s s'" "c \<in> C" "no_sleeper c s"
  shows "no_sleeper c s'"
  using assms
proof (cases rule: kernel_step.cases)
  case (kill pid r)
  with assms(3) show ?thesis
    by (auto simp: kill_def split: option.splits intro!: no_sleeper_set_proc dest: no_sleeper_nth)
next
  case yield
  with assms(3) show ?thesis by (auto simp: yield_def intro!: sched_no_sleeper [of _ s'] no_sleeper_set_proc)
next
  case (schedule i b)
  with assms(3) show ?thesis by (auto simp: scheduler_slot_def split: if_splits intro!: no_sleeper_set_proc)
next
  case (other_sleep d)
  with assms(2,3) show ?thesis by (auto simp: sleep_def intro!: sched_no_sleeper [of _ s'] no_sleeper_set_proc)
next
  case return
  with assms(3) show ?thesis by (auto simp: sleep_return_def intro!: no_sleeper_set_proc)
qed (auto simp: no_sleeper_wakeup_other)

definition proc_change :: "'a pstate_scheme \<Rightarrow> 'a pstate_scheme \<Rightarrow> bool" where
  "proc_change s s' \<longleftrightarrow> (\<exists>ps cs h. s' = s\<lparr>procs := ps, cpus := cs, hart := h\<rparr>)"

lemma proc_changeI:
  "proc_change s (s\<lparr>procs := ps\<rparr>)" "proc_change s (s\<lparr>hart := h\<rparr>)" "proc_change s s"
  "proc_change s t \<Longrightarrow> proc_change s (t\<lparr>procs := ps\<rparr>)" "proc_change s t \<Longrightarrow> proc_change s (t\<lparr>cpus := cs\<rparr>)"
proof -
  show "proc_change s (s\<lparr>procs := ps\<rparr>)"
    unfolding proc_change_def by (intro exI [of _ ps] exI [of _ "cpus s"] exI [of _ "pstate.hart s"]) simp
  show "proc_change s (s\<lparr>hart := h\<rparr>)"
    unfolding proc_change_def by (intro exI [of _ "procs s"] exI [of _ "cpus s"] exI [of _ h]) simp
  show "proc_change s s"
    unfolding proc_change_def by (intro exI [of _ "procs s"] exI [of _ "cpus s"] exI [of _ "pstate.hart s"]) simp
  show "proc_change s (t\<lparr>procs := ps\<rparr>)" if t: "proc_change s t"
  proof -
    obtain qs ds h where "t = s\<lparr>procs := qs, cpus := ds, hart := h\<rparr>" using t by (auto simp: proc_change_def)
    then have "t\<lparr>procs := ps\<rparr> = s\<lparr>procs := ps, cpus := ds, hart := h\<rparr>" by (intro pstate.equality) simp_all
    then show ?thesis unfolding proc_change_def by blast
  qed
  show "proc_change s (t\<lparr>cpus := cs\<rparr>)" if t: "proc_change s t"
  proof -
    obtain qs ds h where "t = s\<lparr>procs := qs, cpus := ds, hart := h\<rparr>" using t by (auto simp: proc_change_def)
    then have "t\<lparr>cpus := cs\<rparr> = s\<lparr>procs := qs, cpus := cs, hart := h\<rparr>" by (intro pstate.equality) simp_all
    then show ?thesis unfolding proc_change_def by blast
  qed
qed

lemma sleep_change: "sleep c s = Ok s' \<Longrightarrow> proc_change s s'"
  by (auto simp: sleep_def sched_def set_proc_def split: if_splits intro!: proc_changeI)

lemma kernel_step_change: "kernel_step C s s' \<Longrightarrow> proc_change s s'"
  by (induction rule: kernel_step.induct)
    (auto simp: wakeup_def kill_def set_proc_def yield_def sched_def scheduler_slot_def sleep_return_def
      split: option.splits if_splits intro!: proc_changeI dest: sleep_change)

end
