(* ===== verification/Userio.thy ===== *)
theory Userio
  imports Frames
begin

text \<open>
  Single bytes to and from user memory, as the pipe and console drivers move them.
\<close>

definition cur_byte :: "uint64 \<Rightarrow> 'a pstate_scheme \<Rightarrow> uchar option" where
  "cur_byte a s = ubyte (p_pagetable (curproc s)) a s"

lemma ubyte_pmem: "pmem s = pmem t \<Longrightarrow> ubyte r a s = ubyte r a t"
  using walkaddr_pmem [of s t] by (simp add: ubyte_def Let_def)

lemma copyin_byte:
  "copyin r a (Suc 0) s = (case ubyte r a s of None \<Rightarrow> (-1, []) | Some b \<Rightarrow> (0, [b]))"
proof -
  obtain ret bs where c: "copyin r a (Suc 0) s = (ret, bs)" "ubytes r a s bs"
    "ret = 0 \<and> length bs = Suc 0 \<or> ret = -1 \<and> length bs < Suc 0 \<and> ubyte r (a + of_nat (length bs)) s = None"
    using copyin_reads [of r a "Suc 0" s] by blast
  then show ?thesis by (auto simp: ubytes_def length_Suc_conv)
qed

lemma vm_ok_mach:
  "pmem s = pmem t \<Longrightarrow> freelist s = freelist t \<Longrightarrow> kend s = kend t \<Longrightarrow> vm_ok R G s ps \<longleftrightarrow> vm_ok R G t ps"
  by (simp add: vm_ok_def free_pages_def)

lemma stored_pmem:
  "pmem s = pmem t \<Longrightarrow> pmem s' = pmem t' \<Longrightarrow> stored R G r a src n s s' \<longleftrightarrow> stored R G r a src n t t'"
  using ubyte_pmem [of s t] ubyte_pmem [of s' t'] by (simp add: stored_def)

lemma copyout_byte:
  assumes "vm_ok R G s ps" "is_root G r" "r \<in> R"
  obtains "ubyte r x s = None" "copyout r x [c] s = (-1, s)"
  | m where "copyout r x [c] s = (0, s\<lparr>pmem := m\<rparr>)" "vm_ok R G (s\<lparr>pmem := m\<rparr>) ps" "stored R G r x [c] 1 s (s\<lparr>pmem := m\<rparr>)"
    "unat x + 1 \<le> unat MAXVA" "\<And>r' va. is_root G r' \<Longrightarrow> walkaddr r' va (s\<lparr>pmem := m\<rparr>) = walkaddr r' va s"
proof (cases "walkaddr r (PGROUNDDOWN x) s = 0")
  case True
  moreover have "copyout r x [c] s = (-1, s)" using True by (subst copyout.simps) simp
  ultimately show thesis using that(1) by (simp add: ubyte_def)
next
  case False
  obtain ret s' n where c: "copyout r x [c] s = (ret, s')" "copyout_post R G ps r x [c] s ret s' n"
    using copyout_stored [OF assms] by blast
  have "ubyte r x s \<noteq> None" using False by (simp add: ubyte_def)
  then have "n = 1" "ret = 0" using c(2) by (auto simp: copyout_post_def less_Suc_eq)
  moreover have "s' = s\<lparr>pmem := pmem s'\<rparr>" using copyout_frame [OF c(1)] .
  ultimately show thesis using that(2) [of "pmem s'"] c by (simp add: copyout_post_def)
qed

lemma ubyte_mapped:
  "(\<And>va. walkaddr r va s' = walkaddr r va s) \<Longrightarrow> ubyte r x s' = None \<longleftrightarrow> ubyte r x s = None"
  by (simp add: ubyte_def Let_def)

lemma unat_Suc_MAXVA: "unat (x :: uint64) + 1 \<le> unat MAXVA \<Longrightarrow> unat (x + 1) = unat x + 1"
  by (simp add: MAXVA_unat unat_word_ariths)

lemma stored_Cons:
  assumes "stored R G r x [c] 1 s s1" "stored R G r (x + 1) bs (length bs) s1 s2"
    and "unat x + 1 \<le> unat MAXVA" "bs = [] \<or> unat (x + 1) + length bs \<le> unat MAXVA"
  shows "stored R G r x (c # bs) (Suc (length bs)) s s2" "unat x + Suc (length bs) \<le> unat MAXVA"
proof -
  note u = unat_Suc_MAXVA [OF assms(3)]
  show "unat x + Suc (length bs) \<le> unat MAXVA" using assms(3,4) u by auto
  then show "stored R G r x (c # bs) (Suc (length bs)) s s2"
    using stored_append [of R G r x 1 "c # bs" s s1 "x + 1" "length bs" s2] assms(1,2) u by (simp add: MAXVA_unat)
qed

lemma ubytes_copyin:
  assumes "ubytes r a s bs"
  shows "copyin r a (length bs) s = (0, bs)"
proof -
  obtain ret cs where c: "copyin r a (length bs) s = (ret, cs)" "ubytes r a s cs"
    "ret = 0 \<and> length cs = length bs \<or> ret = -1 \<and> length cs < length bs \<and> ubyte r (a + of_nat (length cs)) s = None"
    using copyin_reads [of r a "length bs" s] by blast
  have "ret = 0" "length cs = length bs" using c(3) assms by (auto simp: ubytes_def)
  moreover from this have "cs = bs" using c(2) assms by (intro nth_equalityI) (auto simp: ubytes_def)
  ultimately show ?thesis using c(1) by simp
qed

lemma stored_ubytes:
  assumes "stored R G r a bs (length bs) s s'" "is_root G r" "r \<in> R" "bs = [] \<or> unat a + length bs \<le> unat MAXVA"
  shows "ubytes r a s' bs"
  unfolding ubytes_def
proof (intro allI impI)
  fix i assume i: "i < length bs"
  then have "unat (a + of_nat i - a) = i" using assms(4) by (auto simp: MAXVA_unat)
  with i assms(1-3) show "ubyte r (a + of_nat i) s' = Some (bs ! i)" by (simp add: stored_def)
qed

end
