(* ===== verification/Bootstate.thy ===== *)
theory Bootstate
  imports File Userio
begin

text \<open>
  A machine after boot, with one running process that has one page of user memory at address 0.  The
  examples that apply the properties start from it.
\<close>

definition zero_inode :: inode where
  "zero_inode = \<lparr>i_dev = 0, i_inum = 0, i_ref = 0, i_lock = initsleeplock, i_valid = False, i_type = 0, i_major = 0,
     i_minor = 0, i_nlink = 0, i_size = 0, i_addrs = replicate 13 0\<rparr>"

definition boot_fs :: fstate where
  "boot_fs = lstate.extend (boot_log zero_disk)
     \<lparr>sb = \<lparr>sb_magic = FSMAGIC, sb_size = 1000, sb_nblocks = 954, sb_ninodes = 200, sb_nlog = 30, sb_logstart = 2,
        sb_inodestart = 32, sb_bmapstart = 45\<rparr>, icache = replicate NINODE zero_inode\<rparr>"

definition boot_dev :: dstate where
  "boot_dev = fstate.extend boot_fs
     \<lparr>cons_buf = replicate INPUT_BUF 0, cons_r = 0, cons_w = 0, cons_e = 0, uart_tx_buf = replicate UART_TX_BUF_SIZE 0,
      uart_tx_w = 0, uart_tx_r = 0, uart_lsr = [], uart_in = [], uart_out = [], panicked = False\<rparr>"

definition boot_net :: nstate where
  "boot_net = dstate.extend boot_dev
     \<lparr>mbufs = Map.empty, socks = Map.empty, sockets = 0,
      tx_ring = replicate 16 \<lparr>tx_addr = 0, tx_length = 0, tx_cso = 0, tx_cmd = 0, tx_status = 1, tx_css = 0, tx_special = 0\<rparr>,
      tx_mbufs = replicate 16 0,
      rx_ring = replicate 16 \<lparr>rx_addr = 0, rx_length = 0, rx_csum = 0, rx_status = 0, rx_errors = 0, rx_special = 0\<rparr>,
      rx_mbufs = replicate 16 0, e1000_regs = (\<lambda>_. 0)\<rparr>"

definition zero_file :: kfile where
  "zero_file = \<lparr>f_type = FD_NONE, f_ref = 0, f_readable = False, f_writable = False, f_pipe = 0, f_ip = 0, f_sock = 0,
     f_off = 0, f_major = 0\<rparr>"

definition boot_kernel :: kstate where
  "boot_kernel = nstate.extend
     (boot_net\<lparr>pmem := pmem user_vm, procs := (fresh_proc\<lparr>p_state := RUNNING, p_pid := 1, p_pagetable := 0x80002000\<rparr>) #
        replicate 63 fresh_proc\<rparr>)
     \<lparr>ftable = replicate NFILE zero_file, pipes = Map.empty, ticks = 0, stat_pad = replicate 4 0\<rparr>"

lemmas boot_defs = boot_kernel_def nstate.defs boot_net_def dstate.defs boot_dev_def fstate.defs boot_fs_def lstate.defs
  boot_log_def bstate.defs boot_bufs_def pstate.defs one_proc_def

lemma boot_kernel_sel [simp]:
  "pmem boot_kernel = pmem user_vm" "freelist boot_kernel = 0" "kend boot_kernel = 0x80001000" "pipes boot_kernel = Map.empty"
  "cur boot_kernel = 0" "ftable boot_kernel = replicate NFILE zero_file"
  "procs boot_kernel = (fresh_proc\<lparr>p_state := RUNNING, p_pid := 1, p_pagetable := 0x80002000\<rparr>) # replicate 63 fresh_proc"
  by (simp_all add: boot_defs binit_def Let_def cur_def myproc_def)

lemma boot_curproc [simp]: "curproc boot_kernel = fresh_proc\<lparr>p_state := RUNNING, p_pid := 1, p_pagetable := 0x80002000\<rparr>"
  by (simp add: curproc_def)

lemma boot_no_sleeper [simp]: "no_sleeper c boot_kernel"
  by (simp add: no_sleeper_def fresh_proc_def list_all_iff)

lemma boot_vm: "vm_ok {0x80002000} user_owners boot_kernel []"
  using user_vm_ok by (simp add: vm_ok_def free_pages_def user_vm_def)

lemma boot_byte: "x < 4096 \<Longrightarrow> cur_byte x boot_kernel \<noteq> None"
  using user_vm_mapped [of x] ubyte_pmem [of boot_kernel user_vm] by (simp add: cur_byte_def)

end
