(* ===== verification/Pipe.thy ===== *)
theory Pipe
  imports Bootstate
begin

text \<open>
  Pipes as bounded queues: \<^verbatim>\<open>pipewrite\<close> and \<^verbatim>\<open>piperead\<close> of \<^verbatim>\<open>kernel/pipe.c\<close> move bytes
  through the ring in order, and nobody sleeps on a pipe that they could use.
\<close>

section \<open>The ring of a pipe is a queue\<close>

definition pipe_ok :: "pipe \<Rightarrow> bool" where
  "pipe_ok p \<longleftrightarrow> ring_ok PIPESIZE (pi_data p) (pi_nread p) (pi_nwrite p)"

definition pipe_contents :: "pipe \<Rightarrow> uchar list" where
  "pipe_contents p = ring_contents (pi_data p) (pi_nread p) (pi_nwrite p)"

lemma ring_size_PIPESIZE: "ring_size TYPE(32) PIPESIZE"
  by (simp add: ring_size_def PIPESIZE_def)

lemma pipe_empty_iff: "pi_nread p = pi_nwrite p \<longleftrightarrow> pipe_contents p = []"
  by (auto simp: pipe_contents_def ring_contents_def unat_eq_0)

lemma pipe_full_iff:
  "pipe_ok p \<Longrightarrow> pi_nwrite p = pi_nread p + of_nat PIPESIZE \<longleftrightarrow> length (pipe_contents p) = PIPESIZE"
  unfolding pipe_ok_def by (subst ring_full_iff [OF ring_size_PIPESIZE]) (simp_all add: pipe_contents_def)

interpretation pq: fifo pipe_ok pipe_contents PIPESIZE pipe_put pipe_get
proof
  fix p x
  assume ok: "pipe_ok p" "length (pipe_contents p) < PIPESIZE"
  then show "pipe_ok (pipe_put x p) \<and> pipe_contents (pipe_put x p) = pipe_contents p @ [x]"
    using ring_put [OF ring_size_PIPESIZE, of "pi_data p" "pi_nread p" "pi_nwrite p" x]
    by (simp add: pipe_ok_def pipe_contents_def pipe_put_def)
next
  fix p
  assume "pipe_ok p" "pipe_contents p \<noteq> []"
  then show "pipe_ok (snd (pipe_get p)) \<and> pipe_contents p = fst (pipe_get p) # pipe_contents (snd (pipe_get p))"
    using ring_get [of PIPESIZE "pi_data p" "pi_nread p" "pi_nwrite p"] pipe_empty_iff [of p]
    by (simp add: pipe_ok_def pipe_contents_def pipe_get_def)
next
  fix p
  assume "pipe_ok p"
  then show "length (pipe_contents p) \<le> PIPESIZE" by (simp add: pipe_ok_def pipe_contents_def ring_ok_def)
qed

section \<open>Writing\<close>

lemma pipe_put_flags [simp]:
  "pi_readopen (pipe_put c p) = pi_readopen p" "pi_writeopen (pipe_put c p) = pi_writeopen p"
  "pi_readopen (snd (pipe_get p)) = pi_readopen p" "pi_writeopen (snd (pipe_get p)) = pi_writeopen p"
  by (simp_all add: pipe_put_def pipe_get_def)

lemma set_pipe_simps [simp]:
  "pipes (set_pipe a p s) = (pipes s)(a \<mapsto> p)" "procs (set_pipe a p s) = procs s" "curproc (set_pipe a p s) = curproc s"
  "pmem (set_pipe a p s) = pmem s" "set_pipe a q (set_pipe a p s) = set_pipe a q s" "cur (set_pipe a p s) = cur s"
  "freelist (set_pipe a p s) = freelist s" "kend (set_pipe a p s) = kend s"
  by (simp_all add: set_pipe_def curproc_def cur_def myproc_def)

lemma get_pipe_Ok: "get_pipe a s = Ok p \<longleftrightarrow> pipes s a = Some p"
  by (simp add: get_pipe_def split: option.splits)

lemma set_pipe_same: "pipes s a = Some p \<Longrightarrow> set_pipe a p s = s"
  by (simp add: set_pipe_def map_upd_triv)

text \<open>
  Where a run of \<^verbatim>\<open>pipewrite\<close> over \<open>k\<close> bytes ends after it has moved \<open>bs\<close>: at the end, asleep at a full
  pipe, or at a byte that cannot be read.
\<close>

definition write_stop :: "uint64 \<Rightarrow> uint64 \<Rightarrow> nat \<Rightarrow> nat \<Rightarrow> uchar list \<Rightarrow> pipe \<Rightarrow> 'a pstate_scheme \<Rightarrow> (nat, int) io \<Rightarrow> bool" where
  "write_stop a addr i k bs p' s r \<longleftrightarrow>
    (length bs = k \<and> r = Return (int (i + k))) \<or>
    (length bs < k \<and> length (pipe_contents p') = PIPESIZE \<and> r = Wait (ChPipeWrite a) (i + length bs)) \<or>
    (length bs < k \<and> cur_byte (addr + of_nat (i + length bs)) s = None \<and> r = Return (int (i + length bs)))"

lemma pipewrite_loop_run:
  assumes "pipe_ok p" "pi_readopen p" "\<not> p_killed (curproc s)"
  shows "\<exists>bs p' r. pipewrite_loop a addr i k (set_pipe a p s) = Ok (r, wakeup (ChPipeRead a) (set_pipe a p' s)) \<and>
    pipe_ok p' \<and> pipe_contents p' = pipe_contents p @ bs \<and> pi_readopen p' = pi_readopen p \<and> pi_writeopen p' = pi_writeopen p \<and>
    map (\<lambda>x. cur_byte (addr + of_nat x) s) [i..<i + length bs] = map Some bs \<and> write_stop a addr i k bs p' s r"
  using assms(1,2)
proof (induction k arbitrary: i p)
  case 0
  then show ?case by (intro exI [of _ "[]"] exI [of _ p]) (simp add: write_stop_def)
next
  case (Suc k)
  let ?pt = "p_pagetable (curproc s)" and ?x = "addr + of_nat i"
  have c: "copyin ?pt ?x (Suc 0) (set_pipe a p s) = (case cur_byte ?x s of None \<Rightarrow> (-1, []) | Some b \<Rightarrow> (0, [b]))"
    using copyin_pmem [of "set_pipe a p s" s ?pt ?x "Suc 0"] by (simp add: copyin_byte cur_byte_def)
  show ?case
  proof (cases "length (pipe_contents p) = PIPESIZE \<or> cur_byte ?x s = None")
    case True
    then show ?thesis using Suc.prems assms(3)
      by (intro exI [of _ "[]"] exI [of _ p]) (auto simp: get_pipe_def pipe_full_iff write_stop_def c)
  next
    case False
    then obtain b where b: "cur_byte ?x s = Some b" by blast
    have room: "length (pipe_contents p) < PIPESIZE" using False pq.bounded [OF Suc.prems(1)] by simp
    note put = pq.put_ok [OF Suc.prems(1) room, of b]
    have step: "pipewrite_loop a addr i (Suc k) (set_pipe a p s) =
        pipewrite_loop a addr (Suc i) k (set_pipe a (pipe_put (b) p) s)"
      using False Suc.prems assms(3) b by (simp add: get_pipe_def pipe_full_iff c)
    obtain bs' p' r where IH: "pipewrite_loop a addr (Suc i) k (set_pipe a (pipe_put (b) p) s) =
          Ok (r, wakeup (ChPipeRead a) (set_pipe a p' s))"
        "pipe_ok p'" "pipe_contents p' = pipe_contents (pipe_put (b) p) @ bs'" "pi_readopen p' = pi_readopen p"
        "pi_writeopen p' = pi_writeopen p" "map (\<lambda>x. cur_byte (addr + of_nat x) s) [Suc i..<Suc i + length bs'] = map Some bs'"
        "write_stop a addr (Suc i) k bs' p' s r"
      using Suc.IH [of "pipe_put (b) p" "Suc i"] put Suc.prems by auto
    show ?thesis using IH put step b
      by (intro exI [of _ "b # bs'"] exI [of _ p'] exI [of _ r]) (auto simp: write_stop_def upt_conv_Cons simp del: upt_Suc)
  qed
qed

section \<open>Reading\<close>

text \<open>
  A run of the copy loop of \<^verbatim>\<open>piperead\<close> takes \<open>bs\<close> out of the pipe and stores it in user memory.  It stops at
  the end, at an empty pipe, or at an address that cannot be written; the byte meant for that address
  has left the pipe and is gone.
\<close>

definition read_stop :: "uint64 \<Rightarrow> nat \<Rightarrow> uchar list \<Rightarrow> uchar list \<Rightarrow> pipe \<Rightarrow> 'a pstate_scheme \<Rightarrow> bool" where
  "read_stop x k bs lost p' s \<longleftrightarrow>
    (length bs = k \<and> lost = []) \<or> (length bs < k \<and> lost = [] \<and> pipe_contents p' = []) \<or>
    (length bs < k \<and> length lost = 1 \<and> cur_byte (x + of_nat (length bs)) s = None)"

lemma piperead_loop_run:
  assumes "pipe_ok p" "vm_ok R G s ps" "is_root G (p_pagetable (curproc s))" "p_pagetable (curproc s) \<in> R"
  shows "\<exists>bs lost p' m. piperead_loop a addr i k (set_pipe a p s) = Ok (int (i + length bs), set_pipe a p' (s\<lparr>pmem := m\<rparr>)) \<and>
    pipe_ok p' \<and> pipe_contents p = bs @ lost @ pipe_contents p' \<and> pi_readopen p' = pi_readopen p \<and> pi_writeopen p' = pi_writeopen p \<and>
    vm_ok R G (s\<lparr>pmem := m\<rparr>) ps \<and> stored R G (p_pagetable (curproc s)) (addr + of_nat i) bs (length bs) s (s\<lparr>pmem := m\<rparr>) \<and>
    (bs = [] \<or> unat (addr + of_nat i) + length bs \<le> unat MAXVA) \<and> read_stop (addr + of_nat i) k bs lost p' s"
  using assms
proof (induction k arbitrary: i p s)
  case 0
  then show ?case by (intro exI [of _ "[]"] exI [of _ p] exI [of _ "pmem s"]) (simp add: read_stop_def stored_def)
next
  case (Suc k)
  let ?pt = "p_pagetable (curproc s)" and ?x = "addr + of_nat i"
  show ?case
  proof (cases "pipe_contents p = []")
    case True
    then show ?thesis using Suc.prems
      by (intro exI [of _ "[]"] exI [of _ p] exI [of _ "pmem s"]) (simp add: get_pipe_def pipe_empty_iff read_stop_def stored_def)
  next
    case False
    obtain c q where g: "pipe_get p = (c, q)" by fastforce
    have q: "pipe_ok q" "pipe_contents p = c # pipe_contents q" using pq.get_ok [OF Suc.prems(1) False] g by auto
    have fl: "pi_readopen q = pi_readopen p" "pi_writeopen q = pi_writeopen p" using pipe_put_flags(3,4) [of p] g by simp_all
    have step: "piperead_loop a addr i (Suc k) (set_pipe a p s) =
        (let (r, t) = copyout ?pt ?x [c] (set_pipe a q s) in if r = -1 then Ok (int i, t) else piperead_loop a addr (Suc i) k t)"
      using False g by (simp add: get_pipe_def pipe_empty_iff)
    have vq: "vm_ok R G (set_pipe a q s) ps" using Suc.prems(2) vm_ok_mach [of "set_pipe a q s" s R G ps] by simp
    show ?thesis
    proof (rule copyout_byte [OF vq Suc.prems(3,4), of ?x c])
      assume none: "ubyte ?pt ?x (set_pipe a q s) = None" and e: "copyout ?pt ?x [c] (set_pipe a q s) = (-1, set_pipe a q s)"
      show ?thesis using step e q fl Suc.prems(2) none ubyte_pmem [of "set_pipe a q s" s]
        by (intro exI [of _ "[]"] exI [of _ "[c]"] exI [of _ q] exI [of _ "pmem s"]) (simp add: read_stop_def stored_def cur_byte_def)
    next
      fix m
      let ?t = "s\<lparr>pmem := m\<rparr>"
      have t: "(set_pipe a q s)\<lparr>pmem := m\<rparr> = set_pipe a q ?t" by (simp add: set_pipe_def)
      assume m: "copyout ?pt ?x [c] (set_pipe a q s) = (0, (set_pipe a q s)\<lparr>pmem := m\<rparr>)"
        "vm_ok R G ((set_pipe a q s)\<lparr>pmem := m\<rparr>) ps" "stored R G ?pt ?x [c] 1 (set_pipe a q s) ((set_pipe a q s)\<lparr>pmem := m\<rparr>)"
        "unat ?x + 1 \<le> unat MAXVA"
        "\<And>r' va. is_root G r' \<Longrightarrow> walkaddr r' va ((set_pipe a q s)\<lparr>pmem := m\<rparr>) = walkaddr r' va (set_pipe a q s)"
      have vt: "vm_ok R G ?t ps" using m(2) vm_ok_mach [of "(set_pipe a q s)\<lparr>pmem := m\<rparr>" ?t R G ps] by simp
      have st: "stored R G ?pt ?x [c] 1 s ?t" using m(3) stored_pmem [of "set_pipe a q s" s "(set_pipe a q s)\<lparr>pmem := m\<rparr>" ?t] by simp
      have mapped: "cur_byte y ?t = None \<longleftrightarrow> cur_byte y s = None" for y
        using ubyte_mapped [of ?pt "(set_pipe a q s)\<lparr>pmem := m\<rparr>" "set_pipe a q s" y] m(5) [OF Suc.prems(3)]
          ubyte_pmem [of "(set_pipe a q s)\<lparr>pmem := m\<rparr>" ?t] ubyte_pmem [of "set_pipe a q s" s]
        by (simp add: cur_byte_def curproc_def cur_def myproc_def)
      have pt: "curproc ?t = curproc s" by (simp add: curproc_def cur_def myproc_def)
      obtain bs lost p' m' where IH: "piperead_loop a addr (Suc i) k (set_pipe a q ?t) = Ok (int (Suc i + length bs), set_pipe a p' (?t\<lparr>pmem := m'\<rparr>))"
          "pipe_ok p'" "pipe_contents q = bs @ lost @ pipe_contents p'" "pi_readopen p' = pi_readopen q" "pi_writeopen p' = pi_writeopen q"
          "vm_ok R G (?t\<lparr>pmem := m'\<rparr>) ps" "stored R G ?pt (addr + of_nat (Suc i)) bs (length bs) ?t (?t\<lparr>pmem := m'\<rparr>)"
          "bs = [] \<or> unat (addr + of_nat (Suc i)) + length bs \<le> unat MAXVA" "read_stop (addr + of_nat (Suc i)) k bs lost p' ?t"
        using Suc.IH [OF q(1) vt, of "Suc i"] Suc.prems(3,4) unfolding pt by blast
      have x1: "addr + of_nat (Suc i) = ?x + 1" by simp
      note sc = stored_Cons [OF st IH(7) [unfolded x1] m(4) IH(8) [unfolded x1]]
      have "read_stop ?x (Suc k) (c # bs) lost p' s" using IH(9) mapped unfolding read_stop_def x1 by (auto simp: algebra_simps)
      then show ?thesis using step m(1) IH q fl sc t
        by (intro exI [of _ "c # bs"] exI [of _ lost] exI [of _ p'] exI [of _ m']) simp
    qed
  qed
qed

section \<open>Any number of readers and writers\<close>

text \<open>
  Steps of the system around the pipe \<open>a\<close>.  A process runs \<^verbatim>\<open>pipewrite\<close> or \<^verbatim>\<open>piperead\<close>, from the
  start or after a wake-up, and goes to sleep if the routine says so; an end of the pipe is closed; or the
  kernel does something else to the processes.  The two histories collect the bytes that writers had at the
  addresses they wrote from, and the bytes that readers find at the addresses they read to.  Readers have
  mapped their buffers.
\<close>

definition io_end :: "('l, 'r) io \<Rightarrow> 'a pstate_scheme \<Rightarrow> 'a pstate_scheme \<Rightarrow> bool" where
  "io_end r s s' = (case r of Return _ \<Rightarrow> s' = s | Wait c _ \<Rightarrow> sleep c s = Ok s')"

definition wrote :: "nat \<Rightarrow> (nat, int) io \<Rightarrow> nat" where
  "wrote i r = (case r of Return k \<Rightarrow> nat k - i | Wait _ j \<Rightarrow> j - i)"

definition got :: "(unit, int) io \<Rightarrow> nat" where
  "got r = (case r of Return k \<Rightarrow> nat k | Wait _ _ \<Rightarrow> 0)"

inductive pipe_step :: "uint64 set \<Rightarrow> owners \<Rightarrow> uint64 \<Rightarrow>
    'a kstate_scheme \<times> uchar list \<times> uchar list \<Rightarrow> 'a kstate_scheme \<times> uchar list \<times> uchar list \<Rightarrow> bool" for R G a where
  pwrite: "pipewrite_resume a addr n i s = Ok (r, s1) \<Longrightarrow> io_end r s1 s' \<Longrightarrow>
    bs = map (\<lambda>x. the (cur_byte (addr + of_nat x) s)) [i..<i + wrote i r] \<Longrightarrow> pipe_step R G a (s, W, D) (s', W @ bs, D)"
| pread: "piperead a addr n s = Ok (r, s1) \<Longrightarrow> io_end r s1 s' \<Longrightarrow> is_root G (p_pagetable (curproc s)) \<Longrightarrow>
    p_pagetable (curproc s) \<in> R \<Longrightarrow> (\<And>x. x < nat n \<Longrightarrow> cur_byte (addr + of_nat x) s \<noteq> None) \<Longrightarrow>
    bs = snd (copyin (p_pagetable (curproc s)) addr (got r) s1) \<Longrightarrow> pipe_step R G a (s, W, D) (s', W, D @ bs)"
| pclose: "pipeclose a w s = Ok s' \<Longrightarrow> pipes s' a \<noteq> None \<Longrightarrow> pipe_step R G a (s, W, D) (s', W, D)"
| pother: "kernel_step {ChPipeRead a, ChPipeWrite a} s s' \<Longrightarrow> pipe_step R G a (s, W, D) (s', W, D)"

definition pipe_waits :: "uint64 \<Rightarrow> pipe \<Rightarrow> 'a pstate_scheme \<Rightarrow> bool" where
  "pipe_waits a p s \<longleftrightarrow>
    (no_sleeper (ChPipeRead a) s \<or> pipe_contents p = [] \<and> pi_writeopen p) \<and>
    (no_sleeper (ChPipeWrite a) s \<or> length (pipe_contents p) = PIPESIZE \<and> pi_readopen p)"

definition pipe_inv :: "uint64 set \<Rightarrow> owners \<Rightarrow> uint64 list \<Rightarrow> uint64 \<Rightarrow> 'a kstate_scheme \<times> uchar list \<times> uchar list \<Rightarrow> bool" where
  "pipe_inv R G ps a x = (case x of (s, W, D) \<Rightarrow>
    \<exists>p. pipes s a = Some p \<and> pipe_ok p \<and> W = D @ pipe_contents p \<and> vm_ok R G s ps \<and> pipe_waits a p s)"

lemma proc_change_kstate:
  fixes s :: "'a kstate_scheme"
  assumes "proc_change s s'"
  shows "pipes s' = pipes s" "pmem s' = pmem s" "freelist s' = freelist s" "kend s' = kend s"
  using assms by (auto simp: proc_change_def)

lemma io_end_change: "io_end r s s' \<Longrightarrow> proc_change s s'"
  by (auto simp: io_end_def proc_changeI dest: sleep_change split: io.splits)

lemma io_end_no_sleeper:
  "io_end r s s' \<Longrightarrow> no_sleeper d s \<Longrightarrow> (\<And>c l. r = Wait c l \<Longrightarrow> c \<noteq> d) \<Longrightarrow> no_sleeper d s'"
  by (auto simp: io_end_def split: io.splits intro: kernel_step_no_sleeper [OF kernel_step.other_sleep, of _ "{d}"])

lemma no_sleeper_set_pipe [simp]: "no_sleeper c (set_pipe a p s) = no_sleeper c s"
  by (simp add: no_sleeper_def)

lemma no_sleeper_pmem [simp]: "no_sleeper c (s\<lparr>pmem := m\<rparr>) = no_sleeper c s"
  by (simp add: no_sleeper_def)

lemma wakeup_keeps [simp]:
  "pipes (wakeup c s) = pipes s" "pmem (wakeup c s) = pmem s" "freelist (wakeup c s) = freelist s" "kend (wakeup c s) = kend s"
  by (simp_all add: wakeup_def)

lemma pipe_inv_change:
  assumes "pipe_inv R G ps a (s, W, D)" "proc_change s s'"
    and "\<And>c. c \<in> {ChPipeRead a, ChPipeWrite a} \<Longrightarrow> no_sleeper c s \<Longrightarrow> no_sleeper c s'"
  shows "pipe_inv R G ps a (s', W, D)"
  using assms(1,3) proc_change_kstate [OF assms(2)] vm_ok_mach [of s' s R G ps] unfolding pipe_inv_def pipe_waits_def by auto

lemma pipe_write_inv:
  assumes "pipe_inv R G ps a (s, W, D)" "pipewrite_resume a addr n i s = Ok (r, s1)" "io_end r s1 s'"
    and "bs = map (\<lambda>x. the (cur_byte (addr + of_nat x) s)) [i..<i + wrote i r]"
  shows "pipe_inv R G ps a (s', W @ bs, D)"
proof -
  obtain p where p: "pipes s a = Some p" "pipe_ok p" "W = D @ pipe_contents p" "vm_ok R G s ps" "pipe_waits a p s"
    using assms(1) by (auto simp: pipe_inv_def)
  show ?thesis
  proof (cases "pi_readopen p \<and> \<not> p_killed (curproc s)")
    case True
    obtain cs p' where w: "s1 = wakeup (ChPipeRead a) (set_pipe a p' s)" "pipe_ok p'" "pipe_contents p' = pipe_contents p @ cs"
        "pi_readopen p' = pi_readopen p" "map (\<lambda>x. cur_byte (addr + of_nat x) s) [i..<i + length cs] = map Some cs"
        "write_stop a addr i (nat n - i) cs p' s r"
      using pipewrite_loop_run [of p s a addr i "nat n - i"] True p(1,2) assms(2) by (auto simp: pipewrite_resume_def set_pipe_same)
    have "wrote i r = length cs" using w(6) by (auto simp: write_stop_def wrote_def)
    then have bs: "bs = cs" using arg_cong [OF w(5), of "map the"] unfolding assms(4) by (simp add: comp_def)
    have full: "length cs = 0" if "length (pipe_contents p) = PIPESIZE" using pq.bounded [OF w(2)] w(3) that by simp
    have "no_sleeper (ChPipeRead a) s'" by (rule io_end_no_sleeper [OF assms(3)]) (use w(1,6) in \<open>auto simp: write_stop_def\<close>)
    moreover have "no_sleeper (ChPipeWrite a) s' \<or> length (pipe_contents p') = PIPESIZE"
    proof (cases r)
      case (Return k)
      then have "s' = s1" using assms(3) by (simp add: io_end_def)
      then show ?thesis using p(5) full w(1,3) by (auto simp: pipe_waits_def no_sleeper_wakeup_other)
    next
      case (Wait c l)
      then show ?thesis using w(6) by (simp add: write_stop_def)
    qed
    ultimately show ?thesis
      using proc_change_kstate [OF io_end_change [OF assms(3)]] w(1-4) p(3,4) True bs vm_ok_mach [of s' s R G ps]
      by (auto simp: pipe_inv_def pipe_waits_def)
  next
    case False
    then have "s1 = s \<or> s1 = wakeup (ChPipeRead a) s" "\<exists>k. r = Return k \<and> nat k - i = 0"
      using assms(2) p(1) by (cases "nat n - i"; force simp: pipewrite_resume_def get_pipe_def)+
    then have "s' = s \<or> s' = wakeup (ChPipeRead a) s" "bs = []" using assms(3,4) by (auto simp: io_end_def wrote_def)
    then show ?thesis using assms(1) pipe_inv_change [OF assms(1) kernel_step_change [OF kernel_step.wake]]
      by (auto simp: no_sleeper_wakeup_other)
  qed
qed

lemma pipe_read_inv:
  assumes "pipe_inv R G ps a (s, W, D)" "piperead a addr n s = Ok (r, s1)" "io_end r s1 s'"
    and "is_root G (p_pagetable (curproc s))" "p_pagetable (curproc s) \<in> R"
    and "\<And>x. x < nat n \<Longrightarrow> cur_byte (addr + of_nat x) s \<noteq> None"
    and "bs = snd (copyin (p_pagetable (curproc s)) addr (got r) s1)"
  shows "pipe_inv R G ps a (s', W, D @ bs)"
proof -
  let ?pt = "p_pagetable (curproc s)"
  obtain p where p: "pipes s a = Some p" "pipe_ok p" "W = D @ pipe_contents p" "vm_ok R G s ps" "pipe_waits a p s"
    using assms(1) by (auto simp: pipe_inv_def)
  show ?thesis
  proof (cases "pipe_contents p = [] \<and> pi_writeopen p")
    case True
    then have "s1 = s" "r = Return (-1) \<or> r = Wait (ChPipeRead a) ()"
      using assms(2) p(1) by (auto simp: piperead_def get_pipe_def pipe_empty_iff split: if_splits)
    moreover from this have "bs = []" using assms(7) by (auto simp: got_def copyin.simps)
    moreover have "no_sleeper (ChPipeWrite a) s'" if "no_sleeper (ChPipeWrite a) s"
      by (rule io_end_no_sleeper [OF assms(3)]) (use that calculation in auto)
    ultimately show ?thesis
      using True p proc_change_kstate [OF io_end_change [OF assms(3)]] vm_ok_mach [of s' s R G ps]
      by (auto simp: pipe_inv_def pipe_waits_def)
  next
    case False
    obtain cs lost p' m where L: "piperead_loop a addr 0 (nat n) s = Ok (int (length cs), set_pipe a p' (s\<lparr>pmem := m\<rparr>))"
        and w: "pipe_ok p'" "pipe_contents p = cs @ lost @ pipe_contents p'" "vm_ok R G (s\<lparr>pmem := m\<rparr>) ps"
        "stored R G ?pt addr cs (length cs) s (s\<lparr>pmem := m\<rparr>)" "cs = [] \<or> unat addr + length cs \<le> unat MAXVA"
        "read_stop addr (nat n) cs lost p' s"
      using piperead_loop_run [OF p(2,4) assms(4,5), of a addr 0 "nat n"] unfolding set_pipe_same [OF p(1)] add_0 semiring_1_class.of_nat_0 add_0_right by blast
    have r: "s1 = wakeup (ChPipeWrite a) (set_pipe a p' (s\<lparr>pmem := m\<rparr>))" "r = Return (int (length cs))"
      using assms(2) False p(1) L by (auto simp: piperead_def get_pipe_def pipe_empty_iff)
    have u: "ubytes ?pt addr s1 cs"
      using stored_ubytes [OF w(4) assms(4,5) w(5)] r(1) ubyte_pmem [of s1 "s\<lparr>pmem := m\<rparr>"] by (simp add: ubytes_def)
    have bs: "bs = cs" using ubytes_copyin [OF u] r(2) assms(7) by (simp add: got_def)
    have lost: "lost = []" using w(6) assms(6) [of "length cs"] by (auto simp: read_stop_def)
    have s': "s' = s1" using assms(3) r(2) by (simp add: io_end_def)
    have "no_sleeper (ChPipeRead a) s" using p(5) False by (auto simp: pipe_waits_def)
    then show ?thesis using r(1) w(1-3) p(3) bs lost s' vm_ok_mach [of s1 "s\<lparr>pmem := m\<rparr>" R G ps]
      by (auto simp: pipe_inv_def pipe_waits_def no_sleeper_wakeup_other)
  qed
qed

lemma pipe_close_inv:
  assumes "pipe_inv R G ps a (s, W, D)" "pipeclose a w s = Ok s'" "pipes s' a \<noteq> None"
  shows "pipe_inv R G ps a (s', W, D)"
proof -
  obtain p where p: "pipes s a = Some p" "pipe_ok p" "W = D @ pipe_contents p" "vm_ok R G s ps" "pipe_waits a p s"
    using assms(1) by (auto simp: pipe_inv_def)
  define q where "q = (if w then p\<lparr>pi_writeopen := False\<rparr> else p\<lparr>pi_readopen := False\<rparr>)"
  have s': "s' = wakeup (if w then ChPipeRead a else ChPipeWrite a) (set_pipe a q s)"
    using assms(2,3) p(1) by (auto simp: pipeclose_def get_pipe_def q_def [symmetric] Let_def res_simps split: if_splits)
  have q: "pipe_ok q" "pipe_contents q = pipe_contents p" using p(2) by (simp_all add: q_def pipe_ok_def pipe_contents_def)
  show ?thesis using p q vm_ok_mach [of s' s R G ps] unfolding s'
    by (auto simp: pipe_inv_def pipe_waits_def no_sleeper_wakeup_other q_def)
qed

lemma pipe_step_inv: "pipe_step R G a x y \<Longrightarrow> pipe_inv R G ps a x \<Longrightarrow> pipe_inv R G ps a y"
proof (induction rule: pipe_step.induct)
  case (pwrite addr n i s r s1 s' bs W D)
  then show ?case by (rule_tac pipe_write_inv)
next
  case (pread addr n s r s1 s' bs W D)
  show ?case by (rule pipe_read_inv [OF pread.prems pread.hyps])
next
  case (pclose w s s' W D)
  then show ?case by (rule_tac pipe_close_inv)
next
  case (pother s s' W D)
  then show ?case using pipe_inv_change [OF pother.prems kernel_step_change] kernel_step_no_sleeper by blast
qed

lemma pipe_steps_inv: "(pipe_step R G a)\<^sup>*\<^sup>* x y \<Longrightarrow> pipe_inv R G ps a x \<Longrightarrow> pipe_inv R G ps a y"
  by (induction rule: rtranclp_induct) (blast intro: pipe_step_inv)+

section \<open>The property\<close>


definition new_pipe :: pipe where
  "new_pipe = \<lparr>pi_data = replicate PIPESIZE 5, pi_nread = 0, pi_nwrite = 0, pi_readopen = True, pi_writeopen = True\<rparr>"

lemma new_pipe_ok: "pipe_ok new_pipe" "pipe_contents new_pipe = []"
  by (simp_all add: new_pipe_def pipe_ok_def ring_ok_def pipe_contents_def ring_contents_def)

definition pipe_demo :: kstate where
  "pipe_demo = set_pipe 0x80006000 new_pipe boot_kernel"

lemma pipe_demo_vm: "vm_ok {0x80002000} user_owners pipe_demo []"
  using boot_vm vm_ok_mach [of pipe_demo boot_kernel] by (simp add: pipe_demo_def)

lemma pipe_demo_write:
  obtains r s1 where "pipewrite_resume 0x80006000 100 3 0 pipe_demo = Ok (r, s1)" "wrote 0 r = 3" "io_end r s1 s1"
proof -
  obtain bs p' r where w: "pipewrite_resume 0x80006000 100 3 0 pipe_demo = Ok (r, wakeup (ChPipeRead 0x80006000) (set_pipe 0x80006000 p' boot_kernel))"
    "pipe_contents p' = bs" "write_stop 0x80006000 100 0 3 bs p' boot_kernel r"
    using pipewrite_loop_run [of new_pipe boot_kernel "0x80006000" 100 0 3] new_pipe_ok
    by (auto simp: pipe_demo_def pipewrite_resume_def new_pipe_def fresh_proc_def)
  have m: "cur_byte (100 + of_nat k) boot_kernel \<noteq> None" if "k < 3" for k
    by (rule boot_byte) (use that in \<open>auto simp: numeral_3_eq_3 less_Suc_eq\<close>)
  have "r = Return 3" using w(2,3) m [of "length bs"] by (auto simp: write_stop_def PIPESIZE_def)
  then show thesis using that [OF w(1)] by (simp add: wrote_def io_end_def)
qed


end
