(* ===== verification/Lineedit.thy ===== *)
theory Lineedit
  imports Bootstate
begin

text \<open>
  The console drivers meet their contracts.  The transmit ring of \<^verbatim>\<open>kernel/uart.c\<close> is a queue that sends
  in order; the input buffer of \<^verbatim>\<open>kernel/console.c\<close> with its three indices implements a line editor over
  two lists, the finished lines and the line being typed.
\<close>

section \<open>The transmit ring\<close>

definition tx_ok :: "'a dstate_scheme \<Rightarrow> bool" where
  "tx_ok s \<longleftrightarrow> ring_ok UART_TX_BUF_SIZE (uart_tx_buf s) (uart_tx_r s) (uart_tx_w s)"

definition tx_contents :: "'a dstate_scheme \<Rightarrow> uchar list" where
  "tx_contents s = ring_contents (uart_tx_buf s) (uart_tx_r s) (uart_tx_w s)"

lemma ring_size_UART: "ring_size TYPE(64) UART_TX_BUF_SIZE"
  by (simp add: ring_size_def UART_TX_BUF_SIZE_def)

lemma tx_empty_iff: "uart_tx_w s = uart_tx_r s \<longleftrightarrow> tx_contents s = []"
  by (auto simp: tx_contents_def ring_contents_def unat_eq_0)

interpretation uq: fifo tx_ok tx_contents UART_TX_BUF_SIZE uart_tx_put uart_tx_get
proof
  fix s :: "'a dstate_scheme" and x
  assume "tx_ok s" "length (tx_contents s) < UART_TX_BUF_SIZE"
  then show "tx_ok (uart_tx_put x s) \<and> tx_contents (uart_tx_put x s) = tx_contents s @ [x]"
    using ring_put [OF ring_size_UART, of "uart_tx_buf s" "uart_tx_r s" "uart_tx_w s" x]
    by (simp add: tx_ok_def tx_contents_def uart_tx_put_def)
next
  fix s :: "'a dstate_scheme"
  assume "tx_ok s" "tx_contents s \<noteq> []"
  then show "tx_ok (snd (uart_tx_get s)) \<and> tx_contents s = fst (uart_tx_get s) # tx_contents (snd (uart_tx_get s))"
    using ring_get [of UART_TX_BUF_SIZE "uart_tx_buf s" "uart_tx_r s" "uart_tx_w s"] tx_empty_iff [of s]
    by (simp add: tx_ok_def tx_contents_def uart_tx_get_def)
next
  fix s :: "'a dstate_scheme"
  assume "tx_ok s"
  then show "length (tx_contents s) \<le> UART_TX_BUF_SIZE" by (simp add: tx_ok_def tx_contents_def ring_ok_def)
qed

lemma tx_full_iff:
  "tx_ok s \<Longrightarrow> uart_tx_w s = uart_tx_r s + of_nat UART_TX_BUF_SIZE \<longleftrightarrow> length (tx_contents s) = UART_TX_BUF_SIZE"
  unfolding tx_ok_def by (subst ring_full_iff [OF ring_size_UART]) (simp_all add: tx_contents_def)

lemma tx_simps [simp]:
  "tx_ok (wakeup c s) = tx_ok s" "tx_contents (wakeup c s) = tx_contents s" "uart_out (wakeup c s) = uart_out s"
  "tx_ok (write_THR v s) = tx_ok s" "tx_contents (write_THR v s) = tx_contents s"
  "uart_out (write_THR v s) = uart_out s @ [of_int v]" "no_sleeper c (write_THR v s) = no_sleeper c s"
  "uart_out (snd (uart_tx_get s)) = uart_out s" "uart_out (uart_tx_put x s) = uart_out s"
  "no_sleeper c (uart_tx_put x s) = no_sleeper c s" "no_sleeper c (snd (uart_tx_get s)) = no_sleeper c s"
  by (simp_all add: tx_ok_def tx_contents_def wakeup_def write_THR_def uart_tx_get_def uart_tx_put_def no_sleeper_def)

lemma tx_idle_simps:
  assumes "tx_idle s = (b, t)"
  shows "tx_ok t = tx_ok s" "tx_contents t = tx_contents s" "uart_out t = uart_out s" "no_sleeper c t = no_sleeper c s"
  using assms by (auto simp: tx_idle_def tx_ok_def tx_contents_def no_sleeper_def split: list.splits)

text \<open>\<^verbatim>\<open>uartstart\<close> hands over a prefix of the ring, in order, and wakes the waiting writers if it hands over anything.\<close>

lemma uartstart_sends:
  assumes "tx_ok s"
  shows "tx_ok (uartstart s) \<and> (\<exists>bs. uart_out (uartstart s) = uart_out s @ bs \<and> tx_contents s = bs @ tx_contents (uartstart s) \<and>
    (no_sleeper ChUart (uartstart s) \<or> bs = []) \<and> (no_sleeper ChUart s \<longrightarrow> no_sleeper ChUart (uartstart s)))"
  using assms
proof (induction s rule: uartstart.induct)
  case (1 s)
  obtain idle t where t: "tx_idle s = (idle, t)" by fastforce
  note ts = tx_idle_simps [OF t]
  show ?case
  proof (cases "tx_contents s = [] \<or> \<not> idle")
    case True
    then show ?thesis using 1(2) t ts by (subst (1 2 3 4 5) uartstart.simps) (auto simp: tx_empty_iff)
  next
    case False
    obtain c u where u: "uart_tx_get t = (c, u)" by fastforce
    have g: "tx_ok u" "tx_contents t = c # tx_contents u" using uq.get_ok [of t] 1(2) ts False u by auto
    define v where "v = write_THR (uint c) (wakeup ChUart u)"
    have step: "uartstart s = uartstart v" using False t u by (subst uartstart.simps) (simp add: tx_empty_iff v_def)
    have v: "tx_ok v" "tx_contents v = tx_contents u" "uart_out v = uart_out s @ [c]" "no_sleeper ChUart v"
      using g tx_simps(8) [of t] u ts by (simp_all add: v_def)
    from 1(1) [of "(idle, t)" idle t "(c, u)" c u] False t u v(1)
    have IH: "tx_ok (uartstart v)" "\<exists>bs. uart_out (uartstart v) = uart_out v @ bs \<and> tx_contents v = bs @ tx_contents (uartstart v) \<and>
        (no_sleeper ChUart (uartstart v) \<or> bs = []) \<and> (no_sleeper ChUart v \<longrightarrow> no_sleeper ChUart (uartstart v))"
      by (auto simp: v_def tx_empty_iff)
    then show ?thesis unfolding step using v g ts by auto
  qed
qed

text \<open>
  Steps around the transmit ring: a process sends a byte or goes to sleep at a full ring, the interrupt
  handler serves the ring, \<^verbatim>\<open>printf\<close> sends a byte past the ring, the device changes its mind about being
  idle, and the kernel does something else to the processes.  The histories are the bytes accepted by
  \<^verbatim>\<open>uartputc\<close> and the bytes that left the ring.
\<close>

inductive uart_step :: "'a dstate_scheme \<times> uchar list \<times> uchar list \<Rightarrow> 'a dstate_scheme \<times> uchar list \<times> uchar list \<Rightarrow> bool" where
  putc: "uartputc c s = Ok s' \<Longrightarrow> uart_step (s, W, D) (s', W @ [of_int c], D @ drop (length (uart_out s)) (uart_out s'))"
| full: "uartputc c s = Block d \<Longrightarrow> sleep d s = Ok s' \<Longrightarrow> uart_step (s, W, D) (s', W, D)"
| intr: "uart_step (s, W, D) (uartstart s, W, D @ drop (length (uart_out s)) (uart_out (uartstart s)))"
| sync: "uartputc_sync c s = Ok s' \<Longrightarrow> uart_step (s, W, D) (s', W, D)"
| device: "uart_step (s, W, D) (s\<lparr>uart_lsr := bs\<rparr>, W, D)"
| uother: "kernel_step {ChUart} s s' \<Longrightarrow> uart_step (s, W, D) (s', W, D)"

definition uart_inv :: "'a dstate_scheme \<times> uchar list \<times> uchar list \<Rightarrow> bool" where
  "uart_inv x = (case x of (s, W, D) \<Rightarrow>
    tx_ok s \<and> W = D @ tx_contents s \<and> (no_sleeper ChUart s \<or> length (tx_contents s) = UART_TX_BUF_SIZE))"

lemma proc_change_dstate:
  fixes s :: "'a dstate_scheme"
  assumes "proc_change s s'"
  shows "tx_ok s' = tx_ok s" "tx_contents s' = tx_contents s" "uart_out s' = uart_out s"
  using assms by (auto simp: proc_change_def tx_ok_def tx_contents_def)

lemma uart_step_inv: "uart_step x y \<Longrightarrow> uart_inv x \<Longrightarrow> uart_inv y"
proof (induction rule: uart_step.induct)
  case (putc c s s' W D)
  then have ok: "tx_ok s" "W = D @ tx_contents s" "no_sleeper ChUart s \<or> length (tx_contents s) = UART_TX_BUF_SIZE"
    by (auto simp: uart_inv_def)
  have p: "length (tx_contents s) < UART_TX_BUF_SIZE" "s' = uartstart (uart_tx_put (of_int c) s)"
    using putc.hyps ok(1) uq.bounded [OF ok(1)] tx_full_iff [OF ok(1)] by (auto simp: uartputc_def split: if_splits)
  note q = uq.put_ok [OF ok(1) p(1), of "of_int c"]
  from uartstart_sends [OF q [THEN conjunct1]] obtain bs where "tx_ok s'" "uart_out s' = uart_out s @ bs"
      "tx_contents s @ [of_int c] = bs @ tx_contents s'" "no_sleeper ChUart s'"
    using q ok(3) p by auto
  then show ?case using ok(2) by (simp add: uart_inv_def)
next
  case (full c s d s' W D)
  then have "tx_ok s" "length (tx_contents s) = UART_TX_BUF_SIZE"
    using tx_full_iff by (auto simp: uart_inv_def uartputc_def split: if_splits)
  then show ?case using full.prems proc_change_dstate [OF sleep_change [OF full.hyps(2)]] by (simp add: uart_inv_def)
next
  case (intr s W D)
  then have ok: "tx_ok s" "W = D @ tx_contents s" "no_sleeper ChUart s \<or> length (tx_contents s) = UART_TX_BUF_SIZE"
    by (auto simp: uart_inv_def)
  from uartstart_sends [OF ok(1)] obtain bs where "tx_ok (uartstart s)" "uart_out (uartstart s) = uart_out s @ bs"
      "tx_contents s = bs @ tx_contents (uartstart s)" "no_sleeper ChUart (uartstart s) \<or> bs = []"
      "no_sleeper ChUart s \<longrightarrow> no_sleeper ChUart (uartstart s)"
    by blast
  then show ?case using ok(2,3) by (auto simp: uart_inv_def)
next
  case (sync c s s' W D)
  then show ?case by (auto simp: uart_inv_def tx_ok_def tx_contents_def no_sleeper_def elim!: uartputc_sync_Ok)
next
  case (device s W D bs)
  then show ?case by (auto simp: uart_inv_def tx_ok_def tx_contents_def no_sleeper_def)
next
  case (uother s s' W D)
  then show ?case using kernel_step_no_sleeper [OF uother.hyps] proc_change_dstate [OF kernel_step_change [OF uother.hyps]]
    by (auto simp: uart_inv_def)
qed

section \<open>The line editor\<close>

text \<open>What the input buffer stands for: the bytes of finished lines, and the line being typed.\<close>

definition edit_step :: "int \<Rightarrow> uchar list \<times> uchar list \<Rightarrow> uchar list \<times> uchar list" where
  "edit_step c x = (case x of (done, line) \<Rightarrow>
    if c = Ctrl CHR ''P'' then (done, line)
    else if c = Ctrl CHR ''U'' then (done, [])
    else if c = Ctrl CHR ''H'' \<or> c = 0x7f then (done, butlast line)
    else if c \<noteq> 0 \<and> length done + length line < INPUT_BUF then
      let c = (if c = 13 then 10 else c); line = line @ [of_int c] in
      if c = 10 \<or> c = Ctrl CHR ''D'' \<or> length done + length line = INPUT_BUF then (done @ line, []) else (done, line)
    else (done, line))"

definition cons_abs :: "'a dstate_scheme \<Rightarrow> uchar list \<times> uchar list" where
  "cons_abs s = (ring_contents (cons_buf s) (cons_r s) (cons_w s), ring_contents (cons_buf s) (cons_w s) (cons_e s))"

definition cons_ok :: "'a dstate_scheme \<Rightarrow> bool" where
  "cons_ok s \<longleftrightarrow> length (cons_buf s) = INPUT_BUF \<and>
    unat (cons_w s - cons_r s) + unat (cons_e s - cons_w s) \<le> INPUT_BUF \<and> 10 \<notin> set (snd (cons_abs s))"

lemma ring_size_CONS: "ring_size TYPE(32) INPUT_BUF"
  by (simp add: ring_size_def INPUT_BUF_def)

lemma ring_split:
  fixes r w e :: "'w::len word"
  assumes "unat (w - r) + unat (e - w) < 2 ^ LENGTH('w)"
  shows "unat (e - r) = unat (w - r) + unat (e - w)"
    and "ring_contents buf r e = ring_contents buf r w @ ring_contents buf w e"
proof -
  have "e - r = (w - r) + (e - w)" by simp
  then show u: "unat (e - r) = unat (w - r) + unat (e - w)" using assms by (metis unat_plus_if_size wsst_TYs(3))
  have w: "w = r + of_nat (unat (w - r))" by simp
  show "ring_contents buf r e = ring_contents buf r w @ ring_contents buf w e"
  proof (rule nth_equalityI)
    show "length (ring_contents buf r e) = length (ring_contents buf r w @ ring_contents buf w e)" using u by simp
    fix i assume "i < length (ring_contents buf r e)"
    then show "ring_contents buf r e ! i = (ring_contents buf r w @ ring_contents buf w e) ! i"
      using u w by (auto simp: ring_contents_def nth_append of_nat_diff algebra_simps)
  qed
qed

lemma ring_unput:
  fixes w e :: "'w::len word"
  assumes "e \<noteq> w"
  shows "unat (e - 1 - w) = unat (e - w) - 1" "ring_contents buf w (e - 1) = butlast (ring_contents buf w e)"
    and "length buf = n \<Longrightarrow> last (ring_contents buf w e) = buf ! (unat (e - 1) mod n)"
proof -
  obtain k where k: "unat (e - w) = Suc k" using assms by (metis not0_implies_Suc right_minus_eq unat_eq_zero)
  have e: "e - 1 - w = e - w - 1" by simp
  show u: "unat (e - 1 - w) = unat (e - w) - 1" unfolding e by (rule unat_minus_one) (use assms in simp)
  show "ring_contents buf w (e - 1) = butlast (ring_contents buf w e)"
    unfolding ring_contents_def u k by (simp add: butlast_append)
  have "w + of_nat (unat (e - w)) = e" by simp
  then have "w + of_nat k = e - 1" unfolding k by (simp add: algebra_simps)
  then show "last (ring_contents buf w e) = buf ! (unat (e - 1) mod n)" if "length buf = n"
    unfolding ring_contents_def k by (simp add: that)
qed

text \<open>Routines that only send bytes.\<close>

definition out_only :: "'a dstate_scheme \<Rightarrow> 'a dstate_scheme \<Rightarrow> bool" where
  "out_only s s' \<longleftrightarrow> (\<exists>bs cs. s' = s\<lparr>uart_lsr := bs, uart_out := cs\<rparr>)"

lemma out_only_refl [simp]: "out_only s s"
  unfolding out_only_def by (intro exI [of _ "uart_lsr s"] exI [of _ "uart_out s"]) simp

lemma out_onlyI [simp]: "out_only s (s\<lparr>uart_lsr := bs, uart_out := cs\<rparr>)"
  unfolding out_only_def by blast

lemma out_only_trans: "out_only s t \<Longrightarrow> out_only t u \<Longrightarrow> out_only s u"
  by (auto simp: out_only_def [of s t] out_only_def [of t u])

lemma out_only_consputc: "consputc c s = Ok s' \<Longrightarrow> out_only s s'"
  by (auto elim!: consputc_Ok)

lemma out_only_foreach:
  "(\<And>x s s'. f x s = Ok s' \<Longrightarrow> out_only s s') \<Longrightarrow> foreach f xs s = Ok s' \<Longrightarrow> out_only s s'"
proof (induction xs arbitrary: s)
  case (Cons x xs)
  then obtain t where t: "f x s = Ok t" "foreach f xs t = Ok s'" by (auto simp: res_simps)
  show ?case by (rule out_only_trans [OF Cons.prems(1) [OF t(1)] Cons.IH [OF Cons.prems(1) t(2)]])
qed simp

lemma out_only_puts: "foreach (\<lambda>c. consputc (uint c)) (bs :: uchar list) s = Ok s' \<Longrightarrow> out_only s s'"
  by (rule out_only_foreach) (rule out_only_consputc)

lemma out_only_printint: "printint xx base sign s = Ok s' \<Longrightarrow> out_only s s'"
  unfolding printint_def by (rule out_only_puts)

lemma out_only_printptr_loop: "printptr_loop k x s = Ok s' \<Longrightarrow> out_only s s'"
  by (induction k arbitrary: x s) (auto simp: res_simps intro: out_only_trans out_only_consputc)

lemma out_only_printptr: "printptr x s = Ok s' \<Longrightarrow> out_only s s'"
  by (auto simp: printptr_def res_simps dest!: out_only_consputc out_only_printptr_loop intro: out_only_trans)

lemma out_only_directive: "printf_directive c ap s = Ok (ap', s') \<Longrightarrow> out_only s s'"
  by (auto simp: printf_directive_def res_simps Let_def split: if_splits list.splits va.splits
      dest!: out_only_consputc out_only_printint out_only_printptr out_only_puts intro: out_only_trans)

lemma out_only_printf_loop: "printf_loop fmt ap s = Ok s' \<Longrightarrow> out_only s s'"
proof (induction fmt ap s rule: printf_loop.induct)
  case (2 c fmt ap s)
  show ?case
  proof (cases "c = of_char CHR ''%''")
    case False
    then obtain t where t: "consputc (uint c) s = Ok t" "printf_loop fmt ap t = Ok s'" using 2(3) by (auto simp: res_simps)
    show ?thesis by (rule out_only_trans [OF out_only_consputc [OF t(1)] 2(1) [OF False t]])
  next
    case True
    show ?thesis
    proof (cases fmt)
      case (Cons d fmt')
      then obtain ap' t where t: "printf_directive d ap s = Ok (ap', t)" "printf_loop fmt' ap' t = Ok s'"
        using 2(3) True by (auto simp: res_simps)
      have "out_only t s'" using 2(2) [OF _ Cons t(1) refl t(2)] True by simp
      then show ?thesis by (rule out_only_trans [OF out_only_directive [OF t(1)]])
    qed (use 2(3) True in simp)
  qed
qed simp

lemma out_only_printf: "printf fmt ap s = Ok s' \<Longrightarrow> out_only s s'"
  by (auto simp: printf_def split: option.splits intro: out_only_printf_loop)

lemma out_only_procdump: "procdump_print s = Ok s' \<Longrightarrow> out_only s s'"
proof -
  assume "procdump_print s = Ok s'"
  then obtain t where t: "printf (Some [10]) [] s = Ok t" "foreach (\<lambda>(pid, state, name) s.
      bindr (printf (Some (bytes ''%d %s %s'')) [VInt pid, VStr (Some (bytes state)), VStr (Some (takeWhile (\<lambda>c. c \<noteq> 0) name))] s)
        (printf (Some [10]) [])) (procdump t) t = Ok s'"
    by (auto simp: procdump_print_def res_simps)
  have "out_only t s'" by (rule out_only_foreach [OF _ t(2)]) (auto simp: res_simps dest!: out_only_printf intro: out_only_trans)
  with out_only_printf [OF t(1)] show ?thesis by (rule out_only_trans)
qed

lemma out_only_cons:
  assumes "out_only s s'"
  shows "cons_abs s' = cons_abs s" "cons_ok s' = cons_ok s" "procs s' = procs s" "cons_buf s' = cons_buf s"
    "cons_r s' = cons_r s" "cons_w s' = cons_w s" "cons_e s' = cons_e s"
  using assms by (auto simp: out_only_def cons_abs_def cons_ok_def)

lemma cons_total:
  assumes "cons_ok s"
  shows "unat (cons_e s - cons_r s) = length (fst (cons_abs s)) + length (snd (cons_abs s))"
    and "ring_contents (cons_buf s) (cons_r s) (cons_e s) = fst (cons_abs s) @ snd (cons_abs s)"
    and "ring_ok INPUT_BUF (cons_buf s) (cons_r s) (cons_e s)"
    and "length (fst (cons_abs s)) + length (snd (cons_abs s)) \<le> INPUT_BUF"
proof -
  have "unat (cons_w s - cons_r s) + unat (cons_e s - cons_w s) < 2 ^ LENGTH(32)"
    using assms by (simp add: cons_ok_def INPUT_BUF_def)
  from ring_split [OF this] assms show
    "unat (cons_e s - cons_r s) = length (fst (cons_abs s)) + length (snd (cons_abs s))"
    "ring_contents (cons_buf s) (cons_r s) (cons_e s) = fst (cons_abs s) @ snd (cons_abs s)"
    "ring_ok INPUT_BUF (cons_buf s) (cons_r s) (cons_e s)"
    "length (fst (cons_abs s)) + length (snd (cons_abs s)) \<le> INPUT_BUF"
    by (simp_all add: cons_abs_def cons_ok_def ring_ok_def)
qed

lemma cons_erase:
  assumes "cons_ok s" "cons_e s \<noteq> cons_w s"
  shows "cons_ok (s\<lparr>cons_e := cons_e s - 1\<rparr>)" "cons_abs (s\<lparr>cons_e := cons_e s - 1\<rparr>) = (fst (cons_abs s), butlast (snd (cons_abs s)))"
  using assms ring_unput(1) [OF assms(2)] ring_unput(2) [OF assms(2), of "cons_buf s"] by (auto simp: cons_ok_def cons_abs_def dest: in_set_butlastD)

lemma cons_line_empty: "cons_e s = cons_w s \<longleftrightarrow> snd (cons_abs s) = []"
  by (auto simp: cons_abs_def ring_contents_def unat_eq_0)

lemma kill_line_clears:
  "cons_ok s \<Longrightarrow> kill_line s = Ok s' \<Longrightarrow> cons_ok s' \<and> cons_abs s' = (fst (cons_abs s), []) \<and> procs s' = procs s"
proof (induction s rule: kill_line.induct)
  case (1 s)
  show ?case
  proof (cases "cons_e s = cons_w s")
    case True
    then have "s' = s" using 1(3) by (simp add: kill_line.simps [of s])
    then show ?thesis using 1(2) True cons_line_empty [of s] by (metis prod.collapse)
  next
    case False
    have "last (snd (cons_abs s)) = cons_buf s ! (unat (cons_e s - 1) mod INPUT_BUF)"
      using ring_unput(3) [OF False, of "cons_buf s" INPUT_BUF] 1(2) by (simp add: cons_abs_def cons_ok_def)
    moreover have "snd (cons_abs s) \<noteq> []" using False cons_line_empty [of s] by simp
    ultimately have n: "cons_buf s ! (unat (cons_e s - 1) mod INPUT_BUF) \<noteq> 10"
      using 1(2) last_in_set [of "snd (cons_abs s)"] by (auto simp: cons_ok_def)
    obtain t where t: "consputc BACKSPACE (s\<lparr>cons_e := cons_e s - 1\<rparr>) = Ok t" "kill_line t = Ok s'"
      using 1(3) False n by (subst (asm) kill_line.simps) (auto simp: res_simps)
    note o = out_only_cons [OF out_only_consputc [OF t(1)]]
    from 1(1) [OF _ t(1) _ t(2)] False n o cons_erase [OF 1(2) False] show ?thesis by simp
  qed
qed

lemma of_int_10: "0 \<le> c \<Longrightarrow> c < 256 \<Longrightarrow> (of_int c :: uchar) = 10 \<longleftrightarrow> c = 10"
proof -
  assume "0 \<le> c" "c < 256"
  then have "uint (of_int c :: uchar) = c" by (simp add: unsigned_of_int take_bit_int_eq_self)
  moreover have "uint (10 :: uchar) = 10" by simp
  ultimately show ?thesis by (metis uint_inject)
qed

lemma cons_store:
  assumes "cons_ok s" "length (fst (cons_abs s)) + length (snd (cons_abs s)) < INPUT_BUF" "c \<noteq> 10 \<or> w = cons_e s + 1"
    and "w = cons_e s + 1 \<or> w = cons_w s"
  defines "t \<equiv> s\<lparr>cons_buf := (cons_buf s)[unat (cons_e s) mod INPUT_BUF := c], cons_e := cons_e s + 1, cons_w := w\<rparr>"
  shows "cons_ok t" "cons_abs t = (if w = cons_e s + 1 then (fst (cons_abs s) @ snd (cons_abs s) @ [c], []) else (fst (cons_abs s), snd (cons_abs s) @ [c]))"
proof -
  let ?b = "(cons_buf s)[unat (cons_e s) mod INPUT_BUF := c]" and ?r = "cons_r s" and ?e = "cons_e s"
  note tot = cons_total [OF assms(1)]
  have put: "ring_ok INPUT_BUF ?b ?r (?e + 1)" "ring_contents ?b ?r (?e + 1) = (fst (cons_abs s) @ snd (cons_abs s)) @ [c]"
    using ring_put [OF ring_size_CONS tot(3), of c] tot(1,2) assms(2) by simp_all
  then have len: "length ?b = INPUT_BUF" "unat (?e + 1 - ?r) \<le> INPUT_BUF" by (simp_all add: ring_ok_def)
  have "cons_ok t \<and> cons_abs t = (if w = ?e + 1 then (fst (cons_abs s) @ snd (cons_abs s) @ [c], []) else (fst (cons_abs s), snd (cons_abs s) @ [c]))"
  proof (cases "w = ?e + 1")
    case True
    then have "cons_abs t = (fst (cons_abs s) @ snd (cons_abs s) @ [c], [])"
      using put(2) by (simp add: t_def cons_abs_def ring_contents_def [of _ "?e + 1"])
    then show ?thesis using True len by (simp add: cons_ok_def) (simp add: t_def)
  next
    case False
    then have w: "w = cons_w s" using assms(4) by simp
    have k: "unat (cons_w s - ?r) = length (fst (cons_abs s))" "unat (?e - cons_w s) = length (snd (cons_abs s))"
      by (simp_all add: cons_abs_def)
    have e: "?e + 1 - cons_w s = (?e - cons_w s) + 1" by simp
    have u: "unat (?e + 1 - cons_w s) = Suc (length (snd (cons_abs s)))"
      unfolding e using unat_add_1 [of "?e - cons_w s"] assms(2) k(2) by (simp add: INPUT_BUF_def)
    have "ring_contents ?b ?r (?e + 1) = ring_contents ?b ?r (cons_w s) @ ring_contents ?b (cons_w s) (?e + 1)"
      by (rule ring_split(2)) (use u k(1) assms(2) in \<open>simp add: INPUT_BUF_def\<close>)
    then have "ring_contents ?b ?r (cons_w s) = fst (cons_abs s)" "ring_contents ?b (cons_w s) (?e + 1) = snd (cons_abs s) @ [c]"
      using put(2) k(1) by (simp_all add: append_eq_append_conv)
    then have "cons_abs t = (fst (cons_abs s), snd (cons_abs s) @ [c])" by (simp add: t_def cons_abs_def w)
    then show ?thesis using False assms(1-3) len(1) u k w by (simp add: cons_ok_def) (simp add: t_def)
  qed
  then show "cons_ok t" "cons_abs t = (if w = ?e + 1 then (fst (cons_abs s) @ snd (cons_abs s) @ [c], []) else (fst (cons_abs s), snd (cons_abs s) @ [c]))"
    by simp_all
qed

lemma cons_wakeup [simp]: "cons_abs (wakeup c s) = cons_abs s" "cons_ok (wakeup c s) = cons_ok s"
  by (simp_all add: cons_abs_def cons_ok_def wakeup_def)

lemma no_sleeper_procs: "procs s' = procs s \<Longrightarrow> no_sleeper c s' = no_sleeper c s"
  by (simp add: no_sleeper_def)

lemma cons_char:
  assumes "cons_ok s" "0 \<le> c" "c < 256" "length (fst (cons_abs s)) + length (snd (cons_abs s)) < INPUT_BUF"
  defines "u \<equiv> s\<lparr>cons_buf := (cons_buf s)[unat (cons_e s) mod INPUT_BUF := of_int c], cons_e := cons_e s + 1\<rparr>"
    and "x \<equiv> (fst (cons_abs s), snd (cons_abs s) @ [of_int c])"
  shows "cons_e u = cons_r u + of_nat INPUT_BUF \<longleftrightarrow> length (fst x) + length (snd x) = INPUT_BUF"
    and "cons_ok (u\<lparr>cons_w := cons_e u\<rparr>)" "cons_abs (u\<lparr>cons_w := cons_e u\<rparr>) = (fst x @ snd x, [])"
    and "c \<noteq> 10 \<Longrightarrow> cons_ok u" "c \<noteq> 10 \<Longrightarrow> cons_abs u = x"
proof -
  let ?v = "s\<lparr>cons_buf := (cons_buf s)[unat (cons_e s) mod INPUT_BUF := of_int c], cons_e := cons_e s + 1, cons_w := cons_e s + 1\<rparr>"
  have v: "u\<lparr>cons_w := cons_e u\<rparr> = ?v" by (simp add: u_def)
  note st = cons_store [OF assms(1,4), of "of_int c" "cons_e s + 1"]
  show ok: "cons_ok (u\<lparr>cons_w := cons_e u\<rparr>)" and abs: "cons_abs (u\<lparr>cons_w := cons_e u\<rparr>) = (fst x @ snd x, [])"
    using st unfolding v by (simp_all add: x_def)
  have "ring_ok INPUT_BUF (cons_buf u) (cons_r u) (cons_e u)" "unat (cons_e u - cons_r u) = length (fst x) + length (snd x)"
    using cons_total(1,3) [OF ok] unfolding abs by simp_all
  then show "cons_e u = cons_r u + of_nat INPUT_BUF \<longleftrightarrow> length (fst x) + length (snd x) = INPUT_BUF"
    using ring_full_iff [OF ring_size_CONS, of "cons_buf u" "cons_r u" "cons_e u"] by simp
  have w: "s\<lparr>cons_buf := (cons_buf s)[unat (cons_e s) mod INPUT_BUF := of_int c], cons_e := cons_e s + 1, cons_w := cons_w s\<rparr> = u"
    unfolding u_def by (intro dstate.equality) simp_all
  have ne: "cons_w s \<noteq> cons_e s + 1"
  proof
    assume "cons_w s = cons_e s + 1"
    then have "unat (cons_e s - cons_w s) = 4294967295" by (simp add: unsigned_minus_1_eq_mask mask_eq_exp_minus_1)
    then show False using assms(4) by (simp add: cons_abs_def INPUT_BUF_def)
  qed
  show "cons_ok u" "cons_abs u = x" if "c \<noteq> 10"
    using cons_store [OF assms(1,4), of "of_int c" "cons_w s"] that of_int_10 [OF assms(2,3)] ne unfolding w by (simp_all add: x_def)
qed

lemma consoleintr_char:
  assumes "cons_ok s" "0 \<le> c" "c < 256" "consoleintr c s = Ok s'" "cons_abs s = (dn, line)"
    and "c \<notin> {0, Ctrl CHR ''P'', Ctrl CHR ''U'', Ctrl CHR ''H'', 0x7f}" "length dn + length line < INPUT_BUF"
    and "cons_e s - cons_r s < of_nat INPUT_BUF"
  shows "cons_ok s'" "cons_abs s' = edit_step c (dn, line)"
    and "no_sleeper ChCons s \<or> dn = [] \<Longrightarrow> no_sleeper ChCons s' \<or> fst (cons_abs s') = []"
proof -
  define d where "d = (if c = 13 then 10 else c)"
  have d: "0 \<le> d" "d < 256" using assms(2,3) by (simp_all add: d_def)
  define put where "put = (\<lambda>t :: 'a dstate_scheme. t\<lparr>cons_buf := (cons_buf t)[unat (cons_e t) mod INPUT_BUF := of_int d], cons_e := cons_e t + 1\<rparr>)"
  obtain t where t: "consputc d s = Ok t" "s' = (let u = put t in
      if d = 10 \<or> d = Ctrl CHR ''D'' \<or> cons_e u = cons_r u + of_nat INPUT_BUF then wakeup ChCons (u\<lparr>cons_w := cons_e u\<rparr>) else u)"
    using assms(4,6,8) by (auto simp: consoleintr_def d_def [symmetric] put_def res_simps Let_def split: if_splits)
  note o = out_only_cons [OF out_only_consputc [OF t(1)]]
  have ok: "cons_ok t" "length (fst (cons_abs t)) + length (snd (cons_abs t)) < INPUT_BUF" using assms(1,5,7) o by simp_all
  have "put t = t\<lparr>cons_buf := (cons_buf t)[unat (cons_e t) mod INPUT_BUF := of_int d], cons_e := cons_e t + 1\<rparr>" by (simp add: put_def)
  note ch = cons_char [OF ok(1) d ok(2), folded this, unfolded o(1) assms(5) prod.sel]
  have p: "no_sleeper ChCons (put t) = no_sleeper ChCons s" using no_sleeper_procs [of "put t" s] o(3) by (simp add: put_def)
  have e: "edit_step c (dn, line) = (if d = 10 \<or> d = Ctrl CHR ''D'' \<or> length dn + length (line @ [of_int d]) = INPUT_BUF
      then (dn @ line @ [of_int d], []) else (dn, line @ [of_int d]))"
    using assms(6,7) by (simp add: edit_step_def d_def [symmetric] Let_def)
  show "cons_ok s'" "cons_abs s' = edit_step c (dn, line)" using ch e unfolding t(2) by (simp_all add: Let_def)
  show "no_sleeper ChCons s' \<or> fst (cons_abs s') = []" if "no_sleeper ChCons s \<or> dn = []"
  proof (cases "d = 10 \<or> d = Ctrl CHR ''D'' \<or> cons_e (put t) = cons_r (put t) + of_nat INPUT_BUF")
    case True
    then show ?thesis unfolding t(2) by (simp add: Let_def)
  next
    case False
    then show ?thesis using that p ch(5) unfolding t(2) by (simp add: Let_def)
  qed
qed

lemma consoleintr_edit:
  assumes "cons_ok s" "0 \<le> c" "c < 256" "consoleintr c s = Ok s'"
  shows "cons_ok s' \<and> cons_abs s' = edit_step c (cons_abs s) \<and>
    (no_sleeper ChCons s \<or> fst (cons_abs s) = [] \<longrightarrow> no_sleeper ChCons s' \<or> fst (cons_abs s') = [])"
proof -
  obtain dn line where x: "cons_abs s = (dn, line)" by fastforce
  consider "c = Ctrl CHR ''P''" | "c = Ctrl CHR ''U''" | "c = Ctrl CHR ''H'' \<or> c = 0x7f"
    | "c \<notin> {Ctrl CHR ''P'', Ctrl CHR ''U'', Ctrl CHR ''H'', 0x7f}" by blast
  then show ?thesis
  proof cases
    case 1
    then have "out_only s s'" using assms(4) by (auto simp: consoleintr_def intro: out_only_procdump)
    note o = out_only_cons [OF this]
    then show ?thesis using 1 x assms(1) no_sleeper_procs [OF o(3)] by (simp add: edit_step_def)
  next
    case 2
    then have "kill_line s = Ok s'" using assms(4) by (simp add: consoleintr_def Ctrl_def)
    from kill_line_clears [OF assms(1) this] show ?thesis using 2 x no_sleeper_procs [of s' s] by (simp add: edit_step_def Ctrl_def)
  next
    case 3
    then have c: "if cons_e s \<noteq> cons_w s then consputc BACKSPACE (s\<lparr>cons_e := cons_e s - 1\<rparr>) = Ok s' else s' = s"
      using assms(4) by (auto simp: consoleintr_def Ctrl_def split: if_splits)
    have e: "edit_step c (cons_abs s) = (dn, butlast line)" using 3 x by (auto simp: edit_step_def Ctrl_def)
    show ?thesis
    proof (cases "cons_e s = cons_w s")
      case True
      then show ?thesis using c e x assms(1) cons_line_empty [of s] by auto
    next
      case False
      then have "out_only (s\<lparr>cons_e := cons_e s - 1\<rparr>) s'" using c by (simp add: out_only_consputc)
      note o = out_only_cons [OF this]
      then show ?thesis using e x cons_erase [OF assms(1) False] no_sleeper_procs [of s' s] by simp
    qed
  next
    case 4
    have g: "cons_e s - cons_r s < of_nat INPUT_BUF \<longleftrightarrow> length dn + length line < INPUT_BUF"
      using cons_total(1) [OF assms(1)] x by (simp add: word_less_nat_alt INPUT_BUF_def)
    show ?thesis
    proof (cases "c \<noteq> 0 \<and> length dn + length line < INPUT_BUF")
      case False
      then have "s' = s" "edit_step c (cons_abs s) = cons_abs s"
        using assms(4) 4 g x by (auto simp: consoleintr_def edit_step_def)
      then show ?thesis using assms(1) by simp
    next
      case True
      then show ?thesis using consoleintr_char [OF assms, of dn line] 4 g x by simp
    qed
  qed
qed

section \<open>Input is handled in bounded time\<close>

text \<open>The number of times the port will still report itself idle.\<close>

definition idles :: "'a dstate_scheme \<Rightarrow> nat" where
  "idles s = count_list (uart_lsr s) True"

lemma wait_idle_Some: "0 < count_list bs True \<Longrightarrow> \<exists>cs. wait_idle bs = Some cs \<and> count_list bs True = Suc (count_list cs True)"
  by (induction bs) (auto split: if_splits)

lemma uartputc_sync_total:
  assumes "\<not> panicked s" "0 < idles s"
  obtains s' where "uartputc_sync c s = Ok s'" "\<not> panicked s'" "idles s = Suc (idles s')"
proof -
  obtain cs where "wait_idle (uart_lsr s) = Some cs" "idles s = Suc (count_list cs True)"
    using wait_idle_Some [of "uart_lsr s"] assms(2) by (auto simp: idles_def)
  then show thesis using that [of "write_THR c (s\<lparr>uart_lsr := cs\<rparr>)"] assms(1) by (simp add: uartputc_sync_def write_THR_def idles_def)
qed

lemma consputc_total:
  assumes "\<not> panicked s" "3 \<le> idles s"
  obtains s' where "consputc c s = Ok s'" "\<not> panicked s'" "idles s \<le> idles s' + 3"
proof (cases "c = BACKSPACE")
  case True
  obtain s1 where 1: "uartputc_sync 8 s = Ok s1" "\<not> panicked s1" "idles s = Suc (idles s1)"
    using uartputc_sync_total [of s 8] assms by auto
  obtain s2 where 2: "uartputc_sync 32 s1 = Ok s2" "\<not> panicked s2" "idles s1 = Suc (idles s2)"
    using uartputc_sync_total [of s1 32] 1 assms by auto
  obtain s3 where 3: "uartputc_sync 8 s2 = Ok s3" "\<not> panicked s3" "idles s2 = Suc (idles s3)"
    using uartputc_sync_total [of s2 8] 1 2 assms by auto
  show thesis using that [of s3] True 1 2 3 by (simp add: consputc_def)
next
  case False
  obtain s1 where "uartputc_sync c s = Ok s1" "\<not> panicked s1" "idles s = Suc (idles s1)"
    using uartputc_sync_total [of s c] assms by auto
  then show thesis using that [of s1] False by (simp add: consputc_def)
qed

lemma kill_line_total:
  "cons_ok s \<Longrightarrow> \<not> panicked s \<Longrightarrow> 3 * length (snd (cons_abs s)) + k \<le> idles s \<Longrightarrow> \<exists>s'. kill_line s = Ok s' \<and> \<not> panicked s' \<and> k \<le> idles s'"
proof (induction "length (snd (cons_abs s))" arbitrary: s)
  case 0
  then have "kill_line s = Ok s" using cons_line_empty [of s] by (subst kill_line.simps) simp
  then show ?case using 0 by simp
next
  case (Suc m)
  let ?t = "s\<lparr>cons_e := cons_e s - 1\<rparr>"
  have ne: "cons_e s \<noteq> cons_w s" using Suc.hyps(2) cons_line_empty [of s] by auto
  have t: "\<not> panicked ?t" "idles ?t = idles s" using Suc.prems by (simp_all add: idles_def)
  obtain u where u: "consputc BACKSPACE ?t = Ok u" "\<not> panicked u" "idles ?t \<le> idles u + 3"
    by (rule consputc_total [of ?t BACKSPACE]) (use t Suc.prems(3) Suc.hyps(2) in auto)
  note o = out_only_cons [OF out_only_consputc [OF u(1)]]
  note er = cons_erase [OF Suc.prems(1) ne]
  have "\<exists>s'. kill_line u = Ok s' \<and> \<not> panicked s' \<and> k \<le> idles s'"
    by (rule Suc.hyps(1)) (use o er u t Suc.hyps(2) Suc.prems(3) in auto)
  moreover have "kill_line s = kill_line u \<or> kill_line s = Ok s" using u(1) ne by (subst (1 3) kill_line.simps) simp
  ultimately show ?case using Suc.prems by fastforce
qed

lemma consoleintr_total:
  assumes "cons_ok s" "\<not> panicked s" "3 * INPUT_BUF + k \<le> idles s" "c \<noteq> Ctrl CHR ''P''"
  shows "\<exists>s'. consoleintr c s = Ok s' \<and> \<not> panicked s' \<and> k \<le> idles s'"
proof (cases "c = Ctrl CHR ''U''")
  case True
  then show ?thesis using kill_line_total [OF assms(1,2), of k] cons_total(4) [OF assms(1)] assms(3) by (simp add: consoleintr_def Ctrl_def)
next
  case False
  have put: "\<exists>t. consputc d u = Ok t \<and> \<not> panicked t \<and> k \<le> idles t" if q: "\<not> panicked u" "idles u = idles s" for d u
  proof -
    obtain t where "consputc d u = Ok t" "\<not> panicked t" "idles u \<le> idles t + 3"
      by (rule consputc_total [of u d]) (use q assms(3) in \<open>auto simp: INPUT_BUF_def\<close>)
    then show ?thesis using q assms(3) by (auto simp: INPUT_BUF_def)
  qed
  obtain t where t: "consputc BACKSPACE (s\<lparr>cons_e := cons_e s - 1\<rparr>) = Ok t" "\<not> panicked t" "k \<le> idles t"
    using put [of "s\<lparr>cons_e := cons_e s - 1\<rparr>" BACKSPACE] assms(2) by (auto simp: idles_def)
  obtain u where u: "consputc (if c = 13 then 10 else c) s = Ok u" "\<not> panicked u" "k \<le> idles u" using put [OF assms(2) refl] by blast
  show ?thesis using False assms t u by (auto simp: consoleintr_def Let_def idles_def wakeup_def)
qed

lemma consoleintr_run:
  assumes "cons_ok s" "\<not> panicked s" "3 * INPUT_BUF * length cs \<le> idles s" "Ctrl CHR ''P'' \<notin> set cs" "set cs \<subseteq> {0..<256}"
  shows "\<exists>s'. foreach consoleintr cs s = Ok s' \<and> cons_ok s' \<and> cons_abs s' = fold edit_step cs (cons_abs s)"
  using assms
proof (induction cs arbitrary: s)
  case (Cons c cs)
  obtain t where t: "consoleintr c s = Ok t" "\<not> panicked t" "3 * INPUT_BUF * length cs \<le> idles t"
    using consoleintr_total [OF Cons.prems(1,2), of "3 * INPUT_BUF * length cs" c] Cons.prems(3,4) by auto
  have "cons_ok t" "cons_abs t = edit_step c (cons_abs s)" using consoleintr_edit [OF Cons.prems(1) _ _ t(1)] Cons.prems(5) by auto
  then show ?case using Cons.IH [of t] Cons.prems(4,5) t by auto
qed simp

section \<open>Reading lines\<close>

text \<open>
  What one run of \<^verbatim>\<open>consoleread\<close> takes: bytes of finished lines up to the end of a line, an end-of-file
  mark, the number asked for, or until there is nothing left.
\<close>

fun take_line :: "nat \<Rightarrow> uchar list \<Rightarrow> uchar list" where
  "take_line 0 cs = []"
| "take_line (Suc n) [] = []"
| "take_line (Suc n) (c # cs) = (if c = 4 then [] else if c = 10 then [10] else c # take_line n cs)"

lemma take_line_prefix: "take_line n cs @ drop (length (take_line n cs)) cs = cs"
  by (induction n cs rule: take_line.induct) auto

lemma length_take_line: "length (take_line n cs) \<le> n"
  by (induction n cs rule: take_line.induct) auto

lemma cons_get_abs:
  assumes "cons_ok s" "cons_r s \<noteq> cons_w s"
  obtains c s1 where "cons_get s = (c, s1)" "s1 = s\<lparr>cons_r := cons_r s + 1\<rparr>" "cons_ok s1"
    "fst (cons_abs s) = c # fst (cons_abs s1)" "snd (cons_abs s1) = snd (cons_abs s)"
proof -
  have "ring_ok INPUT_BUF (cons_buf s) (cons_r s) (cons_w s)" using assms(1) by (simp add: cons_ok_def ring_ok_def)
  note g = ring_get [OF this assms(2)]
  have "unat (cons_w s - (cons_r s + 1)) \<le> unat (cons_w s - cons_r s)" using arg_cong [OF g(2), of length] by simp
  then show thesis using that [of "cons_buf s ! (unat (cons_r s) mod INPUT_BUF)" "s\<lparr>cons_r := cons_r s + 1\<rparr>"] g assms(1)
    by (simp add: cons_get_def cons_abs_def cons_ok_def)
qed

lemma cons_empty_iff: "cons_r s = cons_w s \<longleftrightarrow> fst (cons_abs s) = []"
  by (auto simp: cons_abs_def ring_contents_def unat_eq_0)

definition at_eof :: "uchar list \<Rightarrow> bool" where
  "at_eof cs = (cs \<noteq> [] \<and> hd cs = 4)"

text \<open>How the run ends, with \<open>bs\<close> delivered and \<open>rest\<close> what then is at the front of the finished lines.\<close>

definition read_end :: "nat \<Rightarrow> nat \<Rightarrow> uint64 \<Rightarrow> uchar list \<Rightarrow> uchar list \<Rightarrow> uchar list \<Rightarrow> 'a pstate_scheme \<Rightarrow> (uint64 \<times> nat, int) io \<Rightarrow> bool" where
  "read_end target n dst bs rest left s r \<longleftrightarrow>
    (if length bs < n \<and> rest = [] \<and> (bs = [] \<or> last bs \<noteq> 10) then
       left = [] \<and> r = (if p_killed (curproc s) then Return (-1) else Wait ChCons (dst + of_nat (length bs), n - length bs))
     else
       r = Return (int target - int n + int (length bs)) \<and>
       left = (if length bs < n \<and> at_eof rest \<and> (bs = [] \<or> last bs \<noteq> 10) \<and> n - length bs = target then tl rest else rest))"

lemma read_end_Cons:
  assumes "read_end target n (dst + 1) bs rest left s r" "c \<noteq> 10"
  shows "read_end target (Suc n) dst (c # bs) rest left s r"
  using assms by (auto simp: read_end_def add.assoc split: if_splits)

lemma read_end_curproc: "curproc s = curproc t \<Longrightarrow> read_end target n dst bs rest left s r = read_end target n dst bs rest left t r"
  by (simp only: read_end_def)

lemma uint_4: "uint (c :: uchar) = 4 \<longleftrightarrow> c = 4"
proof -
  have "uint (4 :: uchar) = 4" by simp
  then show ?thesis by (metis uint_inject)
qed

lemma consoleread_loop_run:
  assumes "cons_ok s" "n \<le> target" "vm_ok R G s ps" "is_root G (p_pagetable (curproc s))" "p_pagetable (curproc s) \<in> R"
    and "\<And>i. i < n \<Longrightarrow> cur_byte (dst + of_nat i) s \<noteq> None"
  shows "\<exists>r s' m. consoleread_loop True target dst n s = (r, s') \<and>
    (let bs = take_line n (fst (cons_abs s)) in
     s' = s\<lparr>pmem := m, cons_r := cons_r s'\<rparr> \<and> cons_ok s' \<and> snd (cons_abs s') = snd (cons_abs s) \<and>
     read_end target n dst bs (drop (length bs) (fst (cons_abs s))) (fst (cons_abs s')) s r \<and>
     vm_ok R G s' ps \<and> stored R G (p_pagetable (curproc s)) dst bs (length bs) s s' \<and>
     (bs = [] \<or> unat dst + length bs \<le> unat MAXVA))"
  using assms
proof (induction n arbitrary: dst s)
  case 0
  then show ?case
    by (intro exI [of _ "Return (int target)"] exI [of _ s] exI [of _ "pmem s"]) (simp add: read_end_def stored_def)
next
  case (Suc n)
  show ?case
  proof (cases "cons_r s = cons_w s")
    case True
    then show ?thesis using Suc.prems cons_empty_iff [of s]
      by (intro exI [of _ "if p_killed (curproc s) then Return (-1) else Wait ChCons (dst, Suc n)"] exI [of _ s] exI [of _ "pmem s"])
        (simp add: read_end_def stored_def)
  next
    case False
    obtain c s1 where g: "cons_get s = (c, s1)" "s1 = s\<lparr>cons_r := cons_r s + 1\<rparr>" "cons_ok s1"
        "fst (cons_abs s) = c # fst (cons_abs s1)" "snd (cons_abs s1) = snd (cons_abs s)"
      by (rule cons_get_abs [OF Suc.prems(1) False])
    have pt: "curproc s1 = curproc s" "pmem s1 = pmem s" "freelist s1 = freelist s" "kend s1 = kend s"
      using g(2) by (simp_all add: curproc_def cur_def myproc_def)
    show ?thesis
    proof (cases "c = 4")
      case True
      then have l: "consoleread_loop True target dst (Suc n) s =
          (Return (int target - int (Suc n)), if Suc n < target then s1\<lparr>cons_r := cons_r s1 - 1\<rparr> else s1)"
        using False g(1) by (simp add: Ctrl_def)
      have "s1\<lparr>cons_r := cons_r s1 - 1\<rparr> = s" using g(2) by (intro dstate.equality) simp_all
      then show ?thesis using l True g Suc.prems(1-3) vm_ok_mach [OF pt(2-4)] ubyte_pmem [OF pt(2)]
        by (intro exI [of _ "Return (int target - int (Suc n))"] exI [of _ "if Suc n < target then s else s1"] exI [of _ "pmem s"])
          (auto simp: read_end_def stored_def at_eof_def)
    next
      case c4: False
      have v1: "vm_ok R G s1 ps" using Suc.prems(3) vm_ok_mach [OF pt(2-4)] by simp
      have mapped: "ubyte (p_pagetable (curproc s)) dst s1 \<noteq> None"
        using Suc.prems(6) [of 0] ubyte_pmem [OF pt(2)] by (simp add: cur_byte_def)
      obtain m where m: "copyout (p_pagetable (curproc s)) dst [c] s1 = (0, s1\<lparr>pmem := m\<rparr>)" "vm_ok R G (s1\<lparr>pmem := m\<rparr>) ps"
          "stored R G (p_pagetable (curproc s)) dst [c] 1 s1 (s1\<lparr>pmem := m\<rparr>)" "unat dst + 1 \<le> unat MAXVA"
          "\<And>r' va. is_root G r' \<Longrightarrow> walkaddr r' va (s1\<lparr>pmem := m\<rparr>) = walkaddr r' va s1"
        by (rule copyout_byte [OF v1 Suc.prems(4,5), of dst c]) (use mapped in auto)
      let ?t = "s1\<lparr>pmem := m\<rparr>"
      have l: "consoleread_loop True target dst (Suc n) s =
          (if c = 10 then (Return (int target - int n), ?t) else consoleread_loop True target (dst + 1) n ?t)"
        using False g(1) m(1) uint_4 [of c] c4 pt(1) by (simp add: Ctrl_def either_copyout_def)
      have st: "stored R G (p_pagetable (curproc s)) dst [c] 1 s ?t" using m(3) stored_pmem [OF pt(2) refl] by simp
      have ct: "cons_ok ?t" "cons_abs ?t = cons_abs s1" "curproc ?t = curproc s"
        using g(3) pt(1) by (simp_all add: cons_ok_def cons_abs_def curproc_def cur_def myproc_def)
      show ?thesis
      proof (cases "c = 10")
        case True
        then show ?thesis using l g ct m(2,4) st
          by (intro exI [of _ "Return (int target - int n)"] exI [of _ ?t] exI [of _ m]) (simp add: read_end_def)
      next
        case False
        have "cur_byte (dst + 1 + of_nat i) ?t \<noteq> None" if "i < n" for i
          using Suc.prems(6) [of "Suc i"] that ubyte_mapped [OF m(5) [OF Suc.prems(4)]] ubyte_pmem [OF pt(2)] ct(3)
          by (simp add: cur_byte_def add.assoc)
        then obtain r s' m' where IH: "consoleread_loop True target (dst + 1) n ?t = (r, s')"
          "s' = ?t\<lparr>pmem := m', cons_r := cons_r s'\<rparr>" "cons_ok s'" "snd (cons_abs s') = snd (cons_abs ?t)"
          "read_end target n (dst + 1) (take_line n (fst (cons_abs ?t))) (drop (length (take_line n (fst (cons_abs ?t)))) (fst (cons_abs ?t))) (fst (cons_abs s')) ?t r"
          "vm_ok R G s' ps" "stored R G (p_pagetable (curproc s)) (dst + 1) (take_line n (fst (cons_abs ?t))) (length (take_line n (fst (cons_abs ?t)))) ?t s'"
          "take_line n (fst (cons_abs ?t)) = [] \<or> unat (dst + 1) + length (take_line n (fst (cons_abs ?t))) \<le> unat MAXVA"
          using Suc.IH [of ?t "dst + 1"] ct m(2) Suc.prems(2,4,5) by (auto simp: Let_def)
        have "?t\<lparr>pmem := m', cons_r := cons_r s'\<rparr> = s\<lparr>pmem := m', cons_r := cons_r s'\<rparr>"
          using g(2) by (intro dstate.equality) simp_all
        moreover note stored_Cons [OF st IH(7) m(4) IH(8)]
        moreover note read_end_Cons [OF IH(5) False]
        ultimately show ?thesis using l False c4 g(4,5) ct(2,3) IH(1-4,6)
          by (intro exI [of _ r] exI [of _ s'] exI [of _ m']) (simp add: Let_def read_end_curproc [of ?t s])
      qed
    qed
  qed
qed

lemma uart_steps_inv: "uart_step\<^sup>*\<^sup>* x y \<Longrightarrow> uart_inv x \<Longrightarrow> uart_inv y"
  by (induction rule: rtranclp_induct) (blast intro: uart_step_inv)+

section \<open>Properties\<close>

text \<open>
  Claim C24. Serial output keeps its order. However writers, the interrupt handler and kernel messages
  interleave, the bytes accepted by \<^verbatim>\<open>uartputc\<close> are, in order, the bytes that left the ring for the device
  followed by the at most 32 bytes in the ring; and a process sleeps in \<^verbatim>\<open>uartputc\<close> only while the ring is full.
\<close>

theorem uart_in_order:
  assumes "tx_ok s0" "tx_contents s0 = []" "no_sleeper ChUart s0" "uart_step\<^sup>*\<^sup>* (s0, [], []) (s, W, D)"
  shows "W = D @ tx_contents s \<and> length (tx_contents s) \<le> UART_TX_BUF_SIZE \<and>
    (no_sleeper ChUart s \<or> length (tx_contents s) = UART_TX_BUF_SIZE)"
proof -
  have "uart_inv (s0, [], [])" using assms(1-3) by (simp add: uart_inv_def)
  from uart_steps_inv [OF assms(4) this] show ?thesis using uq.bounded by (auto simp: uart_inv_def)
qed

theorem uart_in_order_witness:
  "\<exists>(s :: kstate) D. uart_step\<^sup>*\<^sup>* (boot_kernel, [], []) (s, [65], D) \<and> [65] = D @ tx_contents s"
proof -
  have b: "tx_ok boot_kernel" "tx_contents boot_kernel = []" "\<not> panicked boot_kernel"
    by (simp_all add: boot_defs tx_ok_def tx_contents_def ring_ok_def ring_contents_def)
  then have "uartputc 65 boot_kernel = Ok (uartstart (uart_tx_put 65 boot_kernel))"
    using tx_full_iff [OF b(1)] by (simp add: uartputc_def UART_TX_BUF_SIZE_def)
  from uart_step.putc [OF this, of "[]" "[]"] obtain s :: kstate and D where "uart_step\<^sup>*\<^sup>* (boot_kernel, [], []) (s, [65], D)"
    by fastforce
  then show ?thesis using uart_in_order [OF b(1,2) boot_no_sleeper] by blast
qed


definition console_demo :: kstate where
  "console_demo = boot_kernel\<lparr>uart_lsr := replicate 2000 True\<rparr>"


text \<open>
  Claim C25. \<^verbatim>\<open>consoleread\<close> delivers finished lines. It copies to the user the bytes of finished lines up to a newline,
  an end-of-file mark or the number asked for, leaves the rest and the line being typed alone, sleeps exactly
  when it needs more and there is none, and takes an end-of-file mark only as a read of zero bytes.
\<close>

theorem console_read:
  assumes "cons_ok s" "vm_ok R G s ps" "is_root G (p_pagetable (curproc s))" "p_pagetable (curproc s) \<in> R"
    and "\<And>i. i < nat n \<Longrightarrow> cur_byte (dst + of_nat i) s \<noteq> None"
  defines "bs \<equiv> take_line (nat n) (fst (cons_abs s))"
  shows "\<exists>r s'. consoleread True dst n s = (r, s') \<and> cons_ok s' \<and> copyin (p_pagetable (curproc s)) dst (length bs) s' = (0, bs) \<and>
    snd (cons_abs s') = snd (cons_abs s) \<and>
    read_end (nat n) (nat n) dst bs (drop (length bs) (fst (cons_abs s))) (fst (cons_abs s')) s r"
proof -
  obtain r s' where "consoleread_loop True (nat n) dst (nat n) s = (r, s')" "cons_ok s'" "snd (cons_abs s') = snd (cons_abs s)"
      "read_end (nat n) (nat n) dst bs (drop (length bs) (fst (cons_abs s))) (fst (cons_abs s')) s r"
      "stored R G (p_pagetable (curproc s)) dst bs (length bs) s s'" "bs = [] \<or> unat dst + length bs \<le> unat MAXVA"
    using consoleread_loop_run [OF assms(1) order_refl assms(2-5)] unfolding bs_def Let_def by blast
  then show ?thesis using ubytes_copyin [OF stored_ubytes] assms(3,4) by (fastforce simp: consoleread_def)
qed

definition console_input :: kstate where
  "console_input = boot_kernel\<lparr>cons_buf := [104, 105, 10] @ replicate 125 0, cons_w := 3, cons_e := 3\<rparr>"

theorem console_read_witness:
  "\<exists>s'. consoleread True 100 50 console_input = (Return 3, s') \<and> copyin 0x80002000 100 3 s' = (0, [104, 105, 10])"
proof -
  have f: "fst (cons_abs console_input) = [104, 105, 10]" "cons_ok console_input"
    by (simp_all add: console_input_def boot_defs cons_ok_def cons_abs_def ring_contents_def INPUT_BUF_def upt_rec)
  have p: "p_pagetable (curproc console_input) = 0x80002000" "pmem console_input = pmem boot_kernel"
      "freelist console_input = freelist boot_kernel" "kend console_input = kend boot_kernel"
    using boot_curproc by (simp_all add: console_input_def curproc_def cur_def myproc_def)
  have v: "vm_ok {0x80002000} user_owners console_input []" using boot_vm vm_ok_mach [OF p(2-4)] by simp
  have m: "cur_byte (100 + of_nat i) console_input \<noteq> None" if "i < nat 50" for i
  proof -
    have "cur_byte (100 + of_nat i) boot_kernel \<noteq> None" by (rule boot_byte) (use that in \<open>auto simp: word_less_nat_alt unat_word_ariths\<close>)
    then show ?thesis using ubyte_pmem [OF p(2)] p(1) by (simp add: cur_byte_def)
  qed
  have t: "take_line 50 [104, 105, 10] = [104, 105, 10]"
  proof -
    have e: "(50 :: nat) = Suc (Suc (Suc 47))" by simp
    show ?thesis unfolding e take_line.simps by simp
  qed
  show ?thesis using console_read [of console_input "{0x80002000}" user_owners "[]" 50 100, OF f(2) v _ _ m] user_vm_root p(1)
    by (auto simp: f(1) t read_end_def numeral_3_eq_3 simp del: take_line.simps)
qed

end
