(* ===== verification/Printfmt.thy ===== *)
theory Printfmt
  imports Lineedit
begin

text \<open>
  Numbers printed by \<^verbatim>\<open>printint\<close> of \<^verbatim>\<open>kernel/printf.c\<close>: they fit into the buffer and read back as the
  number that was printed.
\<close>

section \<open>Reading numerals\<close>

definition digit_val :: "uchar \<Rightarrow> nat" where
  "digit_val c = (if c < 58 then unat c - 48 else unat c - 87)"

definition num_val :: "nat \<Rightarrow> uchar list \<Rightarrow> nat" where
  "num_val base cs = foldl (\<lambda>n c. base * n + digit_val c) 0 cs"

definition int_val :: "nat \<Rightarrow> uchar list \<Rightarrow> int" where
  "int_val base cs = (if cs \<noteq> [] \<and> hd cs = 45 then - int (num_val base (tl cs)) else int (num_val base cs))"

lemma num_val_snoc: "num_val base (cs @ [c]) = base * num_val base cs + digit_val c"
  by (simp add: num_val_def)

section \<open>Printing numerals\<close>

lemma digit_table:
  assumes "d < 16"
  shows "digit_val (digits ! d) = d" "digits ! d \<noteq> 45"
proof -
  have "list_all (\<lambda>d. digit_val (digits ! d) = d \<and> digits ! d \<noteq> 45) [0..<16]"
    by (simp add: upt_rec digits_def bytes_def digit_val_def)
  with assms show "digit_val (digits ! d) = d" "digits ! d \<noteq> 45" by (auto simp: list_all_iff)
qed

lemma print_digits_val: "2 \<le> base \<Longrightarrow> base \<le> 16 \<Longrightarrow> num_val base (rev (print_digits base x)) = x"
proof (induction base x rule: print_digits.induct)
  case (1 base x)
  have "x mod base < 16" using "1.prems" mod_less_divisor [of base x] by linarith
  note dt = digit_table(1) [OF this]
  show ?case
  proof (cases "x div base = 0")
    case True
    then show ?thesis using dt "1.prems" by (subst print_digits.simps) (simp add: num_val_def div_eq_0_iff)
  next
    case False
    then have "num_val base (rev (print_digits base (x div base))) = x div base" using "1.IH" "1.prems" by simp
    then show ?thesis using False dt "1.prems" by (subst print_digits.simps) (simp add: num_val_snoc)
  qed
qed

lemma print_digits_no_sign: "2 \<le> base \<Longrightarrow> base \<le> 16 \<Longrightarrow> 45 \<notin> set (print_digits base x)"
proof (induction base x rule: print_digits.induct)
  case (1 base x)
  have "x mod base < 16" using "1.prems" mod_less_divisor [of base x] by linarith
  with digit_table(2) [of "x mod base"] 1 show ?case by (subst print_digits.simps) auto
qed

lemma print_digits_length: "2 \<le> base \<Longrightarrow> x < base ^ Suc k \<Longrightarrow> length (print_digits base x) \<le> Suc k"
proof (induction k arbitrary: x)
  case 0
  then show ?case by (subst print_digits.simps) (simp add: div_eq_0_iff)
next
  case (Suc k)
  have "x div base < base ^ Suc k" using Suc.prems by (simp add: less_mult_imp_div_less mult.commute)
  with Suc show ?case by (subst print_digits.simps) simp
qed

lemma print_digits_Nil [simp]: "print_digits base x \<noteq> []"
  by (subst print_digits.simps) simp

lemma sint_cases:
  fixes x :: uint
  shows "sint x < 0 \<Longrightarrow> int (unat (- x)) = - sint x" "0 \<le> sint x \<Longrightarrow> int (unat x) = sint x"
proof -
  have b: "sint x < 2147483648" "- 2147483648 \<le> sint x" using sint_lt [of x] sint_ge [of x] by simp_all
  show "int (unat x) = sint x" if "0 \<le> sint x"
    using that b(1) by (simp add: uint_sint take_bit_int_eq_self)
  show "int (unat (- x)) = - sint x" if "sint x < 0"
  proof -
    have e: "- x = of_int (- sint x)" by simp
    have "uint (- x) = take_bit 32 (- sint x)" by (subst e) (simp only: unsigned_of_int, simp)
    also have "\<dots> = - sint x" using that b(2) by (intro take_bit_int_eq_self) simp_all
    finally show ?thesis by simp
  qed
qed

section \<open>The property\<close>

text \<open>
  Claim C26. Printed numbers are right and fit. For both bases the kernel's \<^verbatim>\<open>printf\<close> uses, the digits that
  \<^verbatim>\<open>printint\<close> puts into its buffer, taken backwards as it prints them, are a numeral for the signed argument, also for
  the most negative one; the buffer of 16 bytes is never overrun.
\<close>

theorem printint_reads_back:
  assumes "base = 10 \<or> base = 16"
  shows "int_val base (rev (printint_buf xx base True)) = sint xx \<and> length (printint_buf xx base True) \<le> 16"
proof
  let ?x = "if sint xx < 0 then - xx else xx"
  have base: "2 \<le> base" "base \<le> 16" using assms by auto
  have ds: "hd (rev (print_digits base (unat ?x))) \<noteq> 45"
    using print_digits_no_sign [OF base, of "unat ?x"] by (metis hd_in_set print_digits_Nil rev_is_Nil_conv set_rev)
  show "int_val base (rev (printint_buf xx base True)) = sint xx"
    using ds sint_cases [of xx] print_digits_val [OF base] by (cases "sint xx < 0") (simp_all add: printint_buf_def int_val_def Let_def)
  have "unat ?x < base ^ Suc 9" using unat32_bound [of ?x] assms by auto
  from print_digits_length [OF base(1) this] show "length (printint_buf xx base True) \<le> 16"
    by (simp add: printint_buf_def Let_def split: if_splits)
qed

theorem printint_reads_back_witness:
  "int_val 10 (rev (printint_buf 0x80000000 10 True)) = - 2147483648"
  using printint_reads_back [of 10 "0x80000000"] by simp

end
