(* ===== verification/Packets.thy ===== *)
theory Packets
  imports Bootstate
begin

text \<open>
  Packets that \<^verbatim>\<open>kernel/net.c\<close> sends are packets that it accepts: the checksum of the Internet protocol verifies,
  and the headers that the transmit routines push are the ones the receive routines pull.
\<close>

section \<open>The checksum\<close>

fun word_sum :: "uchar list \<Rightarrow> nat" where
  "word_sum (b # c # bs) = unat b + 256 * unat c + word_sum bs"
| "word_sum [b] = unat b"
| "word_sum [] = 0"

definition fold16 :: "nat \<Rightarrow> nat" where
  "fold16 n = (let x = n mod 65536 + n div 65536 in if x < 65536 then x else x - 65535)"

lemma unat_of_le2: "unat (of_le [b, c] :: ushort) = unat b + 256 * unat c"
proof -
  have "push_bit 8 (ucast c :: ushort) AND ucast b = 0"
    by (rule bit_word_eqI) (auto simp: bit_simps dest: bit_imp_le_length)
  then have "of_le [b, c] = ucast b + push_bit 8 (ucast c :: ushort)"
    by (simp add: disjunctive_add [symmetric] ac_simps bit_eq_iff bit_simps) 
  moreover have "unat (push_bit 8 (ucast c :: ushort)) = 256 * unat c"
    using unsigned_less [of c, where 'a = nat] by (simp add: push_bit_eq_mult unat_word_ariths unsigned_ucast_eq take_bit_nat_eq_self)
  ultimately show ?thesis
    using unsigned_less [of c, where 'a = nat] unsigned_less [of b, where 'a = nat]
    by (simp add: unat_word_ariths unsigned_ucast_eq take_bit_nat_eq_self)
qed

lemma in_cksum_sum_word_sum: "in_cksum_sum bs acc = acc + of_nat (word_sum bs)"
proof (induction bs acc rule: in_cksum_sum.induct)
  case (1 b c bs acc)
  have "ucast (of_le [b, c] :: ushort) = (of_nat (unat b + 256 * unat c) :: uint)"
    by (metis unat_of_le2 of_nat_unat)
  then show ?case using 1 by (simp add: algebra_simps)
qed simp_all

lemma fold16_le: "n < 4294967296 \<Longrightarrow> fold16 n \<le> 65535"
proof -
  have f: "(if a + b < 65536 then a + b else a + b - 65535) \<le> (65535 :: nat)" if "a < 65536" "b < 65536" for a b
    using that by auto
  assume "n < 4294967296"
  then have "n div 65536 < 65536" by (simp add: less_mult_imp_div_less)
  with f [of "n mod 65536" "n div 65536"] show ?thesis unfolding fold16_def Let_def by simp
qed

lemma fold16_mod: "fold16 n mod 65535 = n mod 65535"
proof -
  let ?x = "n mod 65536 + n div 65536"
  have "n = ?x + 65535 * (n div 65536)" using div_mult_mod_eq [of n 65536] by linarith
  then have x: "?x mod 65535 = n mod 65535" by (metis mod_mult_self2)
  show ?thesis
  proof (cases "?x < 65536")
    case False
    then have "(?x - 65535) mod 65535 = ?x mod 65535" by (simp add: le_mod_geq [symmetric])
    then show ?thesis using False x by (simp add: fold16_def Let_def)
  qed (use x in \<open>simp add: fold16_def Let_def\<close>)
qed

lemma fold16_pos: "0 < n \<Longrightarrow> 0 < fold16 n"
proof -
  assume "0 < n"
  then have "0 < n mod 65536 + n div 65536" by (metis add_is_0 div_mult_mod_eq gr0I less_numeral_extra(3) mult_0)
  then show ?thesis by (auto simp: fold16_def Let_def)
qed

lemma fold16_complement:
  assumes "n < 4294900000"
  shows "fold16 (n + (65535 - fold16 n)) = 65535"
proof -
  let ?m = "n + (65535 - fold16 n)"
  have f: "fold16 n \<le> 65535" using fold16_le [of n] assms by simp
  have "(n + 65535) mod 65535 = fold16 n mod 65535" by (simp add: fold16_mod)
  then have "65535 dvd n + 65535 - fold16 n" using f by (metis le_add2 le_trans mod_eq_dvd_iff_nat)
  then have "?m mod 65535 = 0" using f by simp
  then have "fold16 ?m mod 65535 = 0" by (simp add: fold16_mod)
  moreover have "0 < ?m"
  proof (cases "n = 0")
    case True
    then show ?thesis by (simp add: fold16_def)
  qed simp
  moreover have "fold16 ?m \<le> 65535" using assms by (intro fold16_le) linarith
  ultimately show ?thesis using fold16_pos [of ?m] by (metis dvd_imp_le le_antisym mod_0_imp_dvd)
qed

lemma unat_high16: "unat (drop_bit 16 w) = unat w div 65536" for w :: uint
  unfolding unat_drop_bit_eq by (simp add: drop_bit_eq_div)

lemma unat_not16: "unat (NOT w) = 65535 - unat w" for w :: ushort
proof -
  have "NOT w = - 1 - w" by (simp add: not_eq_complement)
  then show ?thesis by (simp add: unat_sub unsigned_minus_1_eq_mask mask_eq_exp_minus_1)
qed

lemma in_cksum_fold16:
  assumes "word_sum bs < 4294967296"
  shows "unat (in_cksum bs) = 65535 - fold16 (word_sum bs)"
proof -
  let ?n = "word_sum bs"
  let ?s = "of_nat ?n :: uint"
  have u: "unat ?s = ?n" using assms by (simp add: unsigned_of_nat take_bit_nat_eq_self)
  have h: "unat (drop_bit 16 ?s) = ?n div 65536" by (simp only: unat_high16 u)
  have l: "unat (?s AND 0xffff) = ?n mod 65536"
  proof -
    have "(0xffff :: uint) = mask 16" by (simp add: mask_numeral)
    then have "unat (?s AND 0xffff) = take_bit 16 (unat ?s)" by (simp only: unsigned_take_bit_eq flip: take_bit_eq_mask)
    then show ?thesis unfolding u by (simp add: take_bit_eq_mod)
  qed
  let ?t = "(?s AND 0xffff) + drop_bit 16 ?s"
  have hb: "?n div 65536 < 65536" using assms by (simp add: less_mult_imp_div_less)
  have t: "unat ?t = ?n mod 65536 + ?n div 65536"
    using h l hb by (simp add: unat_word_ariths)
  have d: "unat (drop_bit 16 ?t) = unat ?t div 65536" by (rule unat_high16)
  let ?u = "?t + drop_bit 16 ?t"
  have tb: "unat ?t \<le> 131070" unfolding t using hb mod_less_divisor [of 65536 ?n] by linarith
  have u: "unat ?u = unat ?t + unat ?t div 65536" using tb d by (simp add: unat_word_ariths)
  have "unat ?u mod 65536 = fold16 ?n"
  proof (cases "unat ?t < 65536")
    case False
    then have "unat ?t div 65536 = 1" using tb by (intro div_nat_eqI) auto
    moreover have "(unat ?t + 1) mod 65536 = unat ?t - 65535" using False tb by (simp add: le_mod_geq)
    ultimately show ?thesis using False u unfolding fold16_def Let_def t [symmetric] by simp
  qed (use u in \<open>simp add: fold16_def t flip: t\<close>)
  moreover have "in_cksum bs = NOT (ucast ?u)" by (simp add: in_cksum_def in_cksum_sum_word_sum Let_def)
  moreover have "unat (ucast ?u :: ushort) = unat ?u mod 65536" by (simp add: unsigned_ucast_eq take_bit_eq_mod)
  ultimately show ?thesis by (simp only: unat_not16)
qed

lemma word_sum_append: "even (length a) \<Longrightarrow> word_sum (a @ b) = word_sum a + word_sum b"
  by (induction a rule: word_sum.induct) simp_all

lemma word_sum_le2: "word_sum (le_bytes 2 v) = unat v" for v :: ushort
proof -
  obtain b c where v: "le_bytes 2 v = [b, c]" using that by (simp add: le_bytes_def upt_rec)
  then have "v = of_le [b, c]" by (simp flip: v)
  then have "unat v = unat b + 256 * unat c" by (simp only: unat_of_le2)
  then show ?thesis by (simp add: v)
qed

lemma word_sum_bound: "word_sum bs \<le> 65535 * length bs"
proof (induction bs rule: word_sum.induct)
  case (1 b c bs)
  then show ?case using unsigned_less [of b, where 'a = nat] unsigned_less [of c, where 'a = nat] by simp
next
  case (2 b)
  then show ?case using unsigned_less [of b, where 'a = nat] by simp
qed simp

lemma in_cksum_verifies:
  assumes "even (length a)" "length a + length b \<le> 1000"
  shows "in_cksum (a @ le_bytes 2 (in_cksum (a @ le_bytes 2 (0 :: ushort) @ b)) @ b) = 0"
proof -
  let ?z = "a @ le_bytes 2 (0 :: ushort) @ b" and ?n = "word_sum a + word_sum b"
  let ?c = "in_cksum ?z"
  have z: "word_sum (a @ le_bytes 2 v @ b) = ?n + unat v" for v :: ushort
    using assms(1) by (simp add: word_sum_append word_sum_le2)
  have n: "?n < 4294900000" using word_sum_bound [of a] word_sum_bound [of b] assms(2) by linarith
  have c: "unat ?c = 65535 - fold16 ?n" using in_cksum_fold16 [of ?z] n z [of 0] by simp
  have "unat (in_cksum (a @ le_bytes 2 ?c @ b)) = 65535 - fold16 (?n + (65535 - fold16 ?n))"
    using in_cksum_fold16 [of "a @ le_bytes 2 ?c @ b"] n z [of ?c] c by simp
  then have "unat (in_cksum (a @ le_bytes 2 ?c @ b)) = 0" using fold16_complement [OF n] by simp
  then show ?thesis by (simp add: unat_eq_zero)
qed

lemma in_cksum_stored:
  assumes "h + 20 \<le> length d" "getb d (h + 10) 2 = [0, 0]"
  shows "in_cksum (getb (put16 d (h + 10) (in_cksum (getb d h 20))) h 20) = 0"
proof -
  let ?a = "getb d h 10" and ?b = "getb d (h + 12) 8"
  have g: "getb e h 20 = getb e h 10 @ getb e (h + 10) 2 @ getb e (h + 12) 8" for e :: block
    using take_add [of 10 "2 + 8" "drop h e"] take_add [of 2 8 "drop (h + 10) e"] by (simp add: getb_def add.commute)
  have z: "le_bytes 2 (0 :: ushort) = [0, 0]" by (simp add: le_bytes_def upt_rec)
  have "getb (put16 d (h + 10) v) h 20 = ?a @ le_bytes 2 v @ ?b" for v
    unfolding g [of "put16 d (h + 10) v"] using assms(1) by (simp add: put16_def getb_putb_other)
  then show ?thesis using in_cksum_verifies [of ?a ?b] assms unfolding g [of d] z by simp
qed

section \<open>Headers\<close>

lemma getb_getb: "k + n \<le> N \<Longrightarrow> getb (getb d h N) k n = getb d (h + k) n"
  by (simp add: getb_def drop_take min_def add.commute)

lemma getb_putb_sub: "off + length bs \<le> length d \<Longrightarrow> k + n \<le> length bs \<Longrightarrow> getb (putb d off bs) (off + k) n = getb bs k n"
  by (intro nth_equalityI) (auto simp: nth_getb nth_putb)

text \<open>Bytes outside \<open>[a, b)\<close> are as before.\<close>

definition outside :: "nat \<Rightarrow> nat \<Rightarrow> block \<Rightarrow> block \<Rightarrow> bool" where
  "outside a b d d' \<longleftrightarrow> length d' = length d \<and>
    (\<forall>k n. k + n \<le> length d \<longrightarrow> k + n \<le> a \<or> b \<le> k \<longrightarrow> getb d' k n = getb d k n)"

lemma outside_refl [simp]: "outside a b d d"
  by (simp add: outside_def)

lemma outside_putb: "outside a b d e \<Longrightarrow> a \<le> k \<Longrightarrow> k + length bs \<le> b \<Longrightarrow> b \<le> length d \<Longrightarrow> outside a b d (putb e k bs)"
  by (auto simp: outside_def getb_putb_other)

lemma outsideD: "outside a b d d' \<Longrightarrow> k + n \<le> length d \<Longrightarrow> k + n \<le> a \<or> b \<le> k \<Longrightarrow> getb d' k n = getb d k n"
  by (auto simp: outside_def)

lemma outside_length: "outside a b d d' \<Longrightarrow> length d' = length d"
  by (simp add: outside_def)

lemmas field_defs = get16_def get32_def put16_def put32_def

lemma outside_eth: "h + 14 \<le> length d \<Longrightarrow> outside h (h + 14) d (eth_header h t d)"
  unfolding eth_header_def field_defs by (intro outside_putb outside_refl) (auto simp: local_mac_def broadcast_mac_def)

lemma outside_udp: "h + 8 \<le> length d \<Longrightarrow> outside h (h + 8) d (udp_header h sp dp len d)"
  unfolding udp_header_def Let_def field_defs by (intro outside_putb outside_refl) auto

lemma outside_ip: "h + 20 \<le> length d \<Longrightarrow> outside h (h + 20) d (ip_header h pr dip len d)"
  unfolding ip_header_def Let_def field_defs by (intro outside_putb outside_refl) auto

lemma eth_header_type: "h + 14 \<le> length d \<Longrightarrow> getb (eth_header h t d) (h + 12) 2 = le_bytes 2 (bswaps t)"
  by (simp add: eth_header_def field_defs local_mac_def broadcast_mac_def)

lemma udp_header_fields:
  assumes "h + 8 \<le> length d"
  shows "getb (udp_header h sp dp len d) h 2 = le_bytes 2 (bswaps sp)"
    "getb (udp_header h sp dp len d) (h + 2) 2 = le_bytes 2 (bswaps dp)"
    "getb (udp_header h sp dp len d) (h + 4) 2 = le_bytes 2 (bswaps (ucast len))"
  using assms by (simp_all add: udp_header_def Let_def field_defs getb_putb_other)

lemma ip_header_fields:
  assumes "h + 20 \<le> length d"
  shows "getb (ip_header h pr dip len d) h 1 = [IP_VHL]"
    "getb (ip_header h pr dip len d) (h + 2) 2 = le_bytes 2 (bswaps (ucast len))"
    "getb (ip_header h pr dip len d) (h + 6) 2 = [0, 0]"
    "getb (ip_header h pr dip len d) (h + 9) 1 = [pr]"
    "getb (ip_header h pr dip len d) (h + 12) 4 = le_bytes 4 (bswapl local_ip)"
    "getb (ip_header h pr dip len d) (h + 16) 4 = le_bytes 4 (bswapl dip)"
  using assms by (simp_all add: ip_header_def Let_def field_defs getb_putb_other getb_putb_sub) (simp_all add: getb_def numeral_2_eq_2)

lemma ip_header_cksum:
  assumes "h + 20 \<le> length d"
  shows "in_cksum (getb (ip_header h pr dip len d) h 20) = 0"
  unfolding ip_header_def Let_def
  by (rule in_cksum_stored) (use assms in \<open>simp_all add: field_defs getb_putb_other getb_putb_sub\<close>, simp add: getb_def numeral_2_eq_2)

section \<open>Frames\<close>

text \<open>A well-formed frame: an Ethernet frame with an Internet-protocol packet that carries the datagram \<open>p\<close>.\<close>

definition udp_frame :: "uint \<Rightarrow> uint \<Rightarrow> ushort \<Rightarrow> ushort \<Rightarrow> uchar list \<Rightarrow> uchar list \<Rightarrow> bool" where
  "udp_frame sip dip sport dport p f \<longleftrightarrow>
    length f = 42 + length p \<and> get16 f 12 = bswaps ETHTYPE_IP \<and>
    getb f 14 1 = [IP_VHL] \<and> in_cksum (getb f 14 20) = 0 \<and> get16 f 16 = bswaps (of_nat (28 + length p)) \<and>
    get16 f 20 = 0 \<and> getb f 23 1 = [IPPROTO_UDP] \<and> get32 f 26 = bswapl sip \<and> get32 f 30 = bswapl dip \<and>
    get16 f 34 = bswaps sport \<and> get16 f 36 = bswaps dport \<and> get16 f 38 = bswaps (of_nat (8 + length p)) \<and>
    getb f 42 (length p) = p"

definition m_data :: "mbuf \<Rightarrow> uchar list" where
  "m_data x = getb (m_buf x) (nat (m_head x)) (unat (m_len x))"

definition mbuf_ok :: "nat \<Rightarrow> mbuf \<Rightarrow> bool" where
  "mbuf_ok room x \<longleftrightarrow> length (m_buf x) = MBUF_ROOM \<and> int room \<le> m_head x \<and> nat (m_head x) + unat (m_len x) \<le> MBUF_ROOM"

definition udp_bytes :: "nat \<Rightarrow> uint \<Rightarrow> ushort \<Rightarrow> ushort \<Rightarrow> uint \<Rightarrow> uchar list \<Rightarrow> uchar list" where
  "udp_bytes e dip sport dport len d =
    eth_header e ETHTYPE_IP (ip_header (e + 14) IPPROTO_UDP dip (len + 28) (udp_header (e + 34) sport dport (len + 8) d))"

lemma ucast_len:
  fixes len k :: uint
  assumes "unat len \<le> 4096" "unat k \<le> 4096"
  shows "ucast (len + k) = (of_nat (unat k + unat len) :: ushort)"
proof -
  have n: "unat (len + k) = unat k + unat len" using assms by (simp add: unat_word_ariths)
  have "ucast (len + k) = (of_nat (unat (len + k)) :: ushort)" by (rule of_nat_unat [symmetric])
  then show ?thesis unfolding n .
qed

lemma udp_bytes_frame:
  assumes "e + 42 + unat len \<le> length d" "length d \<le> 4096"
  shows "udp_frame local_ip dip sport dport (getb d (e + 42) (unat len)) (getb (udp_bytes e dip sport dport len d) e (42 + unat len))"
proof -
  let ?u = "udp_header (e + 34) sport dport (len + 8) d"
  let ?i = "ip_header (e + 14) IPPROTO_UDP dip (len + 28) ?u"
  let ?f = "eth_header e ETHTYPE_IP ?i"
  have u: "outside (e + 34) (e + 42) d ?u" using outside_udp [of "e + 34" d sport dport "len + 8"] assms(1) by (simp add: add.commute)
  note lu = outside_length [OF u]
  have i: "outside (e + 14) (e + 34) ?u ?i" using outside_ip [of "e + 14" ?u IPPROTO_UDP dip "len + 28"] assms(1) lu by (simp add: add.commute)
  note li = outside_length [OF i]
  have f: "outside e (e + 14) ?i ?f" using outside_eth [of e ?i] assms(1) lu li by simp
  note lf = outside_length [OF f]
  have fi: "getb ?f (e + k) n = getb ?i (e + k) n" if "14 \<le> k" "k + n \<le> 42 + unat len" for k n
    using outsideD [OF f, of "e + k" n] that assms(1) lu li by simp
  have iu: "getb ?i (e + k) n = getb ?u (e + k) n" if "34 \<le> k" "k + n \<le> 42 + unat len" for k n
    using outsideD [OF i, of "e + k" n] that assms(1) lu by simp
  have ud: "getb ?u (e + k) n = getb d (e + k) n" if "42 \<le> k" "k + n \<le> 42 + unat len" for k n
    using outsideD [OF u, of "e + k" n] that assms(1) by simp
  have len: "ucast (len + 28) = (of_nat (28 + unat len) :: ushort)" "ucast (len + 8) = (of_nat (8 + unat len) :: ushort)"
    using ucast_len [of len 28] ucast_len [of len 8] assms by simp_all
  have k: "e + 34 + 2 = e + 36" "e + 14 + 2 = e + 16" by simp_all
  note ipf = ip_header_fields [of "e + 14" ?u IPPROTO_UDP dip "len + 28", unfolded k]
    and udpf = udp_header_fields [of "e + 34" d sport dport "len + 8", unfolded k]
  show ?thesis
    unfolding udp_frame_def udp_bytes_def field_defs
    using assms lu li lf ipf udpf ip_header_cksum [of "e + 14" ?u IPPROTO_UDP dip "len + 28"] eth_header_type [of e ?i ETHTYPE_IP]
    by (simp add: getb_getb fi iu ud len add.assoc)
qed

end
