(* ===== verification/Udp.thy ===== *)
theory Udp
  imports Packets
begin

text \<open>
  Datagrams on their way through the kernel: from \<^verbatim>\<open>net_tx_udp\<close> to the descriptor ring of the device, and from
  \<^verbatim>\<open>net_rx\<close> to the queue of a socket.
\<close>

section \<open>Transmission\<close>

lemma get_mbuf_set [simp]: "get_mbuf m (set_mbuf m x s) = Ok x"
  by (simp add: get_mbuf_def set_mbuf_def)

lemma mbufs_set_mbuf [simp]: "mbufs (set_mbuf m x s) = (mbufs s)(m \<mapsto> x)"
  by (simp add: set_mbuf_def)

lemma set_mbuf_set [simp]: "set_mbuf m x (set_mbuf m y s) = set_mbuf m x s"
  by (simp add: set_mbuf_def)

lemma mbufpush_ok:
  "uint n \<le> m_head x \<Longrightarrow>
    mbufpush n x = Ok (m_head x - uint n, x\<lparr>m_head := m_head x - uint n, m_len := m_len x + n\<rparr>)"
  by (simp add: mbufpush_def Let_def)

definition tx_slot :: "'a nstate_scheme \<Rightarrow> nat" where
  "tx_slot s = unat (e1000_regs s E1000_TDT)"

definition udp_mbuf :: "uint \<Rightarrow> ushort \<Rightarrow> ushort \<Rightarrow> mbuf \<Rightarrow> mbuf" where
  "udp_mbuf dip sport dport x = x\<lparr>m_head := m_head x - 42, m_len := m_len x + 42,
    m_buf := udp_bytes (nat (m_head x - 42)) dip sport dport (m_len x) (m_buf x)\<rparr>"

lemma net_tx_udp_transmit:
  assumes "mbufs s m = Some x" "mbuf_ok 42 x"
  shows "net_tx_udp m dip sport dport s =
    bindr (e1000_transmit m (set_mbuf m (udp_mbuf dip sport dport x) s)) (\<lambda>(r, s). if r \<noteq> 0 then mbuffree m s else Ok s)"
proof -
  let ?e = "nat (m_head x - 42)"
  have h: "42 \<le> m_head x" using assms(2) by (simp add: mbuf_ok_def)
  then have n: "nat (m_head x - 8) = ?e + 34" "nat (m_head x - 28) = ?e + 14" by auto
  show ?thesis using assms(1) h
    by (simp add: net_tx_udp_def net_tx_ip_def net_tx_eth_def get_mbuf_def [of m s] mbufpush_ok udp_mbuf_def udp_bytes_def n add.assoc)
qed

lemma mbuffree_ok:
  assumes "page_ok (kend s) p"
  obtains P F where "mbuffree p s = Ok (s\<lparr>pmem := P, freelist := F, mbufs := (mbufs s)(p := None)\<rparr>)"
proof -
  have "\<not> (\<exists>e. kfree p s = Panic e)" using assms by (simp add: kfree_panics)
  then obtain s' where k: "kfree p s = Ok s'" by (auto simp: kfree_def Let_def split: if_splits)
  then obtain P F where "s' = s\<lparr>pmem := P, freelist := F\<rparr>" using kfree_frame by blast
  then show thesis using that k by (simp add: mbuffree_def)
qed

text \<open>The device is done with the descriptor at the tail, and the buffer sent with it before may be freed.\<close>

definition tx_ready :: "uint64 \<Rightarrow> 'a nstate_scheme \<Rightarrow> bool" where
  "tx_ready m s \<longleftrightarrow> tx_slot s < TX_RING_SIZE \<and> length (tx_ring s) = TX_RING_SIZE \<and> length (tx_mbufs s) = TX_RING_SIZE \<and>
    tx_status (tx_ring s ! tx_slot s) AND E1000_TXD_STAT_DD \<noteq> 0 \<and>
    (let old = tx_mbufs s ! tx_slot s in old = 0 \<or> old \<noteq> m \<and> page_ok (kend s) old)"

text \<open>The driver handed the buffer's data to the device: the descriptor names them and the tail is past it.\<close>

definition handed_over :: "uint64 \<Rightarrow> mbuf \<Rightarrow> 'a nstate_scheme \<Rightarrow> 'a nstate_scheme \<Rightarrow> bool" where
  "handed_over m x s s' \<longleftrightarrow> (let i = tx_slot s; desc = tx_ring s' ! i in
    mbufs s' m = Some x \<and> tx_mbufs s' ! i = m \<and> tx_addr desc = head_addr m x \<and> tx_length desc = ucast (m_len x) \<and>
    tx_cmd desc AND E1000_TXD_CMD_EOP \<noteq> 0 \<and> tx_slot s' = (i + 1) mod TX_RING_SIZE)"

lemma e1000_transmit_ok:
  assumes "mbufs s m = Some x" "m_next x = 0" "tx_ready m s"
  obtains s' where "e1000_transmit m s = Ok (0, s')" "handed_over m x s s'"
proof -
  let ?i = "tx_slot s"
  let ?s = "if tx_mbufs s ! ?i \<noteq> 0 then mbuffree (tx_mbufs s ! ?i) s else Ok s"
  obtain P F M where f: "?s = Ok (s\<lparr>pmem := P, freelist := F, mbufs := M\<rparr>)" "M m = Some x"
  proof (cases "tx_mbufs s ! ?i = 0")
    case True
    then show ?thesis using that [of "mbufs s" "freelist s" "pmem s"] assms(1) by simp
  next
    case False
    then have "page_ok (kend s) (tx_mbufs s ! ?i)" using assms(3) by (auto simp: tx_ready_def Let_def)
    from mbuffree_ok [OF this] obtain P F where
      "mbuffree (tx_mbufs s ! ?i) s = Ok (s\<lparr>pmem := P, freelist := F, mbufs := (mbufs s)(tx_mbufs s ! ?i := None)\<rparr>)" .
    then show ?thesis using that [of "(mbufs s)(tx_mbufs s ! ?i := None)" F P] False assms by (auto simp: tx_ready_def Let_def)
  qed
  have u: "unat (of_nat (Suc ?i mod TX_RING_SIZE) :: uint) = Suc ?i mod TX_RING_SIZE"
    by (simp add: unsigned_of_nat TX_RING_SIZE_def take_bit_eq_mod)
  show thesis
    using that assms(2,3) f u
    by (simp add: e1000_transmit_def Let_def tx_slot_def [symmetric] tx_ready_def handed_over_def get_mbuf_def set_reg_def)
      (simp add: tx_slot_def E1000_TXD_CMD_EOP_def)
qed

section \<open>Reception\<close>

lemma mbufpull_ok:
  "unat n \<le> unat (m_len x) \<Longrightarrow> mbufpull n x = (Some (m_head x), x\<lparr>m_head := m_head x + uint n, m_len := m_len x - n\<rparr>)"
  by (simp add: mbufpull_def word_less_nat_alt)

lemma m_data_get:
  assumes "0 \<le> m_head x" "k + n \<le> unat (m_len x)"
  shows "getb (m_buf x) (nat (m_head x + int k)) n = getb (m_data x) k n"
  using assms by (simp add: m_data_def getb_getb nat_add_distrib)

lemma m_data_nth:
  assumes "0 \<le> m_head x" "k < unat (m_len x)" "nat (m_head x) + unat (m_len x) \<le> length (m_buf x)"
  shows "m_buf x ! nat (m_head x + int k) = hd (getb (m_data x) k 1)"
  using assms by (simp add: m_data_def getb_def nat_add_distrib hd_drop_conv_nth take_Suc hd_conv_nth)

lemma bswaps_eq: "bswaps (get16 d k) = v" if "get16 d k = bswaps v"
  using that by simp

lemma net_rx_udp_ok:
  assumes "mbufs s m = Some y" "nat (m_head y) = h" "0 \<le> m_head y" "m_len y = 8 + of_nat n" "n \<le> 4096"
    and "bswaps (get16 (m_buf y) (h + 4)) = of_nat (8 + n)" "bswapl (get32 (m_buf y) (iphdr + 12)) = sip"
    and "bswaps (get16 (m_buf y) h) = sport" "bswaps (get16 (m_buf y) (h + 2)) = dport"
  shows "net_rx_udp m (of_nat (8 + n)) iphdr s =
    sockrecvudp m sip dport sport (set_mbuf m (y\<lparr>m_head := m_head y + 8, m_len := of_nat n\<rparr>) s)"
proof -
  have u: "unat (8 + of_nat n :: uint) = 8 + n" "unat (of_nat n :: uint) = n" "unat (of_nat n :: ushort) = n"
    using assms(5) by (simp_all add: unat_word_ariths unsigned_of_nat take_bit_nat_eq_self)
  have c: "ucast (of_nat n :: ushort) = (of_nat n :: uint)"
    by (metis u(3) of_nat_unat)
  show ?thesis using assms(1-4,6-9) u
    by (simp add: net_rx_udp_def get_mbuf_def mbufpull_ok Let_def c mbuftrim_def)
qed

lemma net_rx_frame:
  assumes "mbufs s m = Some y" "mbuf_ok 0 y" "udp_frame sip local_ip sport dport p (m_data y)"
  shows "net_rx m s = sockrecvudp m sip dport sport (set_mbuf m (y\<lparr>m_head := m_head y + 42, m_len := of_nat (length p)\<rparr>) s)"
proof -
  have y: "0 \<le> m_head y" "nat (m_head y) + unat (m_len y) \<le> length (m_buf y)" "length (m_buf y) \<le> 4096"
    using assms(2) by (simp_all add: mbuf_ok_def MBUF_ROOM_def)
  have len: "unat (m_len y) = 42 + length p" using assms(3) y by (simp add: udp_frame_def m_data_def)
  have p: "length p \<le> 4096" using len y by simp
  have L: "m_len y = 42 + of_nat (length p)"
    by (metis len of_nat_unat ucast_id of_nat_add of_nat_numeral)
  have u: "unat (28 + of_nat (length p) :: uint) = 28 + length p" "unat (42 + of_nat (length p) :: uint) = 42 + length p"
    using p by (simp_all add: unat_word_ariths unsigned_of_nat take_bit_nat_eq_self)
  let ?h = "nat (m_head y)" and ?d = "m_buf y"
  have g: "getb ?d (?h + k) n = getb (m_data y) k n" if "k + n \<le> 42 + length p" for k n
    using m_data_get [of y k n] that len y(1) by (simp add: nat_add_distrib)
  have nth: "?d ! (?h + k) = hd (getb (m_data y) k 1)" if "k < 42 + length p" for k
    using m_data_nth [of y k] that len y by (simp add: nat_add_distrib)
  have n: "nat (m_head y + 14) = ?h + 14" "nat (m_head y + 34) = ?h + 34" using y(1) by (simp_all add: nat_add_distrib)
  note fr = assms(3) [unfolded udp_frame_def field_defs]
  let ?y = "\<lambda>k l. y\<lparr>m_head := m_head y + k, m_len := l + of_nat (length p)\<rparr>"
  have eth: "net_rx m s = net_rx_ip m (set_mbuf m (?y 14 28) s)"
    using assms(1) fr by (simp add: net_rx_def get_mbuf_def [of m s] mbufpull_ok L u Let_def field_defs g)
  have k: "getb ?d (16 + ?h) 2 = getb (m_data y) 16 2" "getb ?d (36 + ?h) 2 = getb (m_data y) 36 2" "bswaps 0 = 0"
    using g [of 16 2] g [of 36 2] by (simp_all add: add.commute bswaps_def)
  have ip: "net_rx_ip m (set_mbuf m (?y 14 28) s) = net_rx_udp m (of_nat (8 + length p)) (?h + 14) (set_mbuf m (?y 34 8) s)"
    using fr by (simp add: net_rx_ip_def mbufpull_ok u n Let_def field_defs g nth k add.assoc)
  have "net_rx_udp m (of_nat (8 + length p)) (?h + 14) (set_mbuf m (?y 34 8) s) =
      sockrecvudp m sip dport sport (set_mbuf m ((?y 34 8)\<lparr>m_head := m_head (?y 34 8) + 8, m_len := of_nat (length p)\<rparr>) (set_mbuf m (?y 34 8) s))"
    by (rule net_rx_udp_ok [of _ m "?y 34 8" "?h + 34"]) (use fr p y(1) n in \<open>simp_all add: field_defs g k add.assoc\<close>)
  then show ?thesis using eth ip by (simp add: add.commute)
qed

section \<open>Queues of packets\<close>

primrec mchain :: "(uint64 \<Rightarrow> mbuf option) \<Rightarrow> uint64 \<Rightarrow> uint64 list \<Rightarrow> bool" where
  "mchain h a [] \<longleftrightarrow> a = 0"
| "mchain h a (b # bs) \<longleftrightarrow> a = b \<and> b \<noteq> 0 \<and> (\<exists>x. h b = Some x \<and> mbuf_ok 0 x \<and> mchain h (m_next x) bs)"

definition queue_ok :: "(uint64 \<Rightarrow> mbuf option) \<Rightarrow> mbufq \<Rightarrow> uint64 list \<Rightarrow> bool" where
  "queue_ok h q ms \<longleftrightarrow> mchain h (q_head q) ms \<and> distinct ms \<and> (ms \<noteq> [] \<longrightarrow> q_tail q = last ms)"

lemma mchain_cong: "(\<And>m. m \<in> set ms \<Longrightarrow> h' m = h m) \<Longrightarrow> mchain h' a ms \<longleftrightarrow> mchain h a ms"
  by (induction ms arbitrary: a) auto

lemma queue_ok_cong: "(\<And>m. m \<in> set ms \<Longrightarrow> h' m = h m) \<Longrightarrow> queue_ok h' q ms \<longleftrightarrow> queue_ok h q ms"
  using mchain_cong [of ms h' h] by (simp add: queue_ok_def)

lemma mchain_member: "mchain h a ms \<Longrightarrow> m \<in> set ms \<Longrightarrow> \<exists>x. h m = Some x \<and> mbuf_ok 0 x"
  by (induction ms arbitrary: a) auto

lemma mbuf_ok_next [simp]: "mbuf_ok r (x\<lparr>m_next := n\<rparr>) = mbuf_ok r x" "m_data (x\<lparr>m_next := n\<rparr>) = m_data x"
  by (simp_all add: mbuf_ok_def m_data_def)

text \<open>Appending a buffer: only links change, at the new buffer and at the last one.\<close>

lemma mchain_snoc:
  assumes "mchain h a ms" "ms \<noteq> []" "distinct ms" "h m = Some x" "m_next x = 0" "mbuf_ok 0 x" "m \<noteq> 0" "m \<notin> set ms" "h (last ms) = Some y"
  shows "mchain (h(last ms \<mapsto> y\<lparr>m_next := m\<rparr>)) a (ms @ [m])"
  using assms
proof (induction ms arbitrary: a)
  case (Cons b bs)
  show ?case
  proof (cases "bs = []")
    case True
    then show ?thesis using Cons.prems by auto
  next
    case False
    then have "b \<noteq> last bs" using Cons.prems(3) by auto
    then show ?thesis using False Cons by auto
  qed
qed simp

lemma pushtail_ok:
  assumes "queue_ok (mbufs s) q ms" "mbufs s m = Some x" "mbuf_ok 0 x" "m \<noteq> 0" "m \<notin> set ms"
  obtains M q' where "mbufq_pushtail q m s = Ok (q', s\<lparr>mbufs := M\<rparr>)" "queue_ok M q' (ms @ [m])"
    "\<And>a. a \<notin> set (ms @ [m]) \<Longrightarrow> M a = mbufs s a"
    "\<And>a. map_option m_data (M a) = map_option m_data (mbufs s a)"
proof (cases "ms = []")
  case True
  let ?M = "(mbufs s)(m \<mapsto> x\<lparr>m_next := 0\<rparr>)"
  have "mbufq_pushtail q m s = Ok (\<lparr>q_head = m, q_tail = m\<rparr>, s\<lparr>mbufs := ?M\<rparr>)"
    using assms(1,2) True by (simp add: mbufq_pushtail_def get_mbuf_def queue_ok_def set_mbuf_def)
  then show thesis by (rule that) (use assms True in \<open>auto simp: queue_ok_def\<close>)
next
  case False
  let ?M = "(mbufs s)(m \<mapsto> x\<lparr>m_next := 0\<rparr>)"
  obtain y where y: "mbufs s (last ms) = Some y" "mbuf_ok 0 y"
    using assms(1) False mchain_member [of "mbufs s" "q_head q" ms "last ms"] by (auto simp: queue_ok_def)
  let ?N = "?M(last ms \<mapsto> y\<lparr>m_next := m\<rparr>)"
  have l: "last ms \<noteq> m" "last ms \<in> set ms" using assms(5) False by auto
  have c: "mchain ?M (q_head q) ms" by (subst mchain_cong [of ms ?M "mbufs s"]) (use assms(1,5) in \<open>auto simp: queue_ok_def\<close>)
  have "q_head q \<noteq> 0" using assms(1) False by (cases ms) (auto simp: queue_ok_def)
  then have push: "mbufq_pushtail q m s = Ok (q\<lparr>q_tail := m\<rparr>, s\<lparr>mbufs := ?N\<rparr>)"
    using assms(1,2) False y l by (simp add: mbufq_pushtail_def get_mbuf_def queue_ok_def set_mbuf_def)
  have "mchain ?N (q_head q) (ms @ [m])"
    by (rule mchain_snoc [OF c False, of m "x\<lparr>m_next := 0\<rparr>" y]) (use assms y l in \<open>simp_all add: queue_ok_def\<close>)
  then show thesis by (intro that [OF push]) (use assms y l in \<open>auto simp: queue_ok_def\<close>)
qed

lemma pophead_ok:
  assumes "queue_ok (mbufs s) q (m # ms)"
  obtains q' where "mbufq_pophead q s = Ok (m, q')" "queue_ok (mbufs s) q' ms"
  using assms by (fastforce simp: mbufq_pophead_def Let_def get_mbuf_def queue_ok_def)

section \<open>Sockets\<close>

primrec slist :: "(uint64 \<Rightarrow> sock option) \<Rightarrow> uint64 \<Rightarrow> uint64 list \<Rightarrow> bool" where
  "slist h a [] \<longleftrightarrow> a = 0"
| "slist h a (b # bs) \<longleftrightarrow> a = b \<and> b \<noteq> 0 \<and> (\<exists>x. h b = Some x \<and> slist h (so_next x) bs)"

type_synonym sock_key = "uint \<times> ushort \<times> ushort"

definition key_of :: "sock \<Rightarrow> sock_key" where
  "key_of x = (so_raddr x, so_lport x, so_rport x)"

definition sock_key :: "'a nstate_scheme \<Rightarrow> uint64 \<Rightarrow> sock_key" where
  "sock_key s si = key_of (the (socks s si))"

lemma slist_member: "slist h a sis \<Longrightarrow> si \<in> set sis \<Longrightarrow> si \<noteq> 0 \<and> (\<exists>x. h si = Some x)"
  by (induction sis arbitrary: a) auto

text \<open>The walk along the list is a search.\<close>

lemma find_sock_find:
  assumes "slist (socks s) a sis" "length sis \<le> fuel"
  shows "find_sock fuel a raddr lport rport s =
    Ok (case find (\<lambda>si. sock_key s si = (raddr, lport, rport)) sis of None \<Rightarrow> 0 | Some si \<Rightarrow> si)"
  using assms
proof (induction sis arbitrary: a fuel)
  case Nil
  then show ?case by (subst find_sock.simps) simp
next
  case (Cons si sis)
  then show ?case by (subst find_sock.simps) (auto simp: sock_key_def key_of_def)
qed

text \<open>
  The sockets with their queues: \<open>Q\<close> lists the sockets, each with the buffers that wait in its queue.
\<close>

definition socks_ok :: "(uint64 \<times> uint64 list) list \<Rightarrow> 'a nstate_scheme \<Rightarrow> bool" where
  "socks_ok Q s \<longleftrightarrow> slist (socks s) (sockets s) (map fst Q) \<and> distinct (map fst Q) \<and> length Q \<le> SOCK_FUEL \<and>
    distinct (concat (map snd Q)) \<and>
    (\<forall>(si, ms) \<in> set Q. (\<exists>x. socks s si = Some x \<and> queue_ok (mbufs s) (so_rxq x) ms) \<and> list_all (page_ok (kend s)) ms)"

text \<open>What they amount to: each socket's addresses and the datagrams that wait there.\<close>

definition payload :: "'a nstate_scheme \<Rightarrow> uint64 \<Rightarrow> uchar list" where
  "payload s m = m_data (the (mbufs s m))"

definition sock_view :: "(uint64 \<times> uint64 list) list \<Rightarrow> 'a nstate_scheme \<Rightarrow> (sock_key \<times> uchar list list) list" where
  "sock_view Q s = map (\<lambda>(si, ms). (sock_key s si, map (payload s) ms)) Q"

fun deliver :: "sock_key \<Rightarrow> uchar list \<Rightarrow> (sock_key \<times> uchar list list) list \<Rightarrow> (sock_key \<times> uchar list list) list" where
  "deliver k p [] = []"
| "deliver k p ((k', ps) # V) = (if k' = k then (k', ps @ [p]) # V else (k', ps) # deliver k p V)"

lemma deliver_none: "k \<notin> fst ` set V \<Longrightarrow> deliver k p V = V"
  by (induction k p V rule: deliver.induct) auto

lemma deliver_first: "k \<notin> fst ` set A \<Longrightarrow> deliver k p (A @ (k, ps) # B) = A @ (k, ps @ [p]) # B"
  by (induction k p A rule: deliver.induct) auto

lemma slist_cong: "(\<And>si. si \<in> set sis \<Longrightarrow> map_option so_next (h' si) = map_option so_next (h si)) \<Longrightarrow> slist h' a sis \<longleftrightarrow> slist h a sis"
proof (induction sis arbitrary: a)
  case (Cons si sis)
  have "map_option so_next (h' si) = map_option so_next (h si)" using Cons.prems by simp
  then show ?case using Cons by (cases "h si"; cases "h' si") auto
qed simp

lemma wakeup_net [simp]:
  "mbufs (wakeup c s) = mbufs s" "socks (wakeup c s) = socks s" "sockets (wakeup c s) = sockets s" "kend (wakeup c s) = kend s"
  for s :: "'a nstate_scheme"
  by (simp_all add: wakeup_def)

lemma socks_okD:
  assumes "socks_ok Q s" "(si, ms) \<in> set Q"
  obtains x where "socks s si = Some x" "queue_ok (mbufs s) (so_rxq x) ms" "list_all (page_ok (kend s)) ms"
  using assms by (fastforce simp: socks_ok_def)

lemma queue_payload_cong:
  "(\<And>m. m \<in> set ms \<Longrightarrow> map_option m_data (mbufs s' m) = map_option m_data (mbufs s m)) \<Longrightarrow>
    (\<And>m. m \<in> set ms \<Longrightarrow> mbufs s m \<noteq> None) \<Longrightarrow> map (payload s') ms = map (payload s) ms"
  by (fastforce simp: payload_def)

lemma queue_mapped: "queue_ok h q ms \<Longrightarrow> m \<in> set ms \<Longrightarrow> h m \<noteq> None"
  using mchain_member by (fastforce simp: queue_ok_def)

text \<open>Changing or freeing a buffer that is in no queue.\<close>

lemma socks_ok_frame:
  assumes "socks_ok Q s" "m \<notin> set (concat (map snd Q))"
    and s': "socks s' = socks s" "sockets s' = sockets s" "kend s' = kend s" "\<And>a. a \<noteq> m \<Longrightarrow> mbufs s' a = mbufs s a"
  shows "socks_ok Q s'" "sock_view Q s' = sock_view Q s"
proof -
  have same: "mbufs s' a = mbufs s a" if "(si, ms) \<in> set Q" "a \<in> set ms" for si ms a using assms(2) that by (intro s'(4)) auto
  then have "queue_ok (mbufs s') q ms \<longleftrightarrow> queue_ok (mbufs s) q ms" if "(si, ms) \<in> set Q" for si ms q
    using that by (intro queue_ok_cong)
  then show "socks_ok Q s'" using assms(1) by (fastforce simp: socks_ok_def s'(1-3))
  show "sock_view Q s' = sock_view Q s" using same by (auto simp: sock_view_def sock_key_def payload_def s'(1))
qed

text \<open>Replacing the queue of one socket.\<close>

lemma concat_other:
  assumes "distinct (concat (map snd (A @ (k, ms) # B)))" "(j, mj) \<in> set A \<union> set B"
  shows "set mj \<inter> set ms = {}"
proof -
  have "set mj \<subseteq> set (concat (map snd A)) \<union> set (concat (map snd B))" using assms(2) by force
  moreover have "set (concat (map snd A)) \<inter> set ms = {}" "set ms \<inter> set (concat (map snd B)) = {}"
    using assms(1) by auto
  ultimately show ?thesis by blast
qed

lemma socks_ok_replace:
  assumes ok: "socks_ok (A @ (si, ms) # B) s" and x: "socks s si = Some x"
    and s': "socks s' = (socks s)(si \<mapsto> x\<lparr>so_rxq := q\<rparr>)" "sockets s' = sockets s" "kend s' = kend s"
    and q: "queue_ok (mbufs s') q ms'" "list_all (page_ok (kend s)) ms'"
    and M: "\<And>a. a \<notin> set ms \<union> set ms' \<Longrightarrow> mbufs s' a = mbufs s a"
    and d: "distinct (concat (map snd (A @ (si, ms') # B)))"
  shows "socks_ok (A @ (si, ms') # B) s'" (is ?inv)
    and "sock_view (A @ (si, ms') # B) s' = sock_view A s @ (sock_key s si, map (payload s') ms') # sock_view B s" (is ?view)
proof -
  have other: "sj \<noteq> si \<and> set mj \<inter> (set ms \<union> set ms') = {}" if "(sj, mj) \<in> set A \<union> set B" for sj mj
  proof -
    have "distinct (map fst (A @ (si, ms) # B))" "distinct (concat (map snd (A @ (si, ms) # B)))"
      using ok by (simp_all add: socks_ok_def)
    moreover have "sj \<in> fst ` (set A \<union> set B)" using that by force
    ultimately show ?thesis using concat_other [OF _ that] d by (auto simp: image_Un)
  qed
  then have same: "mbufs s' a = mbufs s a" if "(sj, mj) \<in> set A \<union> set B" "a \<in> set mj" for sj mj a
    using M that by blast
  have qs: "queue_ok (mbufs s') r mj \<longleftrightarrow> queue_ok (mbufs s) r mj" if "(sj, mj) \<in> set A \<union> set B" for sj mj r
    using same [OF that] by (rule queue_ok_cong)
  have "slist (socks s') (sockets s) (map fst (A @ (si, ms) # B)) \<longleftrightarrow> slist (socks s) (sockets s) (map fst (A @ (si, ms) # B))"
    by (rule slist_cong) (use x s' in auto)
  moreover have "case z of (sj, mj) \<Rightarrow> (\<exists>y. socks s' sj = Some y \<and> queue_ok (mbufs s') (so_rxq y) mj) \<and> list_all (page_ok (kend s')) mj"
    if z: "z \<in> set A \<union> set B" for z
  proof (cases z)
    case (Pair sj mj)
    obtain y where "socks s sj = Some y" "queue_ok (mbufs s) (so_rxq y) mj" "list_all (page_ok (kend s)) mj"
      by (rule socks_okD [OF ok, of sj mj]) (use z Pair in auto)
    then show ?thesis using Pair z other [of sj mj] qs [of sj mj] s' by auto
  qed
  ultimately show ?inv using ok d q s' by (auto simp: socks_ok_def)
  have "map (payload s') mj = map (payload s) mj" if "(sj, mj) \<in> set A \<union> set B" for sj mj
    using same [OF that] by (simp add: payload_def)
  moreover have "sock_key s' sj = sock_key s sj" for sj using x s' by (simp add: sock_key_def key_of_def)
  ultimately show ?view by (fastforce simp: sock_view_def)
qed

lemma sockrecvudp_deliver:
  assumes ok: "socks_ok Q s" and m: "mbufs s m = Some y" "mbuf_ok 0 y" "page_ok (kend s) m" "m \<noteq> 0" "m \<notin> set (concat (map snd Q))"
  shows "\<exists>s' Q'. sockrecvudp m a l r s = Ok s' \<and> socks_ok Q' s' \<and> map fst Q' = map fst Q \<and>
    sock_view Q' s' = deliver (a, l, r) (m_data y) (sock_view Q s) \<and>
    ((a, l, r) \<in> fst ` set (sock_view Q s) \<or> mbufs s' m = None)"
proof (cases "find (\<lambda>si. sock_key s si = (a, l, r)) (map fst Q)")
  case None
  obtain P F where "mbuffree m s = Ok (s\<lparr>pmem := P, freelist := F, mbufs := (mbufs s)(m := None)\<rparr>)" (is "_ = Ok ?s")
    using mbuffree_ok [OF m(3)] .
  then have "sockrecvudp m a l r s = Ok ?s"
    using ok None find_sock_find [of s "sockets s" "map fst Q" SOCK_FUEL a l r] by (simp add: sockrecvudp_def socks_ok_def)
  moreover have "(a, l, r) \<notin> fst ` set (sock_view Q s)" using None by (auto simp: sock_view_def find_None_iff)
  ultimately show ?thesis using socks_ok_frame [OF ok m(5), of ?s] by (auto simp: deliver_none)
next
  case (Some si)
  then obtain i where i: "i < length Q" "sock_key s (fst (Q ! i)) = (a, l, r)" "si = fst (Q ! i)" "\<forall>j < i. sock_key s (fst (Q ! j)) \<noteq> (a, l, r)"
    by (auto simp: find_Some_iff)
  define A B ms where ab: "A = take i Q" "B = drop (Suc i) Q" "ms = snd (Q ! i)"
  have Q: "Q = A @ (si, ms) # B" using i by (simp add: ab id_take_nth_drop [OF i(1), symmetric])
  obtain x where x: "socks s si = Some x" "queue_ok (mbufs s) (so_rxq x) ms" "list_all (page_ok (kend s)) ms"
    using socks_okD [OF ok, of si ms] Q by auto
  have key: "sock_key s si = (a, l, r)" using i(2,3) by simp
  have ms: "m \<notin> set ms" using m(5) Q by auto
  obtain M q where
    M: "mbufq_pushtail (so_rxq x) m s = Ok (q, s\<lparr>mbufs := M\<rparr>)" "queue_ok M q (ms @ [m])"
      "\<And>c. c \<notin> set (ms @ [m]) \<Longrightarrow> M c = mbufs s c" "\<And>c. map_option m_data (M c) = map_option m_data (mbufs s c)"
    by (rule pushtail_ok [OF x(2) m(1,2,4) ms], rule that)
  let ?s = "wakeup (ChSock si) (s\<lparr>mbufs := M, socks := (socks s)(si \<mapsto> x\<lparr>so_rxq := q\<rparr>)\<rparr>)"
  have "si \<noteq> 0" using ok Q slist_member [of "socks s" "sockets s" "map fst Q" si] by (simp add: socks_ok_def)
  then have run: "sockrecvudp m a l r s = Ok ?s"
    using ok Some x(1) M(1) find_sock_find [of s "sockets s" "map fst Q" SOCK_FUEL a l r] by (simp add: sockrecvudp_def socks_ok_def)
  have d: "distinct (concat (map snd (A @ (si, ms @ [m]) # B)))" using ok m(5) Q by (auto simp: socks_ok_def)
  have "map (payload ?s) (ms @ [m]) = map (payload s) (ms @ [m])"
    using M(4) m(1) queue_mapped [OF x(2)] by (intro queue_payload_cong) auto
  then have p: "map (payload ?s) (ms @ [m]) = map (payload s) ms @ [m_data y]" using m(1) by (simp add: payload_def)
  have inv: "socks_ok (A @ (si, ms @ [m]) # B) ?s"
    "sock_view (A @ (si, ms @ [m]) # B) ?s = sock_view A s @ (sock_key s si, map (payload ?s) (ms @ [m])) # sock_view B s"
    by (rule socks_ok_replace [OF ok [unfolded Q] x(1) _ _ _ _ _ _ d]; use M m(3) x(3) in auto)+
  have "sock_key s (fst z) \<noteq> (a, l, r)" if "z \<in> set A" for z using that i(1,4) by (auto simp: ab in_set_conv_nth)
  moreover have "fst ` set (sock_view A s) = (\<lambda>z. sock_key s (fst z)) ` set A" by (simp add: sock_view_def image_image case_prod_beta)
  ultimately have "(a, l, r) \<notin> fst ` set (sock_view A s)" by (simp add: image_iff eq_commute [of "(a, l, r)"])
  then have "deliver (a, l, r) (m_data y) (sock_view Q s) = sock_view A s @ ((a, l, r), map (payload s) ms @ [m_data y]) # sock_view B s"
    using deliver_first [of "(a, l, r)" "sock_view A s"] key Q by (simp add: sock_view_def)
  moreover have "(a, l, r) \<in> fst ` set (sock_view Q s)" using key Q by (simp add: sock_view_def)
  ultimately show ?thesis using run inv p key Q by (intro exI [of _ ?s] exI [of _ "A @ (si, ms @ [m]) # B"]) simp
qed

section \<open>Reading\<close>

lemma queue_ok_length:
  assumes "queue_ok (mbufs s) q (m # ms)"
  obtains y where "mbufs s m = Some y" "unat (m_len y) = length (payload s m)" "length (payload s m) \<le> 4096"
    "\<And>n. getb (m_buf y) (nat (m_head y)) (min (unat (m_len y)) n) = take n (payload s m)"
proof -
  obtain y where y: "mbufs s m = Some y" "mbuf_ok 0 y" using assms by (auto simp: queue_ok_def)
  then have "unat (m_len y) = length (payload s m)" "length (payload s m) \<le> 4096"
    by (auto simp: payload_def m_data_def mbuf_ok_def MBUF_ROOM_def)
  moreover have "getb (m_buf y) (nat (m_head y)) (min (unat (m_len y)) n) = take n (payload s m)" for n
    using y by (simp add: payload_def m_data_def getb_def min.commute)
  ultimately show thesis using that y(1) by blast
qed

lemma sint_small: "unat w < 2147483648 \<Longrightarrow> sint w = int (unat w)" for w :: uint
proof -
  assume "unat w < 2147483648"
  moreover have "int (unat w) = uint w" by simp
  ultimately have "uint w < 2147483648" by linarith
  moreover have "- (2 ^ 31) \<le> uint w" by (rule order_trans [of _ 0]) simp_all
  ultimately have "signed_take_bit 31 (uint w) = uint w" by (intro signed_take_bit_int_eq_self) simp_all
  then show ?thesis by (simp add: sint_uint)
qed

lemma sockread_pops:
  assumes ok: "socks_ok (A @ (si, m # ms) # B) s" and n: "0 \<le> n" "\<not> p_killed (curproc s)"
  defines "p \<equiv> take (nat n) (payload s m)"
  shows "\<exists>S r s1 s'. copyout (p_pagetable (curproc s)) addr p (s\<lparr>socks := S\<rparr>) = (r, s1) \<and> mbuffree m s1 = Ok s' \<and>
    sockread si addr n s = Ok (Return (if r = -1 then -1 else int (length p)), s') \<and>
    socks_ok (A @ (si, ms) # B) s' \<and>
    sock_view (A @ (si, ms) # B) s' = sock_view A s @ (sock_key s si, map (payload s) ms) # sock_view B s"
proof -
  obtain x where x: "socks s si = Some x" "queue_ok (mbufs s) (so_rxq x) (m # ms)" "list_all (page_ok (kend s)) (m # ms)"
    by (rule socks_okD [OF ok, of si "m # ms"]) simp
  obtain q where q: "mbufq_pophead (so_rxq x) s = Ok (m, q)" "queue_ok (mbufs s) q ms" by (rule pophead_ok [OF x(2)])
  obtain y where y: "mbufs s m = Some y" "unat (m_len y) = length (payload s m)" "length (payload s m) \<le> 4096"
      "\<And>n. getb (m_buf y) (nat (m_head y)) (min (unat (m_len y)) n) = take n (payload s m)"
    by (rule queue_ok_length [OF x(2)], rule that)
  let ?s0 = "s\<lparr>socks := (socks s)(si \<mapsto> x\<lparr>so_rxq := q\<rparr>)\<rparr>"
  obtain r s1 where c: "copyout (p_pagetable (curproc s)) addr p ?s0 = (r, s1)" by (cases "copyout (p_pagetable (curproc s)) addr p ?s0") auto
  have s1: "s1 = ?s0\<lparr>pmem := pmem s1\<rparr>" by (rule copyout_frame [OF c])
  have k: "kend s1 = kend s" "mbufs s1 = mbufs s" "sockets s1 = sockets s" "socks s1 = (socks s)(si \<mapsto> x\<lparr>so_rxq := q\<rparr>)"
    by (subst s1; simp)+
  obtain P F where f: "mbuffree m s1 = Ok (s1\<lparr>pmem := P, freelist := F, mbufs := (mbufs s1)(m := None)\<rparr>)" (is "_ = Ok ?s'")
    by (rule mbuffree_ok [of s1 m]) (use x(3) k in simp)
  have L: "sint (m_len y) = int (length (payload s m))" using y(2,3) by (simp add: sint_small)
  have len: "(if n < sint (m_len y) then n else sint (m_len y)) = int (length p)"
    using n(1) L by (auto simp: p_def min_def)
  have cp: "curproc ?s0 = curproc s" by (simp add: curproc_def cur_def myproc_def)
  have "nat (int (length p)) = min (unat (m_len y)) (nat n)" using y(2) by (simp add: p_def min.commute)
  then have get: "getb (m_buf y) (nat (m_head y)) (length p) = p" using y(4) [of "nat n"] by (simp add: p_def)
  have e: "\<not> mbufq_empty (so_rxq x)" using x(2) by (auto simp: mbufq_empty_def queue_ok_def)
  have run: "sockread si addr n s = Ok (Return (if r = -1 then -1 else int (length p)), ?s')"
    using x(1) n(2) e q(1) y(1) c f get by (simp add: sockread_def get_mbuf_def Let_def len cp split del: if_split)
      (use len in \<open>auto split: if_splits\<close>)
  have d: "distinct (concat (map snd (A @ (si, ms) # B)))" "m \<notin> set ms" using ok by (auto simp: socks_ok_def)
  have qm: "queue_ok ((mbufs s)(m := None)) q ms" using q(2) d(2) by (subst queue_ok_cong [of ms _ "mbufs s"]) auto
  have inv: "socks_ok (A @ (si, ms) # B) ?s'" "sock_view (A @ (si, ms) # B) ?s' = sock_view A s @ (sock_key s si, map (payload ?s') ms) # sock_view B s"
    by (rule socks_ok_replace [OF ok x(1) _ _ _ _ _ _ d(1), where q = q]; use k qm x(3) in auto)+
  have "map (payload ?s') ms = map (payload s) ms" using d(2) k by (auto simp: payload_def)
  then show ?thesis using c f run inv by metis
qed

section \<open>Properties\<close>

lemma m_data_udp_mbuf:
  assumes "mbuf_ok 42 x"
  shows "m_data (udp_mbuf dip sport dport x) =
    getb (udp_bytes (nat (m_head x - 42)) dip sport dport (m_len x) (m_buf x)) (nat (m_head x - 42)) (42 + unat (m_len x))"
proof -
  have "unat (m_len x) \<le> 4096" using assms by (simp add: mbuf_ok_def MBUF_ROOM_def)
  then have "unat (m_len x + 42) = 42 + unat (m_len x)" by (simp add: unat_word_ariths)
  then show ?thesis by (simp add: m_data_def udp_mbuf_def)
qed

lemma tx_set_mbuf [simp]:
  "tx_ready m (set_mbuf m x s) = tx_ready m s" "handed_over m y (set_mbuf m x s) s' = handed_over m y s s'"
  by (simp_all add: tx_ready_def handed_over_def tx_slot_def set_mbuf_def)


definition out_mbuf :: mbuf where
  "out_mbuf = \<lparr>m_next = 0, m_head = 128, m_len = 2, m_buf = replicate MBUF_ROOM 7\<rparr>"

definition sending_net :: nstate where
  "sending_net = boot_net\<lparr>mbufs := [0x80001000 \<mapsto> out_mbuf]\<rparr>"



lemma length_udp_bytes: "e + 42 \<le> length d \<Longrightarrow> length (udp_bytes e dip sport dport len d) = length d"
  unfolding udp_bytes_def
  using outside_udp [of "e + 34" d sport dport "len + 8", THEN outside_length]
    outside_ip [of "e + 14" "udp_header (e + 34) sport dport (len + 8) d" IPPROTO_UDP dip "len + 28", THEN outside_length]
    outside_eth [of e "ip_header (e + 14) IPPROTO_UDP dip (len + 28) (udp_header (e + 34) sport dport (len + 8) d)" ETHTYPE_IP, THEN outside_length]
  by simp

definition in_mbuf :: mbuf where
  "in_mbuf = \<lparr>m_next = 0, m_head = 0, m_len = 44, m_buf = udp_bytes 0 local_ip 80 81 2 (replicate MBUF_ROOM 7)\<rparr>"

definition one_sock :: "uint64 \<Rightarrow> nstate \<Rightarrow> nstate" where
  "one_sock m s = s\<lparr>socks := [0x80004000 \<mapsto> \<lparr>so_next = 0, so_raddr = local_ip, so_lport = 81, so_rport = 80,
     so_rxq = \<lparr>q_head = m, q_tail = m\<rparr>\<rparr>], sockets := 0x80004000\<rparr>"

lemma boot_net_pages: "page_ok (kend boot_net) 0x80003000" "\<not> p_killed (curproc boot_net)"
  by (simp_all add: boot_net_def dstate.defs boot_dev_def fstate.defs boot_fs_def lstate.defs boot_log_def boot_bufs_def bstate.defs pstate.defs
      one_proc_def page_ok_def page_aligned_def PGSIZE_def PHYSTOP_def KERNBASE_def binit_def Let_def curproc_def cur_def myproc_def fresh_proc_def)

lemma in_mbuf_ok: "mbuf_ok 0 in_mbuf" "udp_frame local_ip local_ip 80 81 [7, 7] (m_data in_mbuf)"
proof -
  have two: "getb (replicate MBUF_ROOM 7) 42 2 = [7, 7 :: uchar]" by (simp add: getb_def MBUF_ROOM_def numeral_2_eq_2)
  show "mbuf_ok 0 in_mbuf" by (simp add: in_mbuf_def mbuf_ok_def length_udp_bytes MBUF_ROOM_def)
  show "udp_frame local_ip local_ip 80 81 [7, 7] (m_data in_mbuf)"
    using udp_bytes_frame [of 0 2 "replicate MBUF_ROOM 7" local_ip 80 81] two by (simp add: in_mbuf_def m_data_def MBUF_ROOM_def)
qed


text \<open>
  Claim C28. Datagrams are read in the order they came. \<^verbatim>\<open>sockread\<close> sleeps exactly if nothing is queued; otherwise it
  takes the oldest datagram, copies as much of it to the user as was asked for, returns that number of bytes (-1 if the
  user's memory is not there), frees the buffer, and leaves the rest of this queue and all others alone.
\<close>

theorem sockread_in_order:
  assumes "socks_ok (A @ (si, ms) # B) s" "0 \<le> n" "\<not> p_killed (curproc s)"
  shows "case ms of
      [] \<Rightarrow> sockread si addr n s = Ok (Wait (ChSock si) (), s)
    | m # ms' \<Rightarrow>
        (let p = take (nat n) (payload s m) in
         \<exists>S r s1 s'. copyout (p_pagetable (curproc s)) addr p (s\<lparr>socks := S\<rparr>) = (r, s1) \<and> mbuffree m s1 = Ok s' \<and>
           sockread si addr n s = Ok (Return (if r = -1 then -1 else int (length p)), s') \<and>
           socks_ok (A @ (si, ms') # B) s' \<and>
           sock_view (A @ (si, ms') # B) s' = sock_view A s @ (sock_key s si, map (payload s) ms') # sock_view B s)"
proof (cases ms)
  case Nil
  obtain x where "socks s si = Some x" "queue_ok (mbufs s) (so_rxq x) []" by (rule socks_okD [OF assms(1), of si "[]"]) (simp add: Nil)
  then show ?thesis using assms(3) Nil by (simp add: sockread_def mbufq_empty_def queue_ok_def)
next
  case (Cons m ms')
  then show ?thesis using sockread_pops [of A si m ms' B s n addr] assms by simp
qed

theorem sockread_in_order_witness:
  "\<exists>r s'. sockread 0x80004000 0 1 (one_sock 0x80003000 (boot_net\<lparr>mbufs := [0x80003000 \<mapsto> out_mbuf]\<rparr>)) = Ok (Return r, s') \<and>
    sock_view [(0x80004000, [])] s' = [((local_ip, 81, 80), [])]"
proof -
  let ?s = "one_sock 0x80003000 (boot_net\<lparr>mbufs := [0x80003000 \<mapsto> out_mbuf]\<rparr>)"
  have "socks_ok ([] @ (0x80004000, [0x80003000]) # []) ?s" "sock_key ?s 0x80004000 = (local_ip, 81, 80)" "\<not> p_killed (curproc ?s)"
    using boot_net_pages by (simp_all add: socks_ok_def one_sock_def queue_ok_def SOCK_FUEL_def sock_key_def key_of_def out_mbuf_def mbuf_ok_def
        MBUF_ROOM_def curproc_def cur_def myproc_def)
  then show ?thesis using sockread_in_order [of "[]" "0x80004000" "[0x80003000]" "[]" ?s 1 0] by (auto simp: Let_def sock_view_def)
qed

end
