(* ===== verification/Virtio.thy ===== *)
theory Virtio
  imports Console
begin

text \<open>
  The driver of the virtio disk, \<^verbatim>\<open>kernel/virtio_disk.c\<close> and \<^verbatim>\<open>kernel/virtio.h\<close>.

  The addresses that the driver stores in descriptors point to three kinds of objects, and the model names them
  by kind and index.  The fields of \<^verbatim>\<open>struct disk\<close> and of the rings in \<^verbatim>\<open>disk.pages\<close> are fields of the
  state; \<open>b_disk\<close> is the field \<^verbatim>\<open>disk\<close> of every buffer.  Each critical section of \<^verbatim>\<open>vdisk_lock\<close> is
  one step; \<^verbatim>\<open>sleep\<close> ends one.

  The device is not part of the kernel.  \<open>dev_idx\<close> and \<open>dev_queue\<close> are its own state, and \<open>dev_fetch\<close> and
  \<open>dev_complete\<close> say what the virtio specification (legacy interface, sections 2.6 and 5.2) documents: it reads
  the available ring in order, works on the requests in any order, and reports each in the used ring.
\<close>

section \<open>State\<close>

definition NUM :: nat where "NUM = 8"

definition VRING_DESC_F_NEXT :: ushort where "VRING_DESC_F_NEXT = 1"
definition VRING_DESC_F_WRITE :: ushort where "VRING_DESC_F_WRITE = 2"
definition VIRTIO_BLK_T_IN :: uint where "VIRTIO_BLK_T_IN = 0"
definition VIRTIO_BLK_T_OUT :: uint where "VIRTIO_BLK_T_OUT = 1"

datatype vaddr = VNull | VOp nat | VData nat | VStatus nat

record virtq_desc =
  vd_addr :: vaddr
  vd_len :: uint
  vd_flags :: ushort
  vd_next :: ushort

record virtio_blk_req =
  vr_type :: uint
  vr_reserved :: uint
  vr_sector :: uint64

record vstate = bstate +
  v_desc :: "virtq_desc list"
  avail_idx :: ushort
  avail_ring :: "ushort list"
  used_idx :: ushort
  used_ring :: "uint list"
  v_free :: "bool list"
  seen_idx :: ushort
  info_b :: "nat option list"
  info_status :: "uchar list"
  v_ops :: "virtio_blk_req list"
  b_disk :: "bool list"
  v_regs :: "nat \<Rightarrow> uint"
  dev_idx :: ushort
  dev_queue :: "nat list"

definition VIRTIO_MMIO_MAGIC_VALUE :: nat where "VIRTIO_MMIO_MAGIC_VALUE = 0x000"
definition VIRTIO_MMIO_VERSION :: nat where "VIRTIO_MMIO_VERSION = 0x004"
definition VIRTIO_MMIO_DEVICE_ID :: nat where "VIRTIO_MMIO_DEVICE_ID = 0x008"
definition VIRTIO_MMIO_VENDOR_ID :: nat where "VIRTIO_MMIO_VENDOR_ID = 0x00c"
definition VIRTIO_MMIO_DEVICE_FEATURES :: nat where "VIRTIO_MMIO_DEVICE_FEATURES = 0x010"
definition VIRTIO_MMIO_DRIVER_FEATURES :: nat where "VIRTIO_MMIO_DRIVER_FEATURES = 0x020"
definition VIRTIO_MMIO_GUEST_PAGE_SIZE :: nat where "VIRTIO_MMIO_GUEST_PAGE_SIZE = 0x028"
definition VIRTIO_MMIO_QUEUE_SEL :: nat where "VIRTIO_MMIO_QUEUE_SEL = 0x030"
definition VIRTIO_MMIO_QUEUE_NUM_MAX :: nat where "VIRTIO_MMIO_QUEUE_NUM_MAX = 0x034"
definition VIRTIO_MMIO_QUEUE_NUM :: nat where "VIRTIO_MMIO_QUEUE_NUM = 0x038"
definition VIRTIO_MMIO_QUEUE_PFN :: nat where "VIRTIO_MMIO_QUEUE_PFN = 0x040"
definition VIRTIO_MMIO_QUEUE_NOTIFY :: nat where "VIRTIO_MMIO_QUEUE_NOTIFY = 0x050"
definition VIRTIO_MMIO_INTERRUPT_STATUS :: nat where "VIRTIO_MMIO_INTERRUPT_STATUS = 0x060"
definition VIRTIO_MMIO_INTERRUPT_ACK :: nat where "VIRTIO_MMIO_INTERRUPT_ACK = 0x064"
definition VIRTIO_MMIO_STATUS :: nat where "VIRTIO_MMIO_STATUS = 0x070"

definition VIRTIO_CONFIG_S_ACKNOWLEDGE :: uint where "VIRTIO_CONFIG_S_ACKNOWLEDGE = 1"
definition VIRTIO_CONFIG_S_DRIVER :: uint where "VIRTIO_CONFIG_S_DRIVER = 2"
definition VIRTIO_CONFIG_S_DRIVER_OK :: uint where "VIRTIO_CONFIG_S_DRIVER_OK = 4"
definition VIRTIO_CONFIG_S_FEATURES_OK :: uint where "VIRTIO_CONFIG_S_FEATURES_OK = 8"

definition VIRTIO_BLK_F_RO :: nat where "VIRTIO_BLK_F_RO = 5"
definition VIRTIO_BLK_F_SCSI :: nat where "VIRTIO_BLK_F_SCSI = 7"
definition VIRTIO_BLK_F_CONFIG_WCE :: nat where "VIRTIO_BLK_F_CONFIG_WCE = 11"
definition VIRTIO_BLK_F_MQ :: nat where "VIRTIO_BLK_F_MQ = 12"
definition VIRTIO_F_ANY_LAYOUT :: nat where "VIRTIO_F_ANY_LAYOUT = 27"
definition VIRTIO_RING_F_INDIRECT_DESC :: nat where "VIRTIO_RING_F_INDIRECT_DESC = 28"
definition VIRTIO_RING_F_EVENT_IDX :: nat where "VIRTIO_RING_F_EVENT_IDX = 29"

definition set_vreg :: "nat \<Rightarrow> uint \<Rightarrow> vstate \<Rightarrow> vstate" where
  "set_vreg r v s = s\<lparr>v_regs := (v_regs s)(r := v)\<rparr>"

definition null_desc :: virtq_desc where
  "null_desc = \<lparr>vd_addr = VNull, vd_len = 0, vd_flags = 0, vd_next = 0\<rparr>"

section \<open>Set-up\<close>

text \<open>
  \<open>regs\<close> are the values the device shows in its read-only registers.  Clearing \<^verbatim>\<open>disk.pages\<close> clears the
  descriptors and both rings; \<open>pages\<close> is its address.
\<close>

definition virtio_disk_init :: "(nat \<Rightarrow> uint) \<Rightarrow> uint64 \<Rightarrow> vstate \<Rightarrow> vstate res" where
  "virtio_disk_init regs pages s =
    (if regs VIRTIO_MMIO_MAGIC_VALUE \<noteq> 0x74726976 \<or> regs VIRTIO_MMIO_VERSION \<noteq> 1 \<or>
        regs VIRTIO_MMIO_DEVICE_ID \<noteq> 2 \<or> regs VIRTIO_MMIO_VENDOR_ID \<noteq> 0x554d4551
     then Panic ''could not find virtio disk''
     else
       let status = 0 OR VIRTIO_CONFIG_S_ACKNOWLEDGE;
           s = set_vreg VIRTIO_MMIO_STATUS status s;
           status = status OR VIRTIO_CONFIG_S_DRIVER;
           s = set_vreg VIRTIO_MMIO_STATUS status s;
           features = foldl (\<lambda>f bit. f AND NOT (push_bit bit 1)) (regs VIRTIO_MMIO_DEVICE_FEATURES)
             [VIRTIO_BLK_F_RO, VIRTIO_BLK_F_SCSI, VIRTIO_BLK_F_CONFIG_WCE, VIRTIO_BLK_F_MQ, VIRTIO_F_ANY_LAYOUT,
              VIRTIO_RING_F_EVENT_IDX, VIRTIO_RING_F_INDIRECT_DESC];
           s = set_vreg VIRTIO_MMIO_DRIVER_FEATURES features s;
           status = status OR VIRTIO_CONFIG_S_FEATURES_OK;
           s = set_vreg VIRTIO_MMIO_STATUS status s;
           status = status OR VIRTIO_CONFIG_S_DRIVER_OK;
           s = set_vreg VIRTIO_MMIO_STATUS status s;
           s = set_vreg VIRTIO_MMIO_GUEST_PAGE_SIZE (ucast PGSIZE) s;
           s = set_vreg VIRTIO_MMIO_QUEUE_SEL 0 s;
           max_num = regs VIRTIO_MMIO_QUEUE_NUM_MAX
       in
       if max_num = 0 then Panic ''virtio disk has no queue 0''
       else if max_num < of_nat NUM then Panic ''virtio disk max queue too short''
       else
         let s = set_vreg VIRTIO_MMIO_QUEUE_NUM (of_nat NUM) s;
             s = s\<lparr>v_desc := replicate NUM null_desc, avail_idx := 0, avail_ring := replicate NUM 0,
                   used_idx := 0, used_ring := replicate NUM 0\<rparr>;
             s = set_vreg VIRTIO_MMIO_QUEUE_PFN (ucast (drop_bit PGSHIFT pages)) s
         in Ok (s\<lparr>v_free := replicate NUM True\<rparr>))"

section \<open>Descriptors\<close>

definition alloc_desc :: "vstate \<Rightarrow> nat option \<times> vstate" where
  "alloc_desc s =
    (case find (\<lambda>i. v_free s ! i) [0..<NUM] of
       Some i \<Rightarrow> (Some i, s\<lparr>v_free := (v_free s)[i := False]\<rparr>)
     | None \<Rightarrow> (None, s))"

definition free_desc :: "nat \<Rightarrow> vstate \<Rightarrow> vstate res" where
  "free_desc i s =
    (if i \<ge> NUM then Panic ''free_desc 1''
     else if v_free s ! i then Panic ''free_desc 2''
     else Ok (wakeup ChDiskFree (s\<lparr>v_desc := (v_desc s)[i := null_desc], v_free := (v_free s)[i := True]\<rparr>)))"

text \<open>
  The loop of \<^verbatim>\<open>free_chain\<close>.  A chain that came back to one of its descriptors would panic there, so
  \<open>NUM + 1\<close> rounds are enough.
\<close>

primrec free_chain_loop :: "nat \<Rightarrow> nat \<Rightarrow> vstate \<Rightarrow> vstate res" where
  "free_chain_loop 0 i s = Diverge"
| "free_chain_loop (Suc n) i s =
    (let flag = vd_flags (v_desc s ! i); nxt = unat (vd_next (v_desc s ! i)) in
     bindr (free_desc i s) (\<lambda>s.
     if flag AND VRING_DESC_F_NEXT \<noteq> 0 then free_chain_loop n nxt s else Ok s))"

definition free_chain :: "nat \<Rightarrow> vstate \<Rightarrow> vstate res" where
  "free_chain i s = free_chain_loop (NUM + 1) i s"

definition alloc3_desc :: "vstate \<Rightarrow> ((nat \<times> nat \<times> nat) option \<times> vstate) res" where
  "alloc3_desc s =
    (case alloc_desc s of
       (None, s) \<Rightarrow> Ok (None, s)
     | (Some i0, s) \<Rightarrow>
         case alloc_desc s of
           (None, s) \<Rightarrow> bindr (free_desc i0 s) (\<lambda>s. Ok (None, s))
         | (Some i1, s) \<Rightarrow>
             case alloc_desc s of
               (None, s) \<Rightarrow> bindr (free_desc i0 s) (\<lambda>s. bindr (free_desc i1 s) (\<lambda>s. Ok (None, s)))
             | (Some i2, s) \<Rightarrow> Ok (Some (i0, i1, i2), s))"

section \<open>Requests\<close>

definition format_desc :: "nat \<Rightarrow> bool \<Rightarrow> nat \<Rightarrow> nat \<Rightarrow> nat \<Rightarrow> vstate \<Rightarrow> vstate" where
  "format_desc b wrt i0 i1 i2 s =
    (let sector = ucast (b_blockno (bufs s ! b) * of_nat (BSIZE div 512));
         s = s\<lparr>v_ops := (v_ops s)[i0 := \<lparr>vr_type = (if wrt then VIRTIO_BLK_T_OUT else VIRTIO_BLK_T_IN),
               vr_reserved = 0, vr_sector = sector\<rparr>]\<rparr>;
         s = s\<lparr>v_desc := (v_desc s)[i0 := \<lparr>vd_addr = VOp i0, vd_len = 16, vd_flags = VRING_DESC_F_NEXT, vd_next = of_nat i1\<rparr>]\<rparr>;
         s = s\<lparr>v_desc := (v_desc s)[i1 := \<lparr>vd_addr = VData b, vd_len = of_nat BSIZE,
               vd_flags = (if wrt then 0 else VRING_DESC_F_WRITE) OR VRING_DESC_F_NEXT, vd_next = of_nat i2\<rparr>]\<rparr>;
         s = s\<lparr>info_status := (info_status s)[i0 := 0xff]\<rparr>
     in s\<lparr>v_desc := (v_desc s)[i2 := \<lparr>vd_addr = VStatus i0, vd_len = 1, vd_flags = VRING_DESC_F_WRITE, vd_next = 0\<rparr>]\<rparr>)"

datatype vwait = NeedDesc | NeedDone nat

text \<open>From the start, or after a wait for descriptors, to the next \<^verbatim>\<open>sleep\<close>.\<close>

definition virtio_disk_rw :: "nat \<Rightarrow> bool \<Rightarrow> vstate \<Rightarrow> ((vwait, unit) io \<times> vstate) res" where
  "virtio_disk_rw b wrt s =
    bindr (alloc3_desc s) (\<lambda>(idx, s).
    case idx of
      None \<Rightarrow> Ok (Wait ChDiskFree NeedDesc, s)
    | Some (i0, i1, i2) \<Rightarrow>
        let s = format_desc b wrt i0 i1 i2 s;
            s = s\<lparr>b_disk := (b_disk s)[b := True], info_b := (info_b s)[i0 := Some b]\<rparr>;
            s = s\<lparr>avail_ring := (avail_ring s)[unat (avail_idx s) mod NUM := of_nat i0]\<rparr>;
            s = s\<lparr>avail_idx := avail_idx s + 1\<rparr>
        in Ok (Wait (ChBuf b) (NeedDone i0), set_vreg VIRTIO_MMIO_QUEUE_NOTIFY 0 s))"

text \<open>After a wait for the device.\<close>

definition virtio_disk_done :: "nat \<Rightarrow> nat \<Rightarrow> vstate \<Rightarrow> ((vwait, unit) io \<times> vstate) res" where
  "virtio_disk_done b i0 s =
    (if b_disk s ! b then Ok (Wait (ChBuf b) (NeedDone i0), s)
     else bindr (free_chain i0 (s\<lparr>info_b := (info_b s)[i0 := None]\<rparr>)) (\<lambda>s. Ok (Return (), s)))"

primrec virtio_intr_loop :: "nat \<Rightarrow> vstate \<Rightarrow> vstate res" where
  "virtio_intr_loop 0 s = Ok s"
| "virtio_intr_loop (Suc n) s =
    (let i = unat (used_ring s ! (unat (seen_idx s) mod NUM)) in
     if info_status s ! i \<noteq> 0 then Panic ''virtio_disk_intr status''
     else
       case info_b s ! i of
         None \<Rightarrow> Diverge
       | Some b \<Rightarrow>
           let s = wakeup (ChBuf b) (s\<lparr>b_disk := (b_disk s)[b := False]\<rparr>)
           in virtio_intr_loop n (s\<lparr>seen_idx := seen_idx s + 1\<rparr>))"

definition virtio_disk_intr :: "vstate \<Rightarrow> vstate res" where
  "virtio_disk_intr s =
    (let s = set_vreg VIRTIO_MMIO_INTERRUPT_ACK (v_regs s VIRTIO_MMIO_INTERRUPT_STATUS AND 0x3) s in
     virtio_intr_loop (unat (used_idx s - seen_idx s)) s)"

section \<open>The device\<close>

definition dev_io :: "virtio_blk_req \<Rightarrow> nat \<Rightarrow> vstate \<Rightarrow> vstate" where
  "dev_io req b s =
    (let blk = ucast (vr_sector req div of_nat (BSIZE div 512)) in
     if vr_type req = VIRTIO_BLK_T_OUT
     then s\<lparr>disk := (disk s)(blk := b_data (bufs s ! b)), dtrace := dtrace s @ [(blk, b_data (bufs s ! b))]\<rparr>
     else set_buf b (\<lambda>bf. bf\<lparr>b_data := disk s blk\<rparr>) s)"

definition dev_fetch :: "vstate \<Rightarrow> vstate \<Rightarrow> bool" where
  "dev_fetch s s' \<longleftrightarrow> dev_idx s \<noteq> avail_idx s \<and>
    (\<exists>R. s' = s\<lparr>dev_queue := dev_queue s @ [unat (avail_ring s ! (unat (dev_idx s) mod NUM))], dev_idx := dev_idx s + 1, v_regs := R\<rparr>)"

definition dev_complete :: "nat \<Rightarrow> vstate \<Rightarrow> vstate \<Rightarrow> bool" where
  "dev_complete h s s' \<longleftrightarrow> h \<in> set (dev_queue s) \<and>
    (let d0 = v_desc s ! h; d1 = v_desc s ! unat (vd_next d0); d2 = v_desc s ! unat (vd_next d1) in
     \<exists>j b k R. vd_addr d0 = VOp j \<and> vd_addr d1 = VData b \<and> vd_addr d2 = VStatus k \<and>
       s' = (dev_io (v_ops s ! j) b s)\<lparr>info_status := (info_status s)[k := 0],
         used_ring := (used_ring s)[unat (used_idx s) mod NUM := of_nat h], used_idx := used_idx s + 1,
         dev_queue := remove1 h (dev_queue s), v_regs := R\<rparr>)"

text \<open>A device that does only what the specification allows.\<close>

definition virtio_device :: "(vstate \<Rightarrow> vstate \<Rightarrow> bool) \<Rightarrow> bool" where
  "virtio_device dev \<longleftrightarrow> (\<forall>s s'. dev s s' \<longrightarrow> dev_fetch s s' \<or> (\<exists>h. dev_complete h s s'))"

section \<open>The driver in use\<close>

text \<open>
  A request in flight: the buffer, whether it is a write, and its three descriptors.  The steps: a process starts a
  request for a buffer that no other request uses (it holds the buffer's lock); it finds no descriptors; the device works; the
  interrupt handler runs; a process comes back and finds its request done; the rest of the kernel goes on, but leaves
  the buffers of requests alone.
\<close>

type_synonym vreq = "nat \<times> bool \<times> nat \<times> nat \<times> nat"

fun req_buf :: "vreq \<Rightarrow> nat" where "req_buf (b, wrt, i0, i1, i2) = b"
fun req_write :: "vreq \<Rightarrow> bool" where "req_write (b, wrt, i0, i1, i2) = wrt"
fun req_head :: "vreq \<Rightarrow> nat" where "req_head (b, wrt, i0, i1, i2) = i0"
fun req_chain :: "vreq \<Rightarrow> nat list" where "req_chain (b, wrt, i0, i1, i2) = [i0, i1, i2]"

definition same_io :: "vreq list \<Rightarrow> 'a bstate_scheme \<Rightarrow> 'a bstate_scheme \<Rightarrow> bool" where
  "same_io rs s s' \<longleftrightarrow> disk s' = disk s \<and> dtrace s' = dtrace s \<and> length (bufs s') = length (bufs s) \<and>
    (\<forall>r \<in> set rs. bufs s' ! req_buf r = bufs s ! req_buf r)"

definition same_driver :: "vstate \<Rightarrow> vstate \<Rightarrow> bool" where
  "same_driver s s' \<longleftrightarrow> bstate.more s' = bstate.more s"

inductive vstep :: "(vstate \<Rightarrow> vstate \<Rightarrow> bool) \<Rightarrow> vstate \<times> vreq list \<Rightarrow> vstate \<times> vreq list \<Rightarrow> bool" for dev where
  start: "virtio_disk_rw b wrt s = Ok (Wait (ChBuf b) (NeedDone i0), s') \<Longrightarrow> b < length (bufs s) \<Longrightarrow>
    b \<notin> req_buf ` set rs \<Longrightarrow> unat (b_blockno (bufs s ! b)) < 2 ^ 31 \<Longrightarrow>
    i1 = unat (vd_next (v_desc s' ! i0)) \<Longrightarrow> i2 = unat (vd_next (v_desc s' ! i1)) \<Longrightarrow>
    vstep dev (s, rs) (s', rs @ [(b, wrt, i0, i1, i2)])"
| crowded: "virtio_disk_rw b wrt s = Ok (Wait ChDiskFree NeedDesc, s') \<Longrightarrow> vstep dev (s, rs) (s', rs)"
| device: "dev s s' \<Longrightarrow> vstep dev (s, rs) (s', rs)"
| intr: "virtio_disk_intr s = Ok s' \<Longrightarrow> vstep dev (s, rs) (s', rs)"
| finish: "r \<in> set rs \<Longrightarrow> virtio_disk_done (req_buf r) (req_head r) s = Ok (Return (), s') \<Longrightarrow>
    vstep dev (s, rs) (s', remove1 r rs)"
| other: "same_driver s s' \<Longrightarrow> same_io rs s s' \<Longrightarrow> vstep dev (s, rs) (s', rs)"

text \<open>
  What it should be: requests are issued, performed once each as \<^verbatim>\<open>virtio_disk_rw\<close> is assumed to by the buffer
  cache, and answered only when they have been performed.
\<close>

inductive disk_spec :: "bstate \<times> vreq list \<times> vreq list \<Rightarrow> bstate \<times> vreq list \<times> vreq list \<Rightarrow> bool" where
  issue: "req_buf r \<notin> req_buf ` set out \<Longrightarrow> disk_spec (B, pend, out) (B, pend @ [r], out @ [r])"
| perform: "r \<in> set pend \<Longrightarrow>
    disk_spec (B, pend, out) (disk_rw (req_buf r) (req_write r) B, filter (\<lambda>x. x \<noteq> r) pend, out)"
| answer: "r \<in> set out \<Longrightarrow> r \<notin> set pend \<Longrightarrow> disk_spec (B, pend, out) (B, pend, remove1 r out)"
| other: "same_io out B B' \<Longrightarrow> disk_spec (B, pend, out) (B', pend, out)"

section \<open>The invariant\<close>

definition avail_heads :: "vstate \<Rightarrow> nat list" where
  "avail_heads s = map unat (ring_contents (avail_ring s) (dev_idx s) (avail_idx s))"

definition used_heads :: "vstate \<Rightarrow> nat list" where
  "used_heads s = map unat (ring_contents (used_ring s) (seen_idx s) (used_idx s))"

definition open_heads :: "vstate \<Rightarrow> nat list" where
  "open_heads s = avail_heads s @ dev_queue s @ used_heads s"

definition vlen :: "vstate \<Rightarrow> bool" where
  "vlen s \<longleftrightarrow> length (v_desc s) = NUM \<and> length (v_free s) = NUM \<and> length (info_b s) = NUM \<and> length (info_status s) = NUM \<and>
    length (v_ops s) = NUM \<and> length (b_disk s) = length (bufs s) \<and>
    ring_ok NUM (avail_ring s) (dev_idx s) (avail_idx s) \<and> ring_ok NUM (used_ring s) (seen_idx s) (used_idx s) \<and>
    (\<forall>i < NUM. v_free s ! i \<longrightarrow> v_desc s ! i = null_desc)"

fun req_ok :: "vstate \<Rightarrow> vreq \<Rightarrow> bool" where
  "req_ok s (b, wrt, i0, i1, i2) \<longleftrightarrow> b < length (bufs s) \<and> unat (b_blockno (bufs s ! b)) < 2 ^ 31 \<and>
    v_desc s ! i0 = \<lparr>vd_addr = VOp i0, vd_len = 16, vd_flags = VRING_DESC_F_NEXT, vd_next = of_nat i1\<rparr> \<and>
    v_desc s ! i1 = \<lparr>vd_addr = VData b, vd_len = of_nat BSIZE,
      vd_flags = (if wrt then 0 else VRING_DESC_F_WRITE) OR VRING_DESC_F_NEXT, vd_next = of_nat i2\<rparr> \<and>
    v_desc s ! i2 = \<lparr>vd_addr = VStatus i0, vd_len = 1, vd_flags = VRING_DESC_F_WRITE, vd_next = 0\<rparr> \<and>
    v_ops s ! i0 = \<lparr>vr_type = (if wrt then VIRTIO_BLK_T_OUT else VIRTIO_BLK_T_IN), vr_reserved = 0,
      vr_sector = ucast (b_blockno (bufs s ! b) * 2)\<rparr> \<and> info_b s ! i0 = Some b"

definition vinv :: "vstate \<Rightarrow> vreq list \<Rightarrow> bool" where
  "vinv s rs \<longleftrightarrow> vlen s \<and> distinct (concat (map req_chain rs)) \<and> set (concat (map req_chain rs)) \<subseteq> {..<NUM} \<and>
    (\<forall>i < NUM. v_free s ! i \<longleftrightarrow> i \<notin> set (concat (map req_chain rs))) \<and> distinct (map req_buf rs) \<and>
    list_all (req_ok s) rs \<and> distinct (open_heads s) \<and> set (open_heads s) \<subseteq> req_head ` set rs \<and>
    list_all (\<lambda>r. (b_disk s ! req_buf r \<longleftrightarrow> req_head r \<in> set (open_heads s)) \<and>
      (req_head r \<in> set (used_heads s) \<longrightarrow> info_status s ! req_head r = 0)) rs"

definition pending :: "vstate \<Rightarrow> vreq list \<Rightarrow> vreq list" where
  "pending s rs = filter (\<lambda>r. req_head r \<in> set (avail_heads s @ dev_queue s)) rs"

end
