(* ===== verification/Virtioproof.thy ===== *)
theory Virtioproof
  imports Virtio
begin

text \<open>
  The disk driver does what the buffer cache assumes of it: with every device that keeps to the specification,
  the driver implements \<^verbatim>\<open>disk_rw\<close> for any number of processes at a time.
\<close>

section \<open>Requests and rings\<close>

lemma same_driverD:
  assumes "same_driver s s'"
  shows "v_desc s' = v_desc s" "avail_idx s' = avail_idx s" "avail_ring s' = avail_ring s" "used_idx s' = used_idx s"
    "used_ring s' = used_ring s" "v_free s' = v_free s" "seen_idx s' = seen_idx s" "info_b s' = info_b s"
    "info_status s' = info_status s" "v_ops s' = v_ops s" "b_disk s' = b_disk s" "dev_idx s' = dev_idx s" "dev_queue s' = dev_queue s"
  using assms by (cases s; cases s'; simp add: same_driver_def)+

lemma ring_size_NUM: "ring_size TYPE(16) NUM"
  by (simp add: ring_size_def NUM_def)

lemma distinct_count: "distinct xs \<Longrightarrow> set xs \<subseteq> {..<n} \<Longrightarrow> length xs \<le> n"
  by (metis card_lessThan card_mono distinct_card finite_lessThan)

lemma length_chains: "length (concat (map req_chain rs)) = 3 * length rs"
  by (induction rs) auto

lemma few_requests: "vinv s rs \<Longrightarrow> length rs \<le> 2 \<and> length (open_heads s) \<le> 2"
proof -
  assume v: "vinv s rs"
  then have "3 * length rs \<le> NUM" using distinct_count [of "concat (map req_chain rs)" NUM] by (simp only: vinv_def length_chains)
  then have l: "length rs \<le> 2" by (simp add: NUM_def)
  have "card (set (open_heads s)) \<le> card (req_head ` set rs)" using v by (intro card_mono) (auto simp: vinv_def)
  also have "\<dots> \<le> length rs" by (meson card_image_le card_length finite_set le_trans)
  finally show ?thesis using l v by (simp add: vinv_def distinct_card)
qed

lemma head_in_chain: "req_head r \<in> set (req_chain r)"
  by (cases r rule: req_head.cases) simp

lemma chains_inj:
  assumes "distinct (concat (map req_chain rs))" "r \<in> set rs" "r' \<in> set rs" "i \<in> set (req_chain r)" "i \<in> set (req_chain r')"
  shows "r = r'"
  using assms
proof (induction rs)
  case (Cons x rs)
  have "i \<in> set (concat (map req_chain rs))" if "y \<in> set rs" "i \<in> set (req_chain y)" for y using that by auto
  then show ?case using Cons by auto
qed simp

lemma distinct_concat_remove1: "distinct (concat (map f rs)) \<Longrightarrow> distinct (concat (map f (remove1 r rs)))"
proof (induction rs)
  case (Cons x rs)
  have "set (concat (map f (remove1 r rs))) \<subseteq> set (concat (map f rs))" using set_remove1_subset [of r rs] by auto
  then show ?case using Cons by auto
qed simp

lemma heads_inj: "distinct (concat (map req_chain rs)) \<Longrightarrow> inj_on req_head (set rs)"
  using chains_inj head_in_chain by (intro inj_onI) metis

lemma distinct_reqs: "distinct (concat (map req_chain rs)) \<Longrightarrow> distinct rs"
proof (induction rs)
  case (Cons x rs)
  then show ?case using head_in_chain [of x] by force
qed simp

lemma req_ok_mono:
  "req_ok s r \<Longrightarrow> b_blockno (bufs s' ! req_buf r) = b_blockno (bufs s ! req_buf r) \<Longrightarrow> length (bufs s') = length (bufs s) \<Longrightarrow>
    (\<And>i. i \<in> set (req_chain r) \<Longrightarrow> v_desc s' ! i = v_desc s ! i \<and> v_ops s' ! i = v_ops s ! i \<and> info_b s' ! i = info_b s ! i) \<Longrightarrow>
    req_ok s' r"
  by (cases "(s, r)" rule: req_ok.cases) simp

lemma vinvD:
  assumes "vinv s rs" "r \<in> set rs"
  shows "req_ok s r" "b_disk s ! req_buf r \<longleftrightarrow> req_head r \<in> set (open_heads s)"
    "req_head r \<in> set (used_heads s) \<Longrightarrow> info_status s ! req_head r = 0" "\<And>i. i \<in> set (req_chain r) \<Longrightarrow> i < NUM \<and> \<not> v_free s ! i"
  using assms by (auto simp: vinv_def list_all_iff)

section \<open>Descriptors\<close>

lemma wakeup_procs: "\<exists>P. wakeup c s = s\<lparr>procs := P\<rparr>"
  by (simp add: wakeup_def) blast

lemma alloc_desc_Some:
  "alloc_desc s = (Some i, s') \<Longrightarrow> i < NUM \<and> v_free s ! i \<and> s' = s\<lparr>v_free := (v_free s)[i := False]\<rparr>"
  by (auto simp: alloc_desc_def find_Some_iff split: option.splits)

lemma alloc_desc_None: "alloc_desc s = (None, s') \<Longrightarrow> s' = s"
  by (auto simp: alloc_desc_def split: option.splits)

lemma free_desc_ok:
  assumes "i < NUM" "\<not> v_free s ! i"
  obtains P where "free_desc i s = Ok (s\<lparr>procs := P, v_desc := (v_desc s)[i := null_desc], v_free := (v_free s)[i := True]\<rparr>)"
proof -
  obtain P where "wakeup ChDiskFree (s\<lparr>v_desc := (v_desc s)[i := null_desc], v_free := (v_free s)[i := True]\<rparr>) =
      s\<lparr>v_desc := (v_desc s)[i := null_desc], v_free := (v_free s)[i := True]\<rparr>\<lparr>procs := P\<rparr>"
    using wakeup_procs by blast
  then show thesis using that [of P] assms by (simp add: free_desc_def)
qed

lemma undo_alloc:
  assumes "vlen s" "i < NUM" "v_free s ! i"
  shows "(v_desc s)[i := null_desc] = v_desc s" "(v_free s)[i := True] = v_free s" "(v_free s)[i := False, i := True] = v_free s"
  using assms by (auto simp: vlen_def list_update_same_conv)

lemma alloc3_cases:
  assumes "vlen s"
  obtains (ok) i0 i1 i2 where "alloc3_desc s = Ok (Some (i0, i1, i2), s\<lparr>v_free := (v_free s)[i0 := False, i1 := False, i2 := False]\<rparr>)"
      "distinct [i0, i1, i2]" "{i0, i1, i2} \<subseteq> {..<NUM}" "v_free s ! i0" "v_free s ! i1" "v_free s ! i2"
  | (fail) P where "alloc3_desc s = Ok (None, s\<lparr>procs := P\<rparr>)"
proof -
  have len: "length (v_free s) = NUM" using assms by (simp add: vlen_def)
  obtain r0 s0 where a0: "alloc_desc s = (r0, s0)" by (cases "alloc_desc s") auto
  show thesis
  proof (cases r0)
    case None
    then show thesis using fail [of "procs s"] a0 alloc_desc_None [of s s0] by (simp add: alloc3_desc_def)
  next
    case (Some i0)
    note i0 = alloc_desc_Some [OF a0 [unfolded Some]]
    obtain r1 s1 where a1: "alloc_desc s0 = (r1, s1)" by (cases "alloc_desc s0") auto
    show thesis
    proof (cases r1)
      case None
      then have s1: "s1 = s0" using a1 alloc_desc_None by blast
      obtain P where "free_desc i0 s0 = Ok (s0\<lparr>procs := P, v_desc := (v_desc s0)[i0 := null_desc], v_free := (v_free s0)[i0 := True]\<rparr>)"
        by (rule free_desc_ok [of i0 s0]) (use i0 len in auto)
      then show thesis using fail [of P] a0 a1 Some None s1 i0 undo_alloc [OF assms, of i0] by (simp add: alloc3_desc_def)
    next
      case S1: (Some i1)
      note i1 = alloc_desc_Some [OF a1 [unfolded S1]]
      then have ne: "i1 \<noteq> i0" "v_free s ! i1" using i0 len by (auto simp: nth_list_update split: if_splits)
      obtain r2 s2 where a2: "alloc_desc s1 = (r2, s2)" by (cases "alloc_desc s1") auto
      show thesis
      proof (cases r2)
        case None
        then have s2: "s2 = s1" using a2 alloc_desc_None by blast
        obtain P where f0: "free_desc i0 s1 = Ok (s1\<lparr>procs := P, v_desc := (v_desc s1)[i0 := null_desc], v_free := (v_free s1)[i0 := True]\<rparr>)"
            (is "_ = Ok ?t") by (rule free_desc_ok [of i0 s1]) (use i0 i1 ne len in auto)
        obtain Q where f1: "free_desc i1 ?t = Ok (?t\<lparr>procs := Q, v_desc := (v_desc ?t)[i1 := null_desc], v_free := (v_free ?t)[i1 := True]\<rparr>)"
          by (rule free_desc_ok [of i1 ?t]) (use i0 i1 ne len in auto)
        have "(v_free s)[i0 := False, i1 := False, i0 := True, i1 := True] = v_free s"
          using undo_alloc [OF assms, of i0] undo_alloc [OF assms, of i1] i0 i1 ne by (simp add: list_update_swap)
        then show thesis using fail [of Q] a0 a1 a2 Some S1 None s2 i0 i1 ne f0 f1 undo_alloc [OF assms, of i0] undo_alloc [OF assms, of i1]
          by (simp add: alloc3_desc_def)
      next
        case S2: (Some i2)
        note i2 = alloc_desc_Some [OF a2 [unfolded S2]]
        then have "i2 \<noteq> i0" "i2 \<noteq> i1" "v_free s ! i2" using i0 i1 ne len by (auto simp: nth_list_update split: if_splits)
        then show thesis using ok [of i0 i1 i2] a0 a1 a2 Some S1 S2 i0 i1 i2 ne by (simp add: alloc3_desc_def)
      qed
    qed
  qed
qed

section \<open>Starting a request\<close>

lemma heads_short: "vinv s rs \<Longrightarrow> unat (avail_idx s - dev_idx s) < NUM \<and> unat (used_idx s - seen_idx s) + length (dev_queue s) < NUM"
  using few_requests [of s rs] by (simp add: open_heads_def avail_heads_def used_heads_def NUM_def)

lemma avail_put:
  assumes "vinv s rs" "i < NUM"
  shows "ring_ok NUM ((avail_ring s)[unat (avail_idx s) mod NUM := of_nat i]) (dev_idx s) (avail_idx s + 1)"
    "map unat (ring_contents ((avail_ring s)[unat (avail_idx s) mod NUM := of_nat i]) (dev_idx s) (avail_idx s + 1)) = avail_heads s @ [i]"
proof -
  have r: "ring_ok NUM (avail_ring s) (dev_idx s) (avail_idx s)" using assms(1) by (simp add: vinv_def vlen_def)
  have l: "unat (avail_idx s - dev_idx s) < NUM" using heads_short [OF assms(1)] by simp
  note p = ring_put [OF ring_size_NUM r l, of "of_nat i"]
  show "ring_ok NUM ((avail_ring s)[unat (avail_idx s) mod NUM := of_nat i]) (dev_idx s) (avail_idx s + 1)" by (rule p(1))
  have "unat (of_nat i :: ushort) = i" using assms(2) by (simp add: NUM_def unsigned_of_nat take_bit_nat_eq_self)
  then show "map unat (ring_contents ((avail_ring s)[unat (avail_idx s) mod NUM := of_nat i]) (dev_idx s) (avail_idx s + 1)) = avail_heads s @ [i]"
    unfolding p(2) by (simp add: avail_heads_def)
qed

lemma virtio_disk_rw_started:
  assumes "vlen s" "virtio_disk_rw b wrt s = Ok (Wait (ChBuf b) (NeedDone i0), s')"
  obtains i1 i2 R where "distinct [i0, i1, i2]" "{i0, i1, i2} \<subseteq> {..<NUM}" "v_free s ! i0" "v_free s ! i1" "v_free s ! i2"
    "s' = (format_desc b wrt i0 i1 i2 (s\<lparr>v_free := (v_free s)[i0 := False, i1 := False, i2 := False]\<rparr>))
      \<lparr>b_disk := (b_disk s)[b := True], info_b := (info_b s)[i0 := Some b],
       avail_ring := (avail_ring s)[unat (avail_idx s) mod NUM := of_nat i0], avail_idx := avail_idx s + 1, v_regs := R\<rparr>"
  using assms(1)
proof (cases rule: alloc3_cases)
  case (ok j0 j1 j2)
  then have "j0 = i0" using assms(2) by (simp add: virtio_disk_rw_def Let_def)
  then show thesis using that [of j1 j2 "(v_regs s)(VIRTIO_MMIO_QUEUE_NOTIFY := 0)"] ok assms(2)
    by (auto simp: virtio_disk_rw_def Let_def format_desc_def set_vreg_def)
next
  case (fail P)
  then show thesis using assms(2) by (simp add: virtio_disk_rw_def)
qed

lemma vinv_start:
  assumes v: "vinv s rs" and run: "virtio_disk_rw b wrt s = Ok (Wait (ChBuf b) (NeedDone i0), s')"
    and b: "b < length (bufs s)" "b \<notin> req_buf ` set rs" "unat (b_blockno (bufs s ! b)) < 2 ^ 31"
    and i: "i1 = unat (vd_next (v_desc s' ! i0))" "i2 = unat (vd_next (v_desc s' ! i1))"
  defines "r \<equiv> (b, wrt, i0, i1, i2)"
  shows "vinv s' (rs @ [r])" "pending s' (rs @ [r]) = pending s rs @ [r]"
    "bufs s' = bufs s \<and> disk s' = disk s \<and> dtrace s' = dtrace s"
proof -
  have l: "vlen s" using v by (simp add: vinv_def)
  obtain j1 j2 R where j: "distinct [i0, j1, j2]" "{i0, j1, j2} \<subseteq> {..<NUM}" "v_free s ! i0" "v_free s ! j1" "v_free s ! j2"
    and s': "s' = (format_desc b wrt i0 j1 j2 (s\<lparr>v_free := (v_free s)[i0 := False, j1 := False, j2 := False]\<rparr>))
      \<lparr>b_disk := (b_disk s)[b := True], info_b := (info_b s)[i0 := Some b],
       avail_ring := (avail_ring s)[unat (avail_idx s) mod NUM := of_nat i0], avail_idx := avail_idx s + 1, v_regs := R\<rparr>"
    by (rule virtio_disk_rw_started [OF l run])
  have u: "unat (of_nat k :: ushort) = k" if "k < NUM" for k using that by (simp add: NUM_def unsigned_of_nat take_bit_nat_eq_self)
  have ji: "i1 = j1" "i2 = j2" using i j l u by (auto simp: s' format_desc_def Let_def vlen_def)
  note f = s' [unfolded format_desc_def Let_def]
  note c = j [unfolded ji [symmetric]]
  have free: "i \<notin> set (req_chain x)" if "i \<in> {i0, i1, i2}" "x \<in> set rs" for i x
    using vinvD(4) [OF v that(2)] that(1) c by auto
  have heads: "avail_heads s' = avail_heads s @ [i0]" "dev_queue s' = dev_queue s" "used_heads s' = used_heads s"
    using avail_put(2) [OF v, of i0] c by (simp_all add: f avail_heads_def used_heads_def)
  have new: "i0 \<notin> set (open_heads s)" using v free [of i0] head_in_chain by (force simp: vinv_def)
  have oh: "set (open_heads s') = insert i0 (set (open_heads s))" by (auto simp: open_heads_def heads)
  have ne: "req_head x \<noteq> i0" if "x \<in> set rs" for x using free [OF _ that, of i0] head_in_chain [of x] by auto
  have "filter (\<lambda>x. req_head x \<in> set ((avail_heads s @ [i0]) @ dev_queue s)) rs = filter (\<lambda>x. req_head x \<in> set (avail_heads s @ dev_queue s)) rs"
    by (rule filter_cong) (use ne in force)+
  then show "pending s' (rs @ [r]) = pending s rs @ [r]" by (simp add: pending_def heads r_def)
  have len: "length (v_desc s) = NUM" "length (v_free s) = NUM" "length (info_b s) = NUM" "length (v_ops s) = NUM" "length (b_disk s) = length (bufs s)"
    "length (info_status s) = NUM" using l by (simp_all add: vlen_def)
  have "vlen s'" using l avail_put(1) [OF v, of i0] c by (auto simp: vlen_def f nth_list_update ji)
  moreover have ch: "distinct (concat (map req_chain (rs @ [r])))" "set (concat (map req_chain (rs @ [r]))) \<subseteq> {..<NUM}"
    using v c free by (auto simp: vinv_def r_def)
  moreover have "\<forall>k < NUM. v_free s' ! k \<longleftrightarrow> k \<notin> set (concat (map req_chain (rs @ [r])))"
    using v c len by (auto simp: vinv_def f r_def nth_list_update ji)
  moreover have "distinct (map req_buf (rs @ [r]))" using v b(2) by (simp add: vinv_def r_def)
  moreover have "req_ok s' x" if "x \<in> set rs" for x
  proof (rule req_ok_mono [OF vinvD(1) [OF v that]])
    fix k assume "k \<in> set (req_chain x)"
    then have "k \<notin> {i0, i1, i2}" using free that by blast
    then show "v_desc s' ! k = v_desc s ! k \<and> v_ops s' ! k = v_ops s ! k \<and> info_b s' ! k = info_b s ! k" by (simp add: f ji)
  qed (simp_all add: f)
  moreover have "req_ok s' r" using c b len by (simp add: r_def f ji BSIZE_def)
  moreover have fe: "b_disk s' = (b_disk s)[b := True]" "info_status s' = (info_status s)[i0 := 0xff]" by (simp_all add: f)
  moreover have bx: "req_buf x \<noteq> b" if "x \<in> set rs" for x using b(2) that by blast
  moreover have "distinct (open_heads s')" using v new by (auto simp: vinv_def open_heads_def heads)
  moreover have "set (open_heads s') \<subseteq> req_head ` set (rs @ [r])" using v by (auto simp: vinv_def oh r_def)
  moreover have "(b_disk s' ! req_buf x \<longleftrightarrow> req_head x \<in> set (open_heads s')) \<and> (req_head x \<in> set (used_heads s') \<longrightarrow> info_status s' ! req_head x = 0)"
    if "x \<in> set rs" for x
    using vinvD(2,3) [OF v that] ne [OF that] bx [OF that] by (simp add: fe oh heads)
  moreover have "(b_disk s' ! req_buf r \<longleftrightarrow> req_head r \<in> set (open_heads s')) \<and> (req_head r \<in> set (used_heads s') \<longrightarrow> info_status s' ! req_head r = 0)"
    using new b(1) len oh by (simp add: r_def fe heads open_heads_def)
  ultimately show "vinv s' (rs @ [r])" unfolding vinv_def by (simp add: list_all_iff)
  show "bufs s' = bufs s \<and> disk s' = disk s \<and> dtrace s' = dtrace s" by (simp add: f)
qed

section \<open>Steps that leave the requests alone\<close>

lemma same_io_refl: "bufs s' = bufs s \<Longrightarrow> disk s' = disk s \<Longrightarrow> dtrace s' = dtrace s \<Longrightarrow> same_io rs s s'"
  by (simp add: same_io_def)

lemma vinv_other:
  assumes "vinv s rs" "same_driver s s'" "same_io rs s s'"
  shows "vinv s' rs" "pending s' rs = pending s rs"
proof -
  note d = same_driverD [OF assms(2)]
  have h: "open_heads s' = open_heads s" "used_heads s' = used_heads s" "avail_heads s' = avail_heads s"
    by (simp_all add: open_heads_def avail_heads_def used_heads_def d)
  have "req_ok s' x" if "x \<in> set rs" for x
    by (rule req_ok_mono [OF vinvD(1) [OF assms(1) that]]) (use assms(3) that in \<open>simp_all add: same_io_def d\<close>)
  then show "vinv s' rs" using assms by (simp add: vinv_def vlen_def d h list_all_iff same_io_def)
  show "pending s' rs = pending s rs" by (simp add: pending_def h d)
qed

lemma vinv_crowded:
  assumes "vinv s rs" "virtio_disk_rw b wrt s = Ok (Wait ChDiskFree NeedDesc, s')"
  shows "same_driver s s'" "same_io rs s s'"
proof -
  have "vlen s" using assms(1) by (simp add: vinv_def)
  then have "\<exists>P. s' = s\<lparr>procs := P\<rparr>"
    by (cases rule: alloc3_cases) (use assms(2) in \<open>auto simp: virtio_disk_rw_def Let_def\<close>)
  then show "same_driver s s'" "same_io rs s s'" by (auto simp: same_driver_def same_io_def)
qed

section \<open>The device\<close>

lemma vinv_fetch:
  assumes v: "vinv s rs" and f: "dev_fetch s s'"
  shows "vinv s' rs" "pending s' rs = pending s rs" "bufs s' = bufs s \<and> disk s' = disk s \<and> dtrace s' = dtrace s"
proof -
  obtain R where ne: "dev_idx s \<noteq> avail_idx s" and
    s': "s' = s\<lparr>dev_queue := dev_queue s @ [unat (avail_ring s ! (unat (dev_idx s) mod NUM))], dev_idx := dev_idx s + 1, v_regs := R\<rparr>"
    using f by (auto simp: dev_fetch_def)
  have r: "ring_ok NUM (avail_ring s) (dev_idx s) (avail_idx s)" using v by (simp add: vinv_def vlen_def)
  note g = ring_get [OF r ne]
  let ?h = "unat (avail_ring s ! (unat (dev_idx s) mod NUM))"
  have h: "avail_heads s = ?h # avail_heads s'" "dev_queue s' = dev_queue s @ [?h]" "used_heads s' = used_heads s"
    using g(2) by (simp_all add: avail_heads_def used_heads_def s')
  have o: "set (open_heads s') = set (open_heads s)" "distinct (open_heads s') = distinct (open_heads s)"
    by (auto simp: open_heads_def h)
  have "req_ok s' x" if "x \<in> set rs" for x
    by (rule req_ok_mono [OF vinvD(1) [OF v that]]) (simp_all add: s')
  moreover have "vlen s'" using v g(1) by (simp add: vinv_def vlen_def s')
  moreover have "v_free s' = v_free s" "b_disk s' = b_disk s" "info_status s' = info_status s" by (simp_all add: s')
  ultimately show "vinv s' rs" using v by (simp add: vinv_def o h(3) list_all_iff)
  show "pending s' rs = pending s rs" by (auto simp: pending_def h intro!: filter_cong)
  show "bufs s' = bufs s \<and> disk s' = disk s \<and> dtrace s' = dtrace s" by (simp add: s')
qed

lemma dev_io_disk_rw:
  assumes "unat n < 2 ^ 31" "b_blockno (bufs s ! b) = n"
  shows "dev_io \<lparr>vr_type = (if wrt then VIRTIO_BLK_T_OUT else VIRTIO_BLK_T_IN), vr_reserved = 0, vr_sector = ucast (n * 2)\<rparr> b s = disk_rw b wrt s"
proof -
  have "unat (n * 2) = 2 * unat n" using assms(1) by (simp add: unat_word_ariths)
  then have "unat ((ucast (n * 2) :: uint64) div 2) = unat n"
    by (simp add: unat_div unsigned_ucast_eq take_bit_nat_eq_self)
  then have "of_nat (unat ((ucast (n * 2) :: uint64) div 2)) = (of_nat (unat n) :: uint)" by (rule arg_cong)
  also have "\<dots> = n" by simp
  finally have "ucast ((ucast (n * 2) :: uint64) div 2) = n" unfolding of_nat_unat .
  then show ?thesis using assms(2) by (simp add: dev_io_def disk_rw_def Let_def BSIZE_def VIRTIO_BLK_T_OUT_def VIRTIO_BLK_T_IN_def)
qed

lemma vinv_complete:
  assumes v: "vinv s rs" and c: "dev_complete h s s'"
  obtains r where "r \<in> set (pending s rs)" "vinv s' rs" "pending s' rs = filter (\<lambda>x. x \<noteq> r) (pending s rs)"
    "bstate.truncate s' = disk_rw (req_buf r) (req_write r) (bstate.truncate s)"
proof -
  have h: "h \<in> set (dev_queue s)" using c by (simp add: dev_complete_def)
  then obtain r where r: "r \<in> set rs" "req_head r = h" using v by (auto simp: vinv_def open_heads_def)
  obtain b wrt i1 i2 where rr: "r = (b, wrt, h, i1, i2)" using r(2) by (cases r rule: req_head.cases) auto
  note ok = vinvD(1) [OF v r(1), unfolded rr req_ok.simps]
  have i: "h < NUM" "i1 < NUM" "i2 < NUM" using vinvD(4) [OF v r(1)] by (auto simp: rr)
  have u: "unat (of_nat k :: ushort) = k" if "k < NUM" for k using that by (simp add: NUM_def unsigned_of_nat take_bit_nat_eq_self)
  obtain R where s': "s' = (disk_rw b wrt s)\<lparr>info_status := (info_status s)[h := 0],
      used_ring := (used_ring s)[unat (used_idx s) mod NUM := of_nat h], used_idx := used_idx s + 1,
      dev_queue := remove1 h (dev_queue s), v_regs := R\<rparr>"
    using c ok dev_io_disk_rw [of "b_blockno (bufs s ! b)" s b wrt] u i by (auto simp: dev_complete_def Let_def)
  have fe: "v_desc s' = v_desc s" "v_free s' = v_free s" "info_b s' = info_b s" "v_ops s' = v_ops s" "b_disk s' = b_disk s"
    "avail_ring s' = avail_ring s" "dev_idx s' = dev_idx s" "avail_idx s' = avail_idx s" "seen_idx s' = seen_idx s"
    "info_status s' = (info_status s)[h := 0]" "dev_queue s' = remove1 h (dev_queue s)"
    "used_ring s' = (used_ring s)[unat (used_idx s) mod NUM := of_nat h]" "used_idx s' = used_idx s + 1"
    "length (bufs s') = length (bufs s)"
    by (simp_all add: s' disk_rw_def Let_def set_buf_def)
  have bn: "b_blockno (bufs s' ! k) = b_blockno (bufs s ! k)" for k
    using ok by (cases "k = b") (simp_all add: s' disk_rw_def Let_def set_buf_def)
  have ring: "ring_ok NUM (used_ring s) (seen_idx s) (used_idx s)" using v by (simp add: vinv_def vlen_def)
  have l: "unat (used_idx s - seen_idx s) < NUM" using heads_short [OF v] by simp
  note p = ring_put [OF ring_size_NUM ring l, of "of_nat h"]
  have "unat (of_nat h :: uint) = h" using i(1) by (simp add: NUM_def unsigned_of_nat take_bit_nat_eq_self)
  then have heads: "used_heads s' = used_heads s @ [h]" "avail_heads s' = avail_heads s" using p(2) by (simp_all add: used_heads_def avail_heads_def fe)
  have d: "distinct (open_heads s)" using v by (simp add: vinv_def)
  have o: "set (open_heads s') = set (open_heads s)" "distinct (open_heads s')"
    using d h by (auto simp: open_heads_def heads fe)
  have "vlen s'" using v p(1) by (simp add: vinv_def vlen_def fe)
  moreover have "req_ok s' x" if "x \<in> set rs" for x
    by (rule req_ok_mono [OF vinvD(1) [OF v that]]) (simp_all add: fe bn)
  moreover have "req_head x \<in> set (used_heads s') \<longrightarrow> info_status s' ! req_head x = 0" if "x \<in> set rs" for x
    using vinvD(3) [OF v that] i(1) v by (auto simp: heads fe vinv_def vlen_def nth_list_update)
  ultimately have "vinv s' rs" using v o by (simp add: vinv_def fe list_all_iff)
  moreover have "pending s' rs = filter (\<lambda>x. x \<noteq> r) (pending s rs)"
  proof -
    have i: "req_head x \<noteq> h" if "x \<in> set rs" "x \<noteq> r" for x
      using heads_inj [of rs] that r v by (auto simp: vinv_def inj_on_def)
    have n: "h \<notin> set (avail_heads s)" "set (remove1 h (dev_queue s)) = set (dev_queue s) - {h}" using d h by (auto simp: open_heads_def)
    have "req_head x \<in> set (avail_heads s @ remove1 h (dev_queue s)) \<longleftrightarrow> x \<noteq> r \<and> req_head x \<in> set (avail_heads s @ dev_queue s)"
      if "x \<in> set rs" for x using n r(2) i [OF that] by (cases "x = r") simp_all
    then show ?thesis unfolding pending_def filter_filter heads fe by (intro filter_cong) blast+
  qed
  moreover have "r \<in> set (pending s rs)" using r h by (simp add: pending_def)
  moreover have "bstate.truncate s' = disk_rw (req_buf r) (req_write r) (bstate.truncate s)"
    by (simp add: s' rr disk_rw_def set_buf_def Let_def bstate.defs)
  ultimately show thesis using that by blast
qed

section \<open>Interrupts\<close>

lemma vinv_intr_step:
  assumes v: "vinv s rs" and u: "unat (used_idx s - seen_idx s) = Suc n"
  obtains s1 where "virtio_intr_loop (Suc n) s = virtio_intr_loop n s1" "vinv s1 rs" "pending s1 rs = pending s rs"
    "bufs s1 = bufs s \<and> disk s1 = disk s \<and> dtrace s1 = dtrace s" "unat (used_idx s1 - seen_idx s1) = n"
proof -
  have ring: "ring_ok NUM (used_ring s) (seen_idx s) (used_idx s)" using v by (simp add: vinv_def vlen_def)
  have ne: "seen_idx s \<noteq> used_idx s" using u by auto
  note g = ring_get [OF ring ne]
  let ?i = "unat (used_ring s ! (unat (seen_idx s) mod NUM))"
  have uh: "used_heads s = ?i # map unat (ring_contents (used_ring s) (seen_idx s + 1) (used_idx s))" using g(2) by (simp add: used_heads_def)
  then have "?i \<in> req_head ` set rs" using v by (auto simp: vinv_def open_heads_def)
  then obtain r where r: "r \<in> set rs" "req_head r = ?i" by auto
  let ?b = "req_buf r"
  have i: "info_b s ! ?i = Some ?b" "?b < length (bufs s)" using vinvD(1) [OF v r(1)] r(2) by (cases r rule: req_head.cases; simp)+
  have st: "info_status s ! ?i = 0" using vinvD(3) [OF v r(1)] uh r(2) by simp
  obtain P where P: "wakeup (ChBuf ?b) (s\<lparr>b_disk := (b_disk s)[?b := False]\<rparr>) = s\<lparr>b_disk := (b_disk s)[?b := False]\<rparr>\<lparr>procs := P\<rparr>"
    using wakeup_procs by blast
  let ?s = "s\<lparr>b_disk := (b_disk s)[?b := False], procs := P, seen_idx := seen_idx s + 1\<rparr>"
  have run: "virtio_intr_loop (Suc n) s = virtio_intr_loop n ?s" using i st P by (simp add: Let_def)
  have heads: "used_heads s = ?i # used_heads ?s" "avail_heads ?s = avail_heads s" "dev_queue ?s = dev_queue s"
    using uh by (simp_all add: used_heads_def avail_heads_def)
  have d: "distinct (open_heads s)" using v by (simp add: vinv_def)
  have o: "set (open_heads ?s) = set (open_heads s) - {?i}" "distinct (open_heads ?s)"
    using d by (auto simp: open_heads_def heads)
  have l: "length (b_disk s) = length (bufs s)" using v by (simp add: vinv_def vlen_def)
  have eq: "req_buf x = ?b \<longleftrightarrow> x = r" "req_head x = ?i \<longleftrightarrow> x = r" if "x \<in> set rs" for x
    using v that r heads_inj [of rs] by (auto simp: vinv_def distinct_map inj_on_def)
  have "(b_disk ?s ! req_buf x \<longleftrightarrow> req_head x \<in> set (open_heads ?s)) \<and> (req_head x \<in> set (used_heads ?s) \<longrightarrow> info_status ?s ! req_head x = 0)"
    if x: "x \<in> set rs" for x
    using vinvD(2,3) [OF v x] eq [OF x] l i(2) by (auto simp: o heads(1) nth_list_update)
  moreover have "req_ok ?s x" if "x \<in> set rs" for x
    by (rule req_ok_mono [OF vinvD(1) [OF v that]]) simp_all
  moreover have "vlen ?s" using v g(1) by (simp add: vinv_def vlen_def)
  ultimately have "vinv ?s rs" using v o by (auto simp: vinv_def list_all_iff)
  moreover have "pending ?s rs = pending s rs" by (simp add: pending_def heads)
  moreover have "unat (used_idx ?s - seen_idx ?s) = n"
    using u g length_ring_contents [of "used_ring s" "seen_idx s + 1" "used_idx s"] length_ring_contents [of "used_ring s" "seen_idx s" "used_idx s"]
    by simp
  ultimately show thesis using that [of ?s] run by simp
qed

lemma vinv_intr_loop:
  "vinv s rs \<Longrightarrow> unat (used_idx s - seen_idx s) = n \<Longrightarrow>
    \<exists>s'. virtio_intr_loop n s = Ok s' \<and> vinv s' rs \<and> pending s' rs = pending s rs \<and>
      bufs s' = bufs s \<and> disk s' = disk s \<and> dtrace s' = dtrace s"
proof (induction n arbitrary: s)
  case (Suc n)
  from vinv_intr_step [OF Suc.prems] obtain s1 where s1: "virtio_intr_loop (Suc n) s = virtio_intr_loop n s1" "vinv s1 rs" "pending s1 rs = pending s rs"
    "bufs s1 = bufs s \<and> disk s1 = disk s \<and> dtrace s1 = dtrace s" "unat (used_idx s1 - seen_idx s1) = n" .
  from Suc.IH [OF s1(2,5)] show ?case using s1(1,3,4) by auto
qed simp

lemma vinv_intr:
  assumes "vinv s rs"
  obtains s' where "virtio_disk_intr s = Ok s'" "vinv s' rs" "pending s' rs = pending s rs"
    "bufs s' = bufs s \<and> disk s' = disk s \<and> dtrace s' = dtrace s"
proof -
  let ?s = "set_vreg VIRTIO_MMIO_INTERRUPT_ACK (v_regs s VIRTIO_MMIO_INTERRUPT_STATUS AND 0x3) s"
  have heads: "used_heads ?s = used_heads s" "avail_heads ?s = avail_heads s" "open_heads ?s = open_heads s" "dev_queue ?s = dev_queue s"
    by (simp_all add: set_vreg_def used_heads_def avail_heads_def open_heads_def)
  have "req_ok ?s x" if "x \<in> set rs" for x
    by (rule req_ok_mono [OF vinvD(1) [OF assms that]]) (simp_all add: set_vreg_def)
  then have "vinv ?s rs" using assms by (simp add: vinv_def heads list_all_iff) (simp add: vlen_def set_vreg_def)
  from vinv_intr_loop [OF this refl] show thesis using that heads by (auto simp: virtio_disk_intr_def Let_def pending_def) (simp add: set_vreg_def)
qed

section \<open>Completion\<close>

lemma free_chain_three:
  assumes i: "distinct [i0, i1, i2]" "{i0, i1, i2} \<subseteq> {..<NUM}" "\<not> v_free s ! i0" "\<not> v_free s ! i1" "\<not> v_free s ! i2"
    and d: "vd_flags (v_desc s ! i0) AND VRING_DESC_F_NEXT \<noteq> 0" "vd_next (v_desc s ! i0) = of_nat i1"
      "vd_flags (v_desc s ! i1) AND VRING_DESC_F_NEXT \<noteq> 0" "vd_next (v_desc s ! i1) = of_nat i2"
      "vd_flags (v_desc s ! i2) AND VRING_DESC_F_NEXT = 0"
  obtains P where "free_chain i0 s = Ok (s\<lparr>procs := P, v_desc := (v_desc s)[i0 := null_desc, i1 := null_desc, i2 := null_desc],
    v_free := (v_free s)[i0 := True, i1 := True, i2 := True]\<rparr>)"
proof -
  have "\<exists>m. NUM + 1 = Suc (Suc (Suc m))" by (rule exI [of _ 6]) (simp add: NUM_def)
  then obtain m where n: "NUM + 1 = Suc (Suc (Suc m))" by blast
  have u: "unat (of_nat k :: ushort) = k" if "k < NUM" for k using that by (simp add: NUM_def unsigned_of_nat take_bit_nat_eq_self)
  let ?f = "\<lambda>i s P. s\<lparr>procs := P, v_desc := (v_desc s)[i := null_desc], v_free := (v_free s)[i := True]\<rparr>"
  obtain P0 where f0: "free_desc i0 s = Ok (?f i0 s P0)" by (rule free_desc_ok [of i0 s]) (use i in auto)
  obtain P1 where f1: "free_desc i1 (?f i0 s P0) = Ok (?f i1 (?f i0 s P0) P1)"
    by (rule free_desc_ok [of i1 "?f i0 s P0"]) (use i in auto)
  obtain P2 where f2: "free_desc i2 (?f i1 (?f i0 s P0) P1) = Ok (?f i2 (?f i1 (?f i0 s P0) P1) P2)"
    by (rule free_desc_ok [of i2 "?f i1 (?f i0 s P0) P1"]) (use i in auto)
  have "free_chain i0 s = Ok (?f i2 (?f i1 (?f i0 s P0) P1) P2)"
    unfolding free_chain_def n using i d f0 f1 f2 u by (simp add: Let_def)
  then show thesis using that by simp
qed

lemma chain_flags:
  "VRING_DESC_F_NEXT AND VRING_DESC_F_NEXT \<noteq> 0" "VRING_DESC_F_WRITE AND VRING_DESC_F_NEXT = 0"
  "((if wrt then 0 else VRING_DESC_F_WRITE) OR VRING_DESC_F_NEXT) AND VRING_DESC_F_NEXT \<noteq> 0"
  by (simp_all add: VRING_DESC_F_NEXT_def VRING_DESC_F_WRITE_def)

lemma vinv_finish:
  assumes v: "vinv s rs" and r: "r \<in> set rs" and run: "virtio_disk_done (req_buf r) (req_head r) s = Ok (Return (), s')"
  shows "vinv s' (remove1 r rs)" "pending s' (remove1 r rs) = pending s rs" "r \<notin> set (pending s rs)"
    "bufs s' = bufs s \<and> disk s' = disk s \<and> dtrace s' = dtrace s"
proof -
  obtain b wrt i0 i1 i2 where rr: "r = (b, wrt, i0, i1, i2)" by (cases r) auto
  have nb: "\<not> b_disk s ! b" using run rr by (auto simp: virtio_disk_done_def split: if_splits)
  then have no: "i0 \<notin> set (open_heads s)" using vinvD(2) [OF v r] rr by simp
  then show np: "r \<notin> set (pending s rs)" by (simp add: pending_def rr open_heads_def)
  note ok = vinvD(1) [OF v r, unfolded rr req_ok.simps]
  have ch: "distinct (concat (map req_chain rs))" using v by (simp add: vinv_def)
  then have "distinct (req_chain r)" using r by (auto simp: distinct_concat_iff)
  then have i: "distinct [i0, i1, i2]" "{i0, i1, i2} \<subseteq> {..<NUM}" "\<not> v_free s ! i0" "\<not> v_free s ! i1" "\<not> v_free s ! i2"
    using vinvD(4) [OF v r] by (auto simp: rr)
  obtain P where "free_chain i0 (s\<lparr>info_b := (info_b s)[i0 := None]\<rparr>) = Ok (s\<lparr>info_b := (info_b s)[i0 := None]\<rparr>
      \<lparr>procs := P, v_desc := (v_desc s)[i0 := null_desc, i1 := null_desc, i2 := null_desc], v_free := (v_free s)[i0 := True, i1 := True, i2 := True]\<rparr>)"
    by (rule free_chain_three [of i0 i1 i2 "s\<lparr>info_b := (info_b s)[i0 := None]\<rparr>"]) (use i ok chain_flags in simp_all)
  then have s': "s' = s\<lparr>info_b := (info_b s)[i0 := None], procs := P, v_desc := (v_desc s)[i0 := null_desc, i1 := null_desc, i2 := null_desc],
      v_free := (v_free s)[i0 := True, i1 := True, i2 := True]\<rparr>"
    using run nb by (simp add: virtio_disk_done_def rr)
  then show "bufs s' = bufs s \<and> disk s' = disk s \<and> dtrace s' = dtrace s" by simp
  let ?rs = "remove1 r rs"
  have heads: "open_heads s' = open_heads s" "used_heads s' = used_heads s" "avail_heads s' = avail_heads s" "dev_queue s' = dev_queue s"
    by (simp_all add: s' open_heads_def used_heads_def avail_heads_def)
  have dr: "distinct rs" by (rule distinct_reqs [OF ch])
  have srs: "set ?rs = set rs - {r}" using dr by simp
  show "pending s' ?rs = pending s rs"
    using remove1_idem [OF np] by (simp add: pending_def heads filter_remove1)
  have other: "k \<notin> {i0, i1, i2}" if "x \<in> set ?rs" "k \<in> set (req_chain x)" for x k
    using chains_inj [OF ch r, of x k] that srs by (auto simp: rr)
  have perm: "set (concat (map req_chain ?rs)) = set (concat (map req_chain rs)) - {i0, i1, i2}"
  proof -
    have "set (concat (map req_chain rs)) = set (req_chain r) \<union> set (concat (map req_chain ?rs))" using r srs by auto
    moreover have "k \<notin> {i0, i1, i2}" if k: "k \<in> set (concat (map req_chain ?rs))" for k
    proof -
      obtain x where "x \<in> set ?rs" "k \<in> set (req_chain x)" using k unfolding set_concat set_map by blast
      then show ?thesis by (rule other)
    qed
    moreover have "set (req_chain r) = {i0, i1, i2}" by (simp add: rr)
    ultimately show ?thesis by blast
  qed
  have vl: "length (v_free s) = NUM" using v by (simp add: vinv_def vlen_def)
  have "distinct (concat (map req_chain ?rs))" using ch by (rule distinct_concat_remove1)
  moreover have "vlen s'" using v i by (auto simp: vinv_def vlen_def s' nth_list_update)
  moreover have "set (concat (map req_chain ?rs)) \<subseteq> {..<NUM}" using v perm by (auto simp: vinv_def)
  moreover have "\<forall>k < NUM. v_free s' ! k \<longleftrightarrow> k \<notin> set (concat (map req_chain ?rs))"
    using v vl i(2) unfolding perm by (auto simp: vinv_def s' nth_list_update)
  moreover have "distinct (map req_buf ?rs)" using v by (auto simp: vinv_def distinct_map srs inj_on_def)
  moreover have "req_ok s' x" if "x \<in> set ?rs" for x
  proof (rule req_ok_mono [OF vinvD(1) [OF v]])
    fix k assume "k \<in> set (req_chain x)"
    with other [OF that this] show "v_desc s' ! k = v_desc s ! k \<and> v_ops s' ! k = v_ops s ! k \<and> info_b s' ! k = info_b s ! k" by (simp add: s')
  qed (use that srs in \<open>simp_all add: s'\<close>)
  moreover have "set (open_heads s') \<subseteq> req_head ` set ?rs"
  proof
    fix h assume h: "h \<in> set (open_heads s')"
    then obtain x where x: "x \<in> set rs" "h = req_head x" using v by (auto simp: vinv_def heads)
    then have "x \<noteq> r" using h no by (auto simp: heads rr)
    then show "h \<in> req_head ` set ?rs" using x srs by blast
  qed
  moreover have "b_disk s' = b_disk s" "info_status s' = info_status s" by (simp_all add: s')
  ultimately show "vinv s' ?rs" using v srs by (simp add: vinv_def heads list_all_iff)
qed

section \<open>The property\<close>

lemma spec_same:
  "bufs s' = bufs s \<and> disk s' = disk s \<and> dtrace s' = dtrace s \<Longrightarrow>
    disk_spec (bstate.truncate s, p, rs) (bstate.truncate s', p, rs)"
  by (rule disk_spec.other) (simp add: same_io_def bstate.defs)

lemma vstep_simulates:
  assumes "virtio_device dev" "vstep dev (s, rs) (s', rs')" "vinv s rs"
  shows "vinv s' rs' \<and> disk_spec\<^sup>*\<^sup>* (bstate.truncate s, pending s rs, rs) (bstate.truncate s', pending s' rs', rs')"
  using assms(2)
proof cases
  case (start b wrt i0 i1 i2)
  note n = vinv_start [OF assms(3) start(2-7)]
  have "disk_spec (bstate.truncate s, pending s rs, rs) (bstate.truncate s, pending s rs @ [(b, wrt, i0, i1, i2)], rs @ [(b, wrt, i0, i1, i2)])"
    by (rule disk_spec.issue) (use start in simp)
  then have "disk_spec\<^sup>*\<^sup>* (bstate.truncate s, pending s rs, rs)
      (bstate.truncate s', pending s rs @ [(b, wrt, i0, i1, i2)], rs @ [(b, wrt, i0, i1, i2)])"
    by (rule converse_rtranclp_into_rtranclp) (rule r_into_rtranclp, rule spec_same [OF n(3)])
  then show ?thesis using n start(1) by simp
next
  case (crowded b wrt)
  note c = vinv_crowded [OF assms(3) crowded(2)]
  have "disk_spec (bstate.truncate s, pending s rs, rs) (bstate.truncate s', pending s rs, rs)"
    by (rule disk_spec.other) (use c(2) in \<open>simp add: same_io_def bstate.defs\<close>)
  then show ?thesis using vinv_other [OF assms(3) c] crowded(1) by auto
next
  case device
  then consider "dev_fetch s s'" | h where "dev_complete h s s'" using assms(1) by (auto simp: virtio_device_def)
  then show ?thesis
  proof cases
    case 1
    note f = vinv_fetch [OF assms(3) 1]
    then show ?thesis using spec_same [OF f(3)] device(1) by auto
  next
    case (2 h)
    obtain r where r: "r \<in> set (pending s rs)" "vinv s' rs" "pending s' rs = filter (\<lambda>x. x \<noteq> r) (pending s rs)"
      "bstate.truncate s' = disk_rw (req_buf r) (req_write r) (bstate.truncate s)"
      by (rule vinv_complete [OF assms(3) 2])
    show ?thesis using disk_spec.perform [OF r(1)] r device(1) by auto
  qed
next
  case intr
  obtain t where t: "virtio_disk_intr s = Ok t" "vinv t rs" "pending t rs = pending s rs"
    "bufs t = bufs s \<and> disk t = disk s \<and> dtrace t = dtrace s" by (rule vinv_intr [OF assms(3)])
  then show ?thesis using spec_same [OF t(4)] intr by auto
next
  case (finish r)
  note f = vinv_finish [OF assms(3) finish(2,3)]
  have "disk_spec (bstate.truncate s, pending s rs, rs) (bstate.truncate s, pending s rs, rs')"
    unfolding finish(1) by (rule disk_spec.answer) (use finish f in simp_all)
  then have "disk_spec\<^sup>*\<^sup>* (bstate.truncate s, pending s rs, rs) (bstate.truncate s', pending s rs, rs')"
    by (rule converse_rtranclp_into_rtranclp) (rule r_into_rtranclp, rule spec_same [OF f(4)])
  then show ?thesis using f finish(1) by simp
next
  case other
  have "disk_spec (bstate.truncate s, pending s rs, rs) (bstate.truncate s', pending s rs, rs)"
    by (rule disk_spec.other) (use other in \<open>simp add: same_io_def bstate.defs\<close>)
  then show ?thesis using vinv_other [OF assms(3) other(2,3)] other(1) by auto
qed

lemma vsteps_simulate:
  assumes "virtio_device dev" "(vstep dev)\<^sup>*\<^sup>* (s0, rs0) (s, rs)" "vinv s0 rs0"
  shows "vinv s rs \<and> disk_spec\<^sup>*\<^sup>* (bstate.truncate s0, pending s0 rs0, rs0) (bstate.truncate s, pending s rs, rs)"
  using assms(2)
proof (induction "(s, rs)" arbitrary: s rs rule: rtranclp_induct)
  case base
  then show ?case using assms(3) by simp
next
  case (step y)
  obtain t ts where y: "y = (t, ts)" by (cases y) auto
  with step have "vinv t ts" "disk_spec\<^sup>*\<^sup>* (bstate.truncate s0, pending s0 rs0, rs0) (bstate.truncate t, pending t ts, ts)" by auto
  then show ?case using vstep_simulates [OF assms(1) step(2) [unfolded y]] by auto
qed

text \<open>The state after \<^verbatim>\<open>virtio_disk_init\<close>, with a device that was just reset.\<close>

definition disk_idle :: "vstate \<Rightarrow> bool" where
  "disk_idle s \<longleftrightarrow> v_desc s = replicate NUM null_desc \<and> v_free s = replicate NUM True \<and> length (info_b s) = NUM \<and>
    length (info_status s) = NUM \<and> length (v_ops s) = NUM \<and> b_disk s = replicate (length (bufs s)) False \<and>
    length (avail_ring s) = NUM \<and> length (used_ring s) = NUM \<and> avail_idx s = dev_idx s \<and> used_idx s = seen_idx s \<and> dev_queue s = []"

lemma disk_idle_vinv: "disk_idle s \<Longrightarrow> vinv s []"
  by (simp add: disk_idle_def vinv_def vlen_def ring_ok_def open_heads_def avail_heads_def used_heads_def ring_contents_def)


definition disk_demo :: vstate where
  "disk_demo = bstate.extend boot_bufs
    \<lparr>v_desc = replicate NUM null_desc, avail_idx = 0, avail_ring = replicate NUM 0, used_idx = 0, used_ring = replicate NUM 0,
     v_free = replicate NUM True, seen_idx = 0, info_b = replicate NUM None, info_status = replicate NUM 0,
     v_ops = replicate NUM \<lparr>vr_type = 0, vr_reserved = 0, vr_sector = 0\<rparr>,
     b_disk = replicate (length (bufs boot_bufs)) False, v_regs = (\<lambda>_. 0), dev_idx = 0, dev_queue = []\<rparr>"


end
