(* ===== verification/Spinlock.thy ===== *)
theory Spinlock
  imports Base
begin

text \<open>
  Spin locks and the nesting of interrupt masks, \<^verbatim>\<open>kernel/spinlock.c\<close>.

  The other components treat a critical section as one step.  This theory looks below that: any number of
  harts take and release locks, and every access to a lock that other harts can see is a step of its own.  A
  lock is named by a number in place of its address, a hart by the number that \<^verbatim>\<open>cpuid\<close> returns.
\<close>

section \<open>Locks and harts\<close>

record spinlock =
  lk_locked :: uint
  lk_name :: string
  lk_cpu :: "nat option"

text \<open>The fields of \<^verbatim>\<open>struct cpu\<close> that concern interrupts, and the flag \<^verbatim>\<open>SIE\<close> of the hart's \<^verbatim>\<open>sstatus\<close>.\<close>

record hart =
  noff :: int
  intena :: bool
  sie :: bool

record lkstate =
  lks :: "nat \<Rightarrow> spinlock"
  harts :: "nat \<Rightarrow> hart"

definition initlock :: "nat \<Rightarrow> string \<Rightarrow> 'a lkstate_scheme \<Rightarrow> 'a lkstate_scheme" where
  "initlock l name s = s\<lparr>lks := (lks s)(l := \<lparr>lk_locked = 0, lk_name = name, lk_cpu = None\<rparr>)\<rparr>"

definition set_hart :: "nat \<Rightarrow> hart \<Rightarrow> 'a lkstate_scheme \<Rightarrow> 'a lkstate_scheme" where
  "set_hart h c s = s\<lparr>harts := (harts s)(h := c)\<rparr>"

definition set_lk :: "nat \<Rightarrow> spinlock \<Rightarrow> 'a lkstate_scheme \<Rightarrow> 'a lkstate_scheme" where
  "set_lk l k s = s\<lparr>lks := (lks s)(l := k)\<rparr>"

definition intr_get :: "nat \<Rightarrow> 'a lkstate_scheme \<Rightarrow> bool" where
  "intr_get h s = sie (harts s h)"

definition intr_on :: "nat \<Rightarrow> 'a lkstate_scheme \<Rightarrow> 'a lkstate_scheme" where
  "intr_on h s = set_hart h ((harts s h)\<lparr>sie := True\<rparr>) s"

definition intr_off :: "nat \<Rightarrow> 'a lkstate_scheme \<Rightarrow> 'a lkstate_scheme" where
  "intr_off h s = set_hart h ((harts s h)\<lparr>sie := False\<rparr>) s"

text \<open>
  \<^verbatim>\<open>push_off\<close> is one step: no other hart sees the fields of this one, and an interrupt between its first two
  statements comes back with the flag as it was.
\<close>

definition push_off :: "nat \<Rightarrow> 'a lkstate_scheme \<Rightarrow> 'a lkstate_scheme" where
  "push_off h s =
    (let old = intr_get h s;
         s1 = intr_off h s;
         s2 = (if noff (harts s1 h) = 0 then set_hart h ((harts s1 h)\<lparr>intena := old\<rparr>) s1 else s1)
     in set_hart h ((harts s2 h)\<lparr>noff := noff (harts s2 h) + 1\<rparr>) s2)"

definition pop_off :: "nat \<Rightarrow> 'a lkstate_scheme \<Rightarrow> 'a lkstate_scheme res" where
  "pop_off h s =
    (if intr_get h s then Panic ''pop_off - interruptible''
     else if noff (harts s h) < 1 then Panic ''pop_off''
     else let s1 = set_hart h ((harts s h)\<lparr>noff := noff (harts s h) - 1\<rparr>) s
       in Ok (if noff (harts s1 h) = 0 \<and> intena (harts s1 h) then intr_on h s1 else s1))"

definition holding :: "nat \<Rightarrow> nat \<Rightarrow> 'a lkstate_scheme \<Rightarrow> bool" where
  "holding h l s \<longleftrightarrow> lk_locked (lks s l) \<noteq> 0 \<and> lk_cpu (lks s l) = Some h"

section \<open>The steps of acquire and release\<close>

text \<open>
  \<^verbatim>\<open>acquire\<close> up to its loop; one atomic swap of the loop, with the old value; and the store of \<^verbatim>\<open>lk->cpu\<close>.
  \<^verbatim>\<open>holding\<close> is one step here because \<^verbatim>\<open>lk->cpu\<close> is this hart only while this hart leaves it so.
\<close>

definition acquire_enter :: "nat \<Rightarrow> nat \<Rightarrow> 'a lkstate_scheme \<Rightarrow> 'a lkstate_scheme res" where
  "acquire_enter h l s = (let s1 = push_off h s in if holding h l s1 then Panic ''acquire'' else Ok s1)"

definition test_and_set :: "nat \<Rightarrow> 'a lkstate_scheme \<Rightarrow> uint \<times> 'a lkstate_scheme" where
  "test_and_set l s = (lk_locked (lks s l), set_lk l ((lks s l)\<lparr>lk_locked := 1\<rparr>) s)"

definition acquire_record :: "nat \<Rightarrow> nat \<Rightarrow> 'a lkstate_scheme \<Rightarrow> 'a lkstate_scheme" where
  "acquire_record h l s = set_lk l ((lks s l)\<lparr>lk_cpu := Some h\<rparr>) s"

definition release_enter :: "nat \<Rightarrow> nat \<Rightarrow> 'a lkstate_scheme \<Rightarrow> 'a lkstate_scheme res" where
  "release_enter h l s = (if \<not> holding h l s then Panic ''release'' else Ok (set_lk l ((lks s l)\<lparr>lk_cpu := None\<rparr>) s))"

definition lock_release :: "nat \<Rightarrow> 'a lkstate_scheme \<Rightarrow> 'a lkstate_scheme" where
  "lock_release l s = set_lk l ((lks s l)\<lparr>lk_locked := 0\<rparr>) s"

text \<open>
  The whole routines, as they run when no other hart moves in between.  The loop of \<^verbatim>\<open>acquire\<close> then ends at
  its first swap or not at all.
\<close>

definition acquire :: "nat \<Rightarrow> nat \<Rightarrow> 'a lkstate_scheme \<Rightarrow> 'a lkstate_scheme res" where
  "acquire h l s = bindr (acquire_enter h l s) (\<lambda>s1.
    case test_and_set l s1 of (old, s2) \<Rightarrow> if old \<noteq> 0 then Diverge else Ok (acquire_record h l s2))"

definition release :: "nat \<Rightarrow> nat \<Rightarrow> 'a lkstate_scheme \<Rightarrow> 'a lkstate_scheme res" where
  "release h l s = bindr (release_enter h l s) (\<lambda>s1. pop_off h (lock_release l s1))"

section \<open>Harts that run side by side\<close>

text \<open>
  Where a hart is: outside the two routines, in the loop of \<^verbatim>\<open>acquire\<close>, after the swap that took the lock,
  after the store that clears \<^verbatim>\<open>lk->cpu\<close> in \<^verbatim>\<open>release\<close>, and before \<^verbatim>\<open>pop_off\<close>.
\<close>

datatype phase = Outside | Spinning nat | Taken nat | Unlocking nat | Popping

text \<open>
  \<^term>\<open>mine\<close> are the locks that the code on a hart has taken and not begun to release, \<^term>\<open>flag\<close> the
  interrupt flag it had when it held none.
\<close>

record lksys = lkstate +
  phase :: "nat \<Rightarrow> phase"
  mine :: "nat \<Rightarrow> nat list"
  flag :: "nat \<Rightarrow> bool"

abbreviation at_phase :: "nat \<Rightarrow> phase \<Rightarrow> lksys \<Rightarrow> lksys" where
  "at_phase h p s \<equiv> s\<lparr>phase := (phase s)(h := p)\<rparr>"

text \<open>
  Kernel code takes a lock it does not hold and releases one it holds.  It may change the interrupt flag, take
  an interrupt or return from one (all of them change the flag) while it holds none.  \<^verbatim>\<open>sched\<close> overwrites
  \<^verbatim>\<open>intena\<close> with the value saved for the process it resumes, with one lock held.
\<close>

inductive lkstep :: "lksys \<Rightarrow> lksys \<Rightarrow> bool" where
  Enter: "phase s h = Outside \<Longrightarrow> l \<notin> set (mine s h) \<Longrightarrow> acquire_enter h l s = Ok s1 \<Longrightarrow>
    lkstep s (at_phase h (Spinning l) s1)"
| Swap: "phase s h = Spinning l \<Longrightarrow> test_and_set l s = (old, s1) \<Longrightarrow>
    lkstep s (if old \<noteq> 0 then s1 else at_phase h (Taken l) s1)"
| Record: "phase s h = Taken l \<Longrightarrow>
    lkstep s (at_phase h Outside (acquire_record h l s)\<lparr>mine := (mine s)(h := l # mine s h)\<rparr>)"
| Leave: "phase s h = Outside \<Longrightarrow> l \<in> set (mine s h) \<Longrightarrow> release_enter h l s = Ok s1 \<Longrightarrow>
    lkstep s (at_phase h (Unlocking l) s1\<lparr>mine := (mine s)(h := remove1 l (mine s h))\<rparr>)"
| Unlock: "phase s h = Unlocking l \<Longrightarrow> lkstep s (at_phase h Popping (lock_release l s))"
| Pop: "phase s h = Popping \<Longrightarrow> pop_off h s = Ok s1 \<Longrightarrow> lkstep s (at_phase h Outside s1)"
| On: "phase s h = Outside \<Longrightarrow> mine s h = [] \<Longrightarrow> lkstep s ((intr_on h s)\<lparr>flag := (flag s)(h := True)\<rparr>)"
| Off: "phase s h = Outside \<Longrightarrow> mine s h = [] \<Longrightarrow> lkstep s ((intr_off h s)\<lparr>flag := (flag s)(h := False)\<rparr>)"
| Switch: "phase s h = Outside \<Longrightarrow> length (mine s h) = 1 \<Longrightarrow>
    lkstep s ((set_hart h ((harts s h)\<lparr>intena := b\<rparr>) s)\<lparr>flag := (flag s)(h := b)\<rparr>)"

text \<open>The harts start with interrupts off and all locks free.\<close>

definition lkboot :: "lksys \<Rightarrow> bool" where
  "lkboot s \<longleftrightarrow> (\<forall>l. lk_locked (lks s l) = 0 \<and> lk_cpu (lks s l) = None) \<and>
    (\<forall>h. phase s h = Outside \<and> mine s h = [] \<and> noff (harts s h) = 0 \<and> \<not> sie (harts s h) \<and> \<not> flag s h)"

inductive lkreach :: "lksys \<Rightarrow> bool" where
  Boot: "lkboot s \<Longrightarrow> lkreach s"
| Step: "lkreach s \<Longrightarrow> lkstep s s' \<Longrightarrow> lkreach s'"

section \<open>The invariant\<close>

text \<open>The locks whose word a hart has set and not yet cleared.\<close>

definition owned :: "lksys \<Rightarrow> nat \<Rightarrow> nat set" where
  "owned s h = set (mine s h) \<union> {l. phase s h = Taken l \<or> phase s h = Unlocking l}"

definition hart_ok :: "hart \<Rightarrow> phase \<Rightarrow> nat list \<Rightarrow> bool \<Rightarrow> bool" where
  "hart_ok c p ls f \<longleftrightarrow> distinct ls \<and>
    (\<forall>l. p \<in> {Spinning l, Taken l, Unlocking l} \<longrightarrow> l \<notin> set ls) \<and>
    noff c = int (length ls) + (if p = Outside then 0 else 1) \<and>
    (if noff c = 0 then sie c = f else \<not> sie c \<and> intena c = f)"

text \<open>The words of the locks against the harts: who has set them, whom \<^verbatim>\<open>lk->cpu\<close> names, and no two owners.\<close>

definition locks_ok :: "(nat \<Rightarrow> spinlock) \<Rightarrow> (nat \<Rightarrow> nat set) \<Rightarrow> (nat \<Rightarrow> nat list) \<Rightarrow> bool" where
  "locks_ok K own ms \<longleftrightarrow> (\<forall>l. lk_locked (K l) \<noteq> 0 \<longleftrightarrow> (\<exists>h. l \<in> own h)) \<and>
    (\<forall>l h. lk_cpu (K l) = Some h \<longleftrightarrow> l \<in> set (ms h)) \<and>
    (\<forall>l h h'. l \<in> own h \<longrightarrow> l \<in> own h' \<longrightarrow> h = h')"

definition lkinv :: "lksys \<Rightarrow> bool" where
  "lkinv s \<longleftrightarrow> locks_ok (lks s) (owned s) (mine s) \<and> (\<forall>h. hart_ok (harts s h) (phase s h) (mine s h) (flag s h))"

lemmas lk_defs = set_hart_def set_lk_def intr_get_def intr_on_def intr_off_def push_off_def pop_off_def
  holding_def acquire_enter_def test_and_set_def acquire_record_def release_enter_def lock_release_def Let_def

lemma lkinv_boot: "lkboot s \<Longrightarrow> lkinv s"
  by (auto simp: lkboot_def lkinv_def locks_ok_def hart_ok_def owned_def)

lemma hart_ok_push:
  "hart_ok c Outside ls f \<Longrightarrow> l \<notin> set ls \<Longrightarrow>
    hart_ok (c\<lparr>sie := False, intena := (if noff c = 0 then sie c else intena c), noff := noff c + 1\<rparr>) (Spinning l) ls f"
  by (auto simp: hart_ok_def split: if_splits)

lemma hart_ok_pop:
  "hart_ok c Popping ls f \<Longrightarrow>
    hart_ok (c\<lparr>noff := noff c - 1, sie := (if noff c = 1 \<and> intena c then True else sie c)\<rparr>) Outside ls f"
  by (auto simp: hart_ok_def split: if_splits)

lemma push_off_eq:
  "push_off h s = s\<lparr>harts := (harts s)(h := (harts s h)\<lparr>sie := False,
    intena := (if noff (harts s h) = 0 then sie (harts s h) else intena (harts s h)), noff := noff (harts s h) + 1\<rparr>)\<rparr>"
  by (simp add: lk_defs)

lemma pop_off_eq:
  assumes "hart_ok (harts s h) Popping ls f"
  shows "pop_off h s = Ok (s\<lparr>harts := (harts s)(h := (harts s h)\<lparr>noff := noff (harts s h) - 1,
    sie := (if noff (harts s h) = 1 \<and> intena (harts s h) then True else sie (harts s h))\<rparr>)\<rparr>)"
proof -
  have "\<not> sie (harts s h)" "1 \<le> noff (harts s h)" using assms by (auto simp: hart_ok_def split: if_splits)
  then show ?thesis by (cases "harts s h") (simp add: lk_defs)
qed

text \<open>A step changes the fields of one hart.\<close>

lemma harts_step:
  assumes "\<forall>h. hart_ok (harts s h) (phase s h) (mine s h) (flag s h)"
    and "harts s' = (harts s)(h := c)" "phase s' = (phase s)(h := p)" "mine s' = (mine s)(h := ls)" "flag s' = (flag s)(h := f)"
    and "hart_ok c p ls f"
  shows "hart_ok (harts s' k) (phase s' k) (mine s' k) (flag s' k)"
  using assms by simp

lemma lkinv_hart: "lkinv s \<Longrightarrow> phase s h = p \<Longrightarrow> hart_ok (harts s h) p (mine s h) (flag s h)"
  by (auto simp: lkinv_def)

lemma hart_ok_step:
  assumes "lkstep s s'" and inv: "lkinv s"
  shows "hart_ok (harts s' k) (phase s' k) (mine s' k) (flag s' k)"
proof -
  have all: "\<forall>h. hart_ok (harts s h) (phase s h) (mine s h) (flag s h)" using inv by (simp add: lkinv_def)
  from assms(1) show ?thesis
  proof (cases rule: lkstep.cases)
    case (Enter h l s1)
    then have "s1 = push_off h s" by (auto simp: acquire_enter_def Let_def split: if_splits)
    then show ?thesis using Enter hart_ok_push [OF lkinv_hart [OF inv Enter(2)] Enter(3)]
      by (intro harts_step [OF all, of _ h]) (auto simp: push_off_eq)
  next
    case (Swap h l old s1)
    then have e: "s1 = set_lk l ((lks s l)\<lparr>lk_locked := 1\<rparr>) s" by (auto simp: test_and_set_def)
    show ?thesis
    proof (cases "old \<noteq> 0")
      case True
      then show ?thesis using Swap e all by (simp add: set_lk_def)
    next
      case False
      then show ?thesis using Swap e lkinv_hart [OF inv Swap(2)]
        by (intro harts_step [OF all, of _ h "harts s h" "Taken l" "mine s h" "flag s h"]) (auto simp: set_lk_def hart_ok_def)
    qed
  next
    case (Record h l)
    then show ?thesis using lkinv_hart [OF inv Record(2)]
      by (intro harts_step [OF all, of _ h "harts s h" Outside "l # mine s h" "flag s h"]) (auto simp: acquire_record_def set_lk_def hart_ok_def)
  next
    case (Leave h l s1)
    then have e: "s1 = set_lk l ((lks s l)\<lparr>lk_cpu := None\<rparr>) s" by (auto simp: release_enter_def split: if_splits)
    have "hart_ok (harts s h) (Unlocking l) (remove1 l (mine s h)) (flag s h)"
      using lkinv_hart [OF inv Leave(2)] Leave(3) length_pos_if_in_set [OF Leave(3)] by (auto simp: hart_ok_def length_remove1 of_nat_diff Suc_le_eq)
    then show ?thesis using Leave e by (intro harts_step [OF all, of _ h]) (auto simp: set_lk_def)
  next
    case (Unlock h l)
    have "hart_ok (harts s h) Popping (mine s h) (flag s h)" using lkinv_hart [OF inv Unlock(2)] by (auto simp: hart_ok_def)
    then show ?thesis using Unlock by (intro harts_step [OF all, of _ h]) (auto simp: set_lk_def lock_release_def)
  next
    case (Pop h s1)
    then show ?thesis using hart_ok_pop [OF lkinv_hart [OF inv Pop(2)]] pop_off_eq [OF lkinv_hart [OF inv Pop(2)]]
      by (intro harts_step [OF all, of _ h]) auto
  next
    case (On h)
    then show ?thesis using lkinv_hart [OF inv On(2)]
      by (intro harts_step [OF all, of _ h "(harts s h)\<lparr>sie := True\<rparr>" Outside "[]" True]) (auto simp: intr_on_def set_hart_def hart_ok_def)
  next
    case (Off h)
    then show ?thesis using lkinv_hart [OF inv Off(2)]
      by (intro harts_step [OF all, of _ h "(harts s h)\<lparr>sie := False\<rparr>" Outside "[]" False]) (auto simp: intr_off_def set_hart_def hart_ok_def)
  next
    case (Switch h b)
    then show ?thesis using lkinv_hart [OF inv Switch(2)]
      by (intro harts_step [OF all, of _ h "(harts s h)\<lparr>intena := b\<rparr>" Outside "mine s h" b]) (auto simp: set_hart_def hart_ok_def)
  qed
qed

lemma locks_ok_take:
  assumes "locks_ok K own ms" "lk_locked (K l) = 0"
  shows "locks_ok (K(l := (K l)\<lparr>lk_locked := 1\<rparr>)) (own(h := insert l (own h))) ms"
  using assms unfolding locks_ok_def by auto

lemma locks_ok_retry:
  assumes "locks_ok K own ms" "lk_locked (K l) \<noteq> 0"
  shows "locks_ok (K(l := (K l)\<lparr>lk_locked := 1\<rparr>)) own ms"
  using assms unfolding locks_ok_def by auto

lemma locks_ok_record:
  assumes "locks_ok K own ms" "l \<in> own h" "\<forall>k. set (ms k) \<subseteq> own k"
  shows "locks_ok (K(l := (K l)\<lparr>lk_cpu := Some h\<rparr>)) own (ms(h := l # ms h))"
proof -
  have "l \<in> set (ms k) \<Longrightarrow> k = h" for k using assms unfolding locks_ok_def by blast
  then show ?thesis using assms(1) unfolding locks_ok_def by (intro conjI allI) (auto split: if_splits)
qed

lemma locks_ok_unrecord:
  assumes "locks_ok K own ms" "l \<in> set (ms h)" "distinct (ms h)" "\<forall>k. set (ms k) \<subseteq> own k"
  shows "locks_ok (K(l := (K l)\<lparr>lk_cpu := None\<rparr>)) own (ms(h := remove1 l (ms h)))"
proof -
  have "l \<in> set (ms k) \<Longrightarrow> k = h" for k using assms unfolding locks_ok_def by blast
  then show ?thesis using assms(1,3) unfolding locks_ok_def by (intro conjI allI) (auto split: if_splits)
qed

lemma locks_ok_unlock:
  assumes "locks_ok K own ms" "l \<in> own h"
  shows "locks_ok (K(l := (K l)\<lparr>lk_locked := 0\<rparr>)) (own(h := own h - {l})) ms"
  using assms unfolding locks_ok_def by (intro conjI allI) (auto split: if_splits)

lemma mine_owned: "\<forall>k. set (mine s k) \<subseteq> owned s k"
  by (auto simp: owned_def)

lemma locks_ok_step:
  assumes "lkstep s s'" and inv: "lkinv s"
  shows "locks_ok (lks s') (owned s') (mine s')"
proof -
  have ok: "locks_ok (lks s) (owned s) (mine s)" using inv by (simp add: lkinv_def)
  from assms(1) show ?thesis
  proof (cases rule: lkstep.cases)
    case (Enter h l s1)
    then have "s1 = push_off h s" by (auto simp: acquire_enter_def Let_def split: if_splits)
    moreover have "owned s' = owned s" using calculation Enter by (auto simp: fun_eq_iff owned_def push_off_eq)
    ultimately show ?thesis using Enter ok by (simp add: push_off_eq)
  next
    case (Swap h l old s1)
    then have e: "s1 = set_lk l ((lks s l)\<lparr>lk_locked := 1\<rparr>) s" "old = lk_locked (lks s l)" by (auto simp: test_and_set_def)
    show ?thesis
    proof (cases "old \<noteq> 0")
      case True
      moreover have "owned s' = owned s" using Swap e True by (auto simp: fun_eq_iff owned_def set_lk_def)
      ultimately show ?thesis using Swap e locks_ok_retry [OF ok, of l] by (simp add: set_lk_def)
    next
      case False
      moreover have "owned s' = (owned s)(h := insert l (owned s h))" using Swap e False by (auto simp: fun_eq_iff owned_def set_lk_def)
      ultimately show ?thesis using Swap e locks_ok_take [OF ok, of l h] by (simp add: set_lk_def)
    qed
  next
    case (Record h l)
    have "owned s' = owned s" "l \<in> owned s h" using Record by (auto simp: fun_eq_iff owned_def set_lk_def acquire_record_def)
    then show ?thesis using Record locks_ok_record [OF ok _ mine_owned, of l h] by (simp add: acquire_record_def set_lk_def)
  next
    case (Leave h l s1)
    then have e: "s1 = set_lk l ((lks s l)\<lparr>lk_cpu := None\<rparr>) s" by (auto simp: release_enter_def split: if_splits)
    have d: "distinct (mine s h)" using lkinv_hart [OF inv Leave(2)] by (simp add: hart_ok_def)
    then have "owned s' = owned s" using Leave e by (auto simp: fun_eq_iff owned_def set_lk_def)
    then show ?thesis using Leave e locks_ok_unrecord [OF ok Leave(3) d mine_owned] by (simp add: set_lk_def)
  next
    case (Unlock h l)
    have "l \<notin> set (mine s h)" using lkinv_hart [OF inv Unlock(2)] by (auto simp: hart_ok_def)
    then have "owned s' = (owned s)(h := owned s h - {l})" "l \<in> owned s h" using Unlock by (auto simp: fun_eq_iff owned_def set_lk_def lock_release_def)
    then show ?thesis using Unlock locks_ok_unlock [OF ok, of l h] by (simp add: set_lk_def lock_release_def)
  next
    case (Pop h s1)
    then have e: "lks s1 = lks s" "mine s1 = mine s" "phase s1 = phase s" using pop_off_eq [OF lkinv_hart [OF inv Pop(2)]] by auto
    then have "owned s' = owned s" using Pop by (auto simp: fun_eq_iff owned_def)
    then show ?thesis using Pop ok e by simp
  next
    case (On h)
    then have "owned s' = owned s" by (auto simp: fun_eq_iff owned_def intr_on_def set_hart_def)
    then show ?thesis using On ok by (simp add: intr_on_def set_hart_def)
  next
    case (Off h)
    then have "owned s' = owned s" by (auto simp: fun_eq_iff owned_def intr_off_def set_hart_def)
    then show ?thesis using Off ok by (simp add: intr_off_def set_hart_def)
  next
    case (Switch h b)
    then have "owned s' = owned s" by (auto simp: fun_eq_iff owned_def set_hart_def)
    then show ?thesis using Switch ok by (simp add: set_hart_def)
  qed
qed

lemma lkinv_reach: "lkreach s \<Longrightarrow> lkinv s"
proof (induction rule: lkreach.induct)
  case (Step s s')
  then show ?case unfolding lkinv_def [of s'] by (simp add: hart_ok_step locks_ok_step)
qed (rule lkinv_boot)

lemma mine_holding: "lkinv s \<Longrightarrow> l \<in> set (mine s h) \<Longrightarrow> holding h l s"
  using mine_owned [of s] unfolding holding_def lkinv_def locks_ok_def by blast

lemma holding_mine: "lkinv s \<Longrightarrow> holding h l s \<Longrightarrow> l \<in> set (mine s h)"
  by (simp add: holding_def lkinv_def locks_ok_def)

lemma mine_masked: "lkinv s \<Longrightarrow> l \<in> set (mine s h) \<or> phase s h \<noteq> Outside \<Longrightarrow> \<not> sie (harts s h)"
  using lkinv_hart [of s h "phase s h"] by (cases "mine s h") (auto simp: hart_ok_def split: if_splits)

lemma mine_free: "lkinv s \<Longrightarrow> phase s h = Outside \<Longrightarrow> mine s h = [] \<Longrightarrow> sie (harts s h) = flag s h \<and> noff (harts s h) = 0"
  using lkinv_hart [of s h Outside] by (simp add: hart_ok_def)

lemma acquire_enter_ok: "lkinv s \<Longrightarrow> l \<notin> set (mine s h) \<Longrightarrow> acquire_enter h l s = Ok (push_off h s)"
  using holding_mine [of s h l] by (auto simp: acquire_enter_def push_off_eq holding_def Let_def)

lemma release_enter_ok: "lkinv s \<Longrightarrow> l \<in> set (mine s h) \<Longrightarrow> \<exists>s1. release_enter h l s = Ok s1"
  using mine_holding [of s l h] by (simp add: release_enter_def)

lemma spinning_other:
  assumes inv: "lkinv s" and p: "phase s h = Spinning l"
  shows "fst (test_and_set l s) = 0 \<or> (\<exists>k. k \<noteq> h \<and> (l \<in> set (mine s k) \<or> phase s k = Taken l \<or> phase s k = Unlocking l))"
proof (cases "\<exists>k. l \<in> owned s k")
  case True
  then obtain k where k: "l \<in> owned s k" by blast
  moreover have "l \<notin> owned s h" using lkinv_hart [OF inv p] p by (auto simp: hart_ok_def owned_def)
  ultimately have "k \<noteq> h" by blast
  then show ?thesis using k by (auto simp: owned_def)
next
  case False
  then have "lk_locked (lks s l) = 0" using inv unfolding lkinv_def locks_ok_def by blast
  then show ?thesis by (simp add: test_and_set_def)
qed

section \<open>What spin locks give\<close>

text \<open>A run of the steps: hart 0 takes lock 5 while hart 1 is in its loop for it.\<close>

definition lk_start :: lksys where
  "lk_start = \<lparr>lks = \<lambda>l. \<lparr>lk_locked = 0, lk_name = ''lock'', lk_cpu = None\<rparr>, harts = \<lambda>h. \<lparr>noff = 0, intena = False, sie = False\<rparr>,
    phase = \<lambda>h. Outside, mine = \<lambda>h. [], flag = \<lambda>h. False\<rparr>"

definition lk_contended :: lksys where
  "lk_contended = \<lparr>lks = (\<lambda>l. \<lparr>lk_locked = 0, lk_name = ''lock'', lk_cpu = None\<rparr>)(5 := \<lparr>lk_locked = 1, lk_name = ''lock'', lk_cpu = Some 0\<rparr>),
    harts = (\<lambda>h. \<lparr>noff = 0, intena = False, sie = False\<rparr>)(0 := \<lparr>noff = 1, intena = True, sie = False\<rparr>, 1 := \<lparr>noff = 1, intena = False, sie = False\<rparr>),
    phase = (\<lambda>h. Outside)(1 := Spinning 5), mine = (\<lambda>h. [])(0 := [5]), flag = (\<lambda>h. False)(0 := True)\<rparr>"

lemma lk_contended_reach: "lkreach lk_contended"
proof -
  have "lkreach lk_start" by (rule lkreach.Boot) (simp add: lkboot_def lk_start_def)
  from lkreach.Step [OF this lkstep.On [of _ 0]]
  have 1: "lkreach ((intr_on 0 lk_start)\<lparr>flag := (flag lk_start)(0 := True)\<rparr>)" (is "lkreach ?s1") by (simp add: lk_start_def)
  from lkreach.Step [OF 1 lkstep.Enter [of _ 0 5 "push_off 0 ?s1"]]
  have 2: "lkreach (at_phase 0 (Spinning 5) (push_off 0 ?s1))" (is "lkreach ?s2") by (simp add: lk_start_def lk_defs)
  from lkreach.Step [OF 2 lkstep.Enter [of _ 1 5 "push_off 1 ?s2"]]
  have 3: "lkreach (at_phase 1 (Spinning 5) (push_off 1 ?s2))" (is "lkreach ?s3") by (simp add: lk_start_def lk_defs)
  from lkreach.Step [OF 3 lkstep.Swap [of _ 0 5 0 "snd (test_and_set 5 ?s3)"]]
  have 4: "lkreach (at_phase 0 (Taken 5) (snd (test_and_set 5 ?s3)))" (is "lkreach ?s4") by (simp add: lk_start_def lk_defs)
  from lkreach.Step [OF 4 lkstep.Record [of _ 0 5]]
  have "lkreach (at_phase 0 Outside (acquire_record 0 5 ?s4)\<lparr>mine := (mine ?s4)(0 := 5 # mine ?s4 0)\<rparr>)" (is "lkreach ?s5") by simp
  moreover have "?s5 = lk_contended" by (simp add: lk_start_def lk_contended_def lk_defs fun_eq_iff)
  ultimately show ?thesis by simp
qed

text \<open>
  Claim C13. Spin locks exclude each other and mask interrupts. However the harts interleave their swaps and stores, no
  two of them hold the same lock, \<^verbatim>\<open>holding\<close> answers yes exactly for the hart that holds the lock, and interrupts
  are off on a hart from the start of its first \<^verbatim>\<open>acquire\<close> to the end of its last \<^verbatim>\<open>release\<close>; after that they are
  as they were before.
\<close>

theorem spinlock_mutual_exclusion:
  assumes "lkreach s"
  shows "(\<forall>h h' l. l \<in> set (mine s h) \<and> l \<in> set (mine s h') \<longrightarrow> h = h') \<and>
    (\<forall>h l. holding h l s \<longleftrightarrow> l \<in> set (mine s h)) \<and>
    (\<forall>h. if mine s h = [] \<and> phase s h = Outside then intr_get h s = flag s h else \<not> intr_get h s)"
proof -
  have inv: "lkinv s" by (rule lkinv_reach [OF assms])
  have h: "\<forall>h l. holding h l s \<longleftrightarrow> l \<in> set (mine s h)" using mine_holding [OF inv] holding_mine [OF inv] by blast
  then have "\<forall>h h' l. l \<in> set (mine s h) \<and> l \<in> set (mine s h') \<longrightarrow> h = h'" unfolding holding_def by (metis option.inject)
  moreover have "if mine s h = [] \<and> phase s h = Outside then intr_get h s = flag s h else \<not> intr_get h s" for h
    using mine_masked [OF inv, of "hd (mine s h)" h] mine_free [OF inv, of h] by (auto simp: intr_get_def)
  ultimately show ?thesis using h by blast
qed

theorem spinlock_mutual_exclusion_witness: "holding 0 5 lk_contended \<and> \<not> holding 1 5 lk_contended \<and> \<not> intr_get 1 lk_contended"
  using spinlock_mutual_exclusion [OF lk_contended_reach] by (auto simp: lk_contended_def split: if_splits)

text \<open>
  Claim C29. Kernel code that takes only locks it does not hold and releases only locks it holds never panics in
  \<^verbatim>\<open>acquire\<close>, \<^verbatim>\<open>release\<close> or \<^verbatim>\<open>pop_off\<close>, and a hart stays in the loop of \<^verbatim>\<open>acquire\<close> only while the lock's word is
  set by another hart: otherwise its next swap takes the lock.
\<close>

theorem spinlock_progress:
  assumes "lkreach s"
  shows "(\<forall>h l. phase s h = Outside \<longrightarrow>
      (if l \<in> set (mine s h) then \<exists>s1. release_enter h l s = Ok s1 else acquire_enter h l s = Ok (push_off h s))) \<and>
    (\<forall>h. phase s h = Popping \<longrightarrow> (\<exists>s1. pop_off h s = Ok s1)) \<and>
    (\<forall>h l. phase s h = Spinning l \<longrightarrow> fst (test_and_set l s) = 0 \<or>
      (\<exists>k. k \<noteq> h \<and> (l \<in> set (mine s k) \<or> phase s k = Taken l \<or> phase s k = Unlocking l)))"
proof -
  have inv: "lkinv s" by (rule lkinv_reach [OF assms])
  have "\<exists>s1. pop_off h s = Ok s1" if "phase s h = Popping" for h using pop_off_eq lkinv_hart [OF inv that] by blast
  then show ?thesis using acquire_enter_ok [OF inv] release_enter_ok [OF inv] spinning_other [OF inv] by simp
qed

theorem spinlock_progress_witness:
  "fst (test_and_set 5 lk_contended) = 1 \<and> (\<exists>s1. release_enter 0 5 lk_contended = Ok s1)"
proof -
  have "phase lk_contended 0 = Outside" "5 \<in> set (mine lk_contended 0)" "fst (test_and_set 5 lk_contended) = 1"
    by (simp_all add: lk_contended_def test_and_set_def)
  then show ?thesis using spinlock_progress [OF lk_contended_reach] by meson
qed

text \<open>
  Claim C30. \<^verbatim>\<open>acquire\<close> of a free lock makes the caller its holder with interrupts off, \<^verbatim>\<open>release\<close> after it gives back
  the lock, the nesting depth and the interrupt flag, and a second \<^verbatim>\<open>acquire\<close> by the holder panics in place of
  spinning for ever.
\<close>

theorem acquire_release_restores:
  assumes "lk_locked (lks s l) = 0" "lk_cpu (lks s l) = None" "0 \<le> noff (harts s h)" "0 < noff (harts s h) \<longrightarrow> \<not> sie (harts s h)"
  shows "\<exists>s1 s2. acquire h l s = Ok s1 \<and> holding h l s1 \<and> \<not> intr_get h s1 \<and> acquire h l s1 = Panic ''acquire'' \<and>
    release h l s1 = Ok s2 \<and> lks s2 = lks s \<and> noff (harts s2 h) = noff (harts s h) \<and> intr_get h s2 = intr_get h s"
proof -
  define s1 where "s1 = acquire_record h l (set_lk l ((lks s l)\<lparr>lk_locked := 1\<rparr>) (push_off h s))"
  have a: "acquire h l s = Ok s1" using assms by (simp add: acquire_def s1_def acquire_enter_def test_and_set_def push_off_eq holding_def Let_def)
  have h: "holding h l s1" "\<not> sie (harts s1 h)" "noff (harts s1 h) = noff (harts s h) + 1"
    by (auto simp: s1_def acquire_record_def set_lk_def push_off_eq holding_def)
  have p: "acquire h l s1 = Panic ''acquire''" using h(1) by (simp add: acquire_def acquire_enter_def push_off_eq holding_def Let_def)
  have c: "intena (harts s1 h) = (if noff (harts s h) = 0 then sie (harts s h) else intena (harts s h))"
    by (simp add: s1_def acquire_record_def set_lk_def push_off_eq)
  have k: "(lks s1)(l := (lks s1 l)\<lparr>lk_cpu := None, lk_locked := 0\<rparr>) = lks s"
    using assms(1,2) by (auto simp: fun_eq_iff s1_def acquire_record_def set_lk_def push_off_eq)
  have "\<exists>s2. release h l s1 = Ok s2 \<and> lks s2 = lks s \<and> noff (harts s2 h) = noff (harts s h) \<and> sie (harts s2 h) = sie (harts s h)"
    using h c k assms(3,4) by (auto simp: release_def release_enter_def lock_release_def pop_off_def intr_get_def intr_on_def set_hart_def set_lk_def Let_def)
  then show ?thesis using a h(1,2) p by (auto simp: intr_get_def)
qed

theorem acquire_release_restores_witness:
  "\<exists>s1 s2. acquire 0 5 lk_start = Ok s1 \<and> release 0 5 s1 = Ok s2 \<and> lks s2 = lks lk_start"
  using acquire_release_restores [of lk_start 5 0] by (auto simp: lk_start_def)

end
