(* ===== verification/Trap.thy ===== *)
theory Trap
  imports Sysfile Bootstate
begin

text \<open>
  Traps and interrupts, \<^verbatim>\<open>kernel/trap.c\<close> and \<^verbatim>\<open>kernel/plic.c\<close>.

  The state is the kernel's own state with the control registers of the hart that traps and the interrupt
  controller beside it.  The controller's answers to the next reads of its claim register are \<^verbatim>\<open>plic_irqs\<close>;
  \<^verbatim>\<open>plic_completed\<close> are the interrupts the kernel has acknowledged, in order.
\<close>

section \<open>Registers\<close>

record tstate =
  kern :: kstate
  sepc :: uint64
  scause :: uint64
  stval :: uint64
  sstatus :: uint64
  stvec :: uint64
  satp :: uint64
  sip :: uint64
  plic_reg :: "uint64 \<Rightarrow> uint"
  plic_irqs :: "uint list"
  plic_completed :: "uint list"

text \<open>The addresses that the linker gives to the labels of the assembly files and to \<^verbatim>\<open>usertrap\<close>.\<close>

record labels =
  kernelvec :: uint64
  usertrap_addr :: uint64
  uservec :: uint64
  userret :: uint64
  trampoline_addr :: uint64

definition SSTATUS_SPP :: uint64 where "SSTATUS_SPP = push_bit 8 1"
definition SSTATUS_SPIE :: uint64 where "SSTATUS_SPIE = push_bit 5 1"
definition SSTATUS_SIE :: uint64 where "SSTATUS_SIE = push_bit 1 1"
definition SATP_SV39 :: uint64 where "SATP_SV39 = push_bit 60 8"

definition MAKE_SATP :: "uint64 \<Rightarrow> uint64" where
  "MAKE_SATP pagetable = SATP_SV39 OR drop_bit 12 pagetable"

definition UART0_IRQ :: uint where "UART0_IRQ = 10"
definition VIRTIO0_IRQ :: uint where "VIRTIO0_IRQ = 1"
definition E1000_IRQ :: uint where "E1000_IRQ = 33"

definition PLIC_SENABLE :: "nat \<Rightarrow> uint64" where "PLIC_SENABLE h = PLIC + 0x2080 + of_nat h * 0x100"
definition PLIC_SPRIORITY :: "nat \<Rightarrow> uint64" where "PLIC_SPRIORITY h = PLIC + 0x201000 + of_nat h * 0x2000"

definition intr_enable :: "tstate \<Rightarrow> tstate" where
  "intr_enable s = s\<lparr>sstatus := sstatus s OR SSTATUS_SIE\<rparr>"

definition intr_disable :: "tstate \<Rightarrow> tstate" where
  "intr_disable s = s\<lparr>sstatus := sstatus s AND NOT SSTATUS_SIE\<rparr>"

definition intr_enabled :: "tstate \<Rightarrow> bool" where
  "intr_enabled s \<longleftrightarrow> sstatus s AND SSTATUS_SIE \<noteq> 0"

section \<open>The interrupt controller\<close>

definition set_plic :: "uint64 \<Rightarrow> uint \<Rightarrow> tstate \<Rightarrow> tstate" where
  "set_plic a v s = s\<lparr>plic_reg := (plic_reg s)(a := v)\<rparr>"

definition plicinit :: "tstate \<Rightarrow> tstate" where
  "plicinit s =
    (let s = set_plic (PLIC + ucast UART0_IRQ * 4) 1 s;
         s = set_plic (PLIC + ucast VIRTIO0_IRQ * 4) 1 s
     in fold (\<lambda>irq. set_plic (PLIC + of_nat irq * 4) 1) [1..<0x35] s)"

definition plicinithart :: "tstate \<Rightarrow> tstate" where
  "plicinithart s =
    (let h = hart (kern s);
         s = set_plic (PLIC_SENABLE h) (push_bit (unat UART0_IRQ) 1 OR push_bit (unat VIRTIO0_IRQ) 1) s;
         s = set_plic (PLIC_SENABLE h + 4) 0xffffffff s
     in set_plic (PLIC_SPRIORITY h) 0 s)"

text \<open>Reading the claim register takes the interrupt away from the controller; 0 stands for none.\<close>

definition plic_claim :: "tstate \<Rightarrow> uint \<times> tstate" where
  "plic_claim s = (case plic_irqs s of [] \<Rightarrow> (0, s) | irq # irqs \<Rightarrow> (irq, s\<lparr>plic_irqs := irqs\<rparr>))"

definition plic_complete :: "uint \<Rightarrow> tstate \<Rightarrow> tstate" where
  "plic_complete irq s = s\<lparr>plic_completed := plic_completed s @ [irq]\<rparr>"

section \<open>Interrupts\<close>

definition on_kernel :: "(kstate \<Rightarrow> kstate res) \<Rightarrow> tstate \<Rightarrow> tstate res" where
  "on_kernel f s = bindr (f (kern s)) (\<lambda>k. Ok (s\<lparr>kern := k\<rparr>))"

definition clockintr :: "kstate \<Rightarrow> kstate" where
  "clockintr k = wakeup ChTicks (k\<lparr>ticks := ticks k + 1\<rparr>)"

text \<open>
  In this state a disk request takes effect in one step, so the handler of the disk's interrupts, which
  \<open>Virtio\<close> describes on the driver's own state, is an argument \<^verbatim>\<open>disk_intr\<close>.
\<close>

definition dev_handler :: "(kstate \<Rightarrow> kstate res) \<Rightarrow> uint \<Rightarrow> kstate \<Rightarrow> kstate res" where
  "dev_handler disk_intr irq k =
    (if irq = UART0_IRQ then uartintr k
     else if irq = VIRTIO0_IRQ then disk_intr k
     else if irq = E1000_IRQ then e1000_intr k
     else if irq \<noteq> 0 then printf (Some (bytes ''unexpected interrupt irq=%d'' @ [10])) [VInt irq] k
     else Ok k)"

definition devintr :: "(kstate \<Rightarrow> kstate res) \<Rightarrow> tstate \<Rightarrow> (nat \<times> tstate) res" where
  "devintr disk_intr s =
    (if scause s AND 0x8000000000000000 \<noteq> 0 \<and> scause s AND 0xff = 9 then
       let (irq, s) = plic_claim s in
       bindr (on_kernel (dev_handler disk_intr irq) s) (\<lambda>s.
       Ok (1, if irq \<noteq> 0 then plic_complete irq s else s))
     else if scause s = 0x8000000000000001 then
       let s = (if hart (kern s) = 0 then s\<lparr>kern := clockintr (kern s)\<rparr> else s)
       in Ok (2, s\<lparr>sip := sip s AND NOT 2\<rparr>)
     else Ok (0, s))"

section \<open>Traps from user space\<close>

definition TF_kernel_satp :: uint64 where "TF_kernel_satp = 0"
definition TF_kernel_sp :: uint64 where "TF_kernel_sp = 8"
definition TF_kernel_trap :: uint64 where "TF_kernel_trap = 16"
definition TF_kernel_hartid :: uint64 where "TF_kernel_hartid = 32"

abbreviation ktf :: "uint64 \<Rightarrow> uint64 \<Rightarrow> tstate \<Rightarrow> tstate" where
  "ktf r v s \<equiv> s\<lparr>kern := set_tf (curproc (kern s)) r v (kern s)\<rparr>"

text \<open>How a trap ends: in user space, through the code at an address with two arguments; or the process has
  given up the CPU: it sleeps in its system call, is runnable or is gone.\<close>

datatype trapend = ToUser uint64 uint64 uint64 | Asleep swait | Yielded | Gone

definition usertrapret :: "labels \<Rightarrow> tstate \<Rightarrow> trapend \<times> tstate" where
  "usertrapret L s =
    (let s = intr_disable s;
         s = s\<lparr>stvec := TRAMPOLINE + (uservec L - trampoline_addr L)\<rparr>;
         s = ktf TF_kernel_satp (satp s) s;
         s = ktf TF_kernel_sp (p_kstack (curproc (kern s)) + PGSIZE) s;
         s = ktf TF_kernel_trap (usertrap_addr L) s;
         s = ktf TF_kernel_hartid (of_nat (hart (kern s))) s;
         s = s\<lparr>sstatus := sstatus s AND NOT SSTATUS_SPP OR SSTATUS_SPIE\<rparr>;
         s = s\<lparr>sepc := get_tf (curproc (kern s)) TF_epc (kern s)\<rparr>
     in (ToUser (TRAMPOLINE + (userret L - trampoline_addr L)) TRAPFRAME (MAKE_SATP (p_pagetable (curproc (kern s)))), s))"

definition usertrap_end :: "labels \<Rightarrow> nat \<Rightarrow> tstate \<Rightarrow> (trapend \<times> tstate) res" where
  "usertrap_end L which_dev s =
    (if p_killed (curproc (kern s)) then bindr (on_kernel (exit (-1)) s) (\<lambda>s. Ok (Gone, s))
     else if which_dev = 2 then bindr (on_kernel yield s) (\<lambda>s. Ok (Yielded, s))
     else Ok (usertrapret L s))"

definition usertrap_print :: "tstate \<Rightarrow> kstate \<Rightarrow> kstate res" where
  "usertrap_print s k =
    bindr (printf (Some (bytes ''usertrap(): unexpected scause %p pid=%d'' @ [10])) [VPtr (scause s), VInt (p_pid (curproc k))] k) (\<lambda>k.
    bindr (printf (Some (bytes ''            sepc=%p stval=%p'' @ [10])) [VPtr (sepc s), VPtr (stval s)] k) (\<lambda>k.
    Ok (set_proc (cur k) (\<lambda>p. p\<lparr>p_killed := True\<rparr>) k)))"

definition usertrap :: "(kstate \<Rightarrow> kstate res) \<Rightarrow> labels \<Rightarrow> tstate \<Rightarrow> (trapend \<times> tstate) res" where
  "usertrap disk_intr L s =
    (if sstatus s AND SSTATUS_SPP \<noteq> 0 then Panic ''usertrap: not from user mode''
     else
       let s = s\<lparr>stvec := kernelvec L\<rparr>;
           s = ktf TF_epc (sepc s) s
       in if scause s = 8 then
            if p_killed (curproc (kern s)) then bindr (on_kernel (exit (-1)) s) (\<lambda>s. Ok (Gone, s))
            else
              let s = ktf TF_epc (get_tf (curproc (kern s)) TF_epc (kern s) + 4) s;
                  s = intr_enable s
              in bindr (syscall (kern s)) (\<lambda>(r, k).
                 let s = s\<lparr>kern := k\<rparr> in
                 case r of
                   SRet v \<Rightarrow> usertrap_end L 0 s
                 | SSleep w \<Rightarrow> Ok (Asleep w, s)
                 | SExited \<Rightarrow> Ok (Gone, s))
          else
            bindr (devintr disk_intr s) (\<lambda>(which_dev, s).
            if which_dev \<noteq> 0 then usertrap_end L which_dev s
            else bindr (on_kernel (usertrap_print s) s) (usertrap_end L 0)))"

section \<open>Traps from the kernel\<close>

text \<open>
  \<^verbatim>\<open>kerneltrap\<close> up to its call of \<^verbatim>\<open>yield\<close>, and the part after it, which finds the registers that other traps have
  left.  The answer says whether it yields, with the two saved registers.
\<close>

definition kerneltrap_return :: "uint64 \<Rightarrow> uint64 \<Rightarrow> tstate \<Rightarrow> tstate" where
  "kerneltrap_return pc st s = s\<lparr>sepc := pc, sstatus := st\<rparr>"

definition kerneltrap :: "(kstate \<Rightarrow> kstate res) \<Rightarrow> tstate \<Rightarrow> ((uint64 \<times> uint64) option \<times> tstate) res" where
  "kerneltrap disk_intr s =
    (let pc = sepc s; st = sstatus s; cause = scause s in
     if st AND SSTATUS_SPP = 0 then Panic ''kerneltrap: not from supervisor mode''
     else if intr_enabled s then Panic ''kerneltrap: interrupts enabled''
     else
       bindr (devintr disk_intr s) (\<lambda>(which_dev, s).
       if which_dev = 0 then
         bindr (on_kernel (printf (Some (bytes ''scause %p'' @ [10])) [VPtr cause]) s) (\<lambda>s.
         bindr (on_kernel (printf (Some (bytes ''sepc=%p stval=%p'' @ [10])) [VPtr (sepc s), VPtr (stval s)]) s) (\<lambda>s.
         Panic ''kerneltrap''))
       else if which_dev = 2 \<and> myproc (kern s) \<noteq> None \<and> p_state (curproc (kern s)) = RUNNING then
         bindr (on_kernel yield s) (\<lambda>s. Ok (Some (pc, st), s))
       else Ok (None, kerneltrap_return pc st s)))"

section \<open>The trap frame\<close>

lemma word_gap:
  assumes "8 \<le> unat (y :: uint64)" "8 \<le> unat (- y)" "i < 8"
  shows "8 \<le> unat (y + of_nat i)"
proof (rule ccontr)
  let ?z = "y + of_nat i"
  assume l: "\<not> 8 \<le> unat ?z"
  have e: "unat (of_nat i :: uint64) = i" using assms(3) by simp
  show False
  proof (cases "unat ?z \<le> i")
    case True
    then have "unat (of_nat i - ?z) = i - unat ?z" using unat_sub [of ?z "of_nat i"] e by (simp only: word_le_nat_alt)
    moreover have "of_nat i - ?z = - y" by simp
    ultimately show False using assms(2,3) by simp
  next
    case False
    then have "unat (?z - of_nat i) = unat ?z - i" using unat_sub [of "of_nat i" ?z] e by (simp only: word_le_nat_alt)
    moreover have "?z - of_nat i = y" by simp
    ultimately show False using assms(1) l by simp
  qed
qed

lemma load64_store64_other:
  assumes "8 \<le> unat (b - a)" "8 \<le> unat (a - b)"
  shows "load64 (store64 m a v) b = load64 m b"
proof -
  have "store64 m a v (b + of_nat i) = m (b + of_nat i)" if "i < 8" for i
    using word_gap [of "b - a" i] assms that by (simp add: store64_apply algebra_simps)
  then show ?thesis unfolding load64_def by (intro arg_cong [of _ _ of_le] nth_equalityI) (auto simp: mread_def)
qed

lemma store64_twice [simp]: "store64 (store64 m a v) a w = store64 m a w"
  by (rule ext) (simp add: store64_apply)

lemma set_tf_sel [simp]:
  "curproc (set_tf p r v s) = curproc s" "hart (set_tf p r v s) = hart s" "get_tf p r (set_tf p r v s) = v"
  by (simp_all add: set_tf_def get_tf_def curproc_def cur_def myproc_def)

lemma set_tf_twice [simp]: "set_tf p r v (set_tf p r w s) = set_tf p r v s"
  by (simp add: set_tf_def)

lemma get_tf_other: "8 \<le> unat (q - r) \<Longrightarrow> 8 \<le> unat (r - q) \<Longrightarrow> get_tf p q (set_tf p r v s) = get_tf p q s"
  by (simp add: get_tf_def set_tf_def load64_store64_other)

text \<open>Register \<open>i\<close> of the trap frame, in the order of \<^verbatim>\<open>struct trapframe\<close>.\<close>

abbreviation (input) tf_slot :: "nat \<Rightarrow> uint64" where "tf_slot i \<equiv> 8 * of_nat i"

lemma tf_slots:
  "TF_kernel_satp = tf_slot 0" "TF_kernel_sp = tf_slot 1" "TF_kernel_trap = tf_slot 2" "TF_epc = tf_slot 3"
  "TF_kernel_hartid = tf_slot 4" "TF_a0 = tf_slot 14" "TF_a7 = tf_slot 21"
  by (simp_all add: TF_kernel_satp_def TF_kernel_sp_def TF_kernel_trap_def TF_epc_def TF_kernel_hartid_def TF_a0_def TF_a7_def)

lemma unat_uminus64:
  assumes "unat (x :: uint64) = n" "0 < n"
  shows "unat (- x) = 18446744073709551616 - n"
proof -
  have "n < 18446744073709551616" using assms(1) unat64_bound [of x] by simp
  moreover have "(of_nat 18446744073709551616 :: uint64) = 0" by simp
  ultimately have "(of_nat (18446744073709551616 - n) :: uint64) = - of_nat n" by (subst of_nat_diff) auto
  moreover have "x = of_nat n" using assms(1) by auto
  moreover have "18446744073709551616 - n < 18446744073709551616" using assms(2) by simp
  ultimately show ?thesis by (metis unat_of_nat64)
qed

lemma tf_gap:
  assumes "i < 36" "j < 36" "i \<noteq> j"
  shows "8 \<le> unat (tf_slot i - tf_slot j)"
proof -
  have u: "unat (tf_slot k) = 8 * k" if "k < 36" for k
    using unat_of_nat64 [of "8 * k"] that by simp
  show ?thesis
  proof (cases "j < i")
    case True
    then have "unat (tf_slot i - tf_slot j) = 8 * i - 8 * j" using unat_sub [of "tf_slot j" "tf_slot i"] u assms by (simp add: word_le_nat_alt)
    then show ?thesis using True by linarith
  next
    case False
    then have "unat (tf_slot j - tf_slot i) = 8 * j - 8 * i" using unat_sub [of "tf_slot i" "tf_slot j"] u assms by (simp add: word_le_nat_alt)
    moreover have "tf_slot i - tf_slot j = - (tf_slot j - tf_slot i)" by simp
    ultimately show ?thesis using False assms unat_uminus64 [of "tf_slot j - tf_slot i" "8 * j - 8 * i"] by simp
  qed
qed

lemma get_tf_slot: "i < 36 \<Longrightarrow> j < 36 \<Longrightarrow> i \<noteq> j \<Longrightarrow> get_tf p (tf_slot i) (set_tf p (tf_slot j) v s) = get_tf p (tf_slot i) s"
  using tf_gap [of i j] tf_gap [of j i] by (intro get_tf_other) auto

lemma get_tf_known [simp]:
  "get_tf p TF_a7 (set_tf p TF_epc v s) = get_tf p TF_a7 s"
  "r \<in> {TF_kernel_satp, TF_kernel_sp, TF_kernel_trap, TF_kernel_hartid} \<Longrightarrow> get_tf p TF_epc (set_tf p r v s) = get_tf p TF_epc s"
  "get_tf p TF_epc (set_tf p TF_a0 v s) = get_tf p TF_epc s"
  unfolding tf_slots by (auto simp only: insert_iff empty_iff intro!: get_tf_slot)

lemma get_tf_kernel [simp]:
  "r \<in> {TF_kernel_sp, TF_kernel_trap, TF_kernel_hartid} \<Longrightarrow> get_tf p TF_kernel_satp (set_tf p r v s) = get_tf p TF_kernel_satp s"
  "r \<in> {TF_kernel_trap, TF_kernel_hartid} \<Longrightarrow> get_tf p TF_kernel_sp (set_tf p r v s) = get_tf p TF_kernel_sp s"
  "get_tf p TF_kernel_trap (set_tf p TF_kernel_hartid v s) = get_tf p TF_kernel_trap s"
  unfolding tf_slots by (auto simp only: insert_iff empty_iff intro!: get_tf_slot)

lemma get_tf_user:
  "5 \<le> i \<Longrightarrow> i < 36 \<Longrightarrow> r \<in> {TF_kernel_satp, TF_kernel_sp, TF_kernel_trap, TF_kernel_hartid} \<Longrightarrow>
    get_tf p (tf_slot i) (set_tf p r v s) = get_tf p (tf_slot i) s"
  unfolding tf_slots by (auto simp only: insert_iff empty_iff intro!: get_tf_slot)

section \<open>System calls\<close>

text \<open>The trap frame of the current process is ready for the next trap, which will find the kernel through it.\<close>

definition trapframe_ready :: "labels \<Rightarrow> tstate \<Rightarrow> bool" where
  "trapframe_ready L s \<longleftrightarrow>
    (let p = curproc (kern s) in
     get_tf p TF_kernel_satp (kern s) = satp s \<and> get_tf p TF_kernel_sp (kern s) = p_kstack p + PGSIZE \<and>
     get_tf p TF_kernel_trap (kern s) = usertrap_addr L \<and> get_tf p TF_kernel_hartid (kern s) = of_nat (hart (kern s)))"

text \<open>A hart about to execute \<^verbatim>\<open>sret\<close> into user mode at the address \<^verbatim>\<open>pc\<close>, interrupts on after it and not before.\<close>

definition user_mode_next :: "labels \<Rightarrow> uint64 \<Rightarrow> tstate \<Rightarrow> bool" where
  "user_mode_next L pc s \<longleftrightarrow> sepc s = pc \<and> sstatus s AND SSTATUS_SPP = 0 \<and> sstatus s AND SSTATUS_SPIE \<noteq> 0 \<and>
    \<not> intr_enabled s \<and> stvec s = TRAMPOLINE + (uservec L - trampoline_addr L)"

lemma sstatus_bit: "bit SSTATUS_SPP n \<longleftrightarrow> n = 8" "bit SSTATUS_SPIE n \<longleftrightarrow> n = 5" "bit SSTATUS_SIE n \<longleftrightarrow> n = 1"
  unfolding SSTATUS_SPP_def SSTATUS_SPIE_def SSTATUS_SIE_def bit_push_bit_iff bit_1_iff by auto

lemma sstatus_user:
  fixes x :: uint64
  defines "y \<equiv> (x AND NOT SSTATUS_SIE) AND NOT SSTATUS_SPP OR SSTATUS_SPIE"
  shows "y AND SSTATUS_SPP = 0" "y AND SSTATUS_SPIE \<noteq> 0" "y AND SSTATUS_SIE = 0"
proof -
  show "y AND SSTATUS_SPP = 0" "y AND SSTATUS_SIE = 0"
    unfolding y_def by (auto intro!: bit_eqI simp: bit_and_iff bit_or_iff bit_not_iff sstatus_bit)
  have "bit (y AND SSTATUS_SPIE) 5" unfolding y_def by (simp add: bit_and_iff bit_or_iff sstatus_bit)
  then show "y AND SSTATUS_SPIE \<noteq> 0" by auto
qed

lemma usertrapret_spec:
  fixes L s
  defines "p \<equiv> curproc (kern s)" and "s' \<equiv> snd (usertrapret L s)"
  shows "fst (usertrapret L s) = ToUser (TRAMPOLINE + (userret L - trampoline_addr L)) TRAPFRAME (MAKE_SATP (p_pagetable p))"
    and "curproc (kern s') = p"
    and "user_mode_next L (get_tf p TF_epc (kern s)) s'"
    and "trapframe_ready L s'"
    and "\<And>i. 5 \<le> i \<Longrightarrow> i < 36 \<Longrightarrow> get_tf p (tf_slot i) (kern s') = get_tf p (tf_slot i) (kern s)"
proof -
  have k: "kern s' = set_tf p TF_kernel_hartid (of_nat (hart (kern s))) (set_tf p TF_kernel_trap (usertrap_addr L)
      (set_tf p TF_kernel_sp (p_kstack p + PGSIZE) (set_tf p TF_kernel_satp (satp s) (kern s))))"
    and f: "satp s' = satp s" "sepc s' = get_tf p TF_epc (kern s')" "stvec s' = TRAMPOLINE + (uservec L - trampoline_addr L)"
      "sstatus s' = (sstatus s AND NOT SSTATUS_SIE) AND NOT SSTATUS_SPP OR SSTATUS_SPIE"
    by (simp_all add: s'_def p_def usertrapret_def Let_def intr_disable_def)
  show "fst (usertrapret L s) = ToUser (TRAMPOLINE + (userret L - trampoline_addr L)) TRAPFRAME (MAKE_SATP (p_pagetable p))"
    by (simp add: p_def usertrapret_def Let_def intr_disable_def)
  show c: "curproc (kern s') = p" using k by (simp add: p_def)
  show "user_mode_next L (get_tf p TF_epc (kern s)) s'"
    using f k sstatus_user [of "sstatus s"] by (simp add: user_mode_next_def intr_enabled_def)
  show "trapframe_ready L s'" unfolding trapframe_ready_def Let_def c f(1) using k
    by simp
  show "\<And>i. 5 \<le> i \<Longrightarrow> i < 36 \<Longrightarrow> get_tf p (tf_slot i) (kern s') = get_tf p (tf_slot i) (kern s)" using k by (simp add: get_tf_user)
qed

text \<open>
  Claim C15. A system call ends in user space. A trap by \<^verbatim>\<open>ecall\<close> runs the routine that register \<^verbatim>\<open>a7\<close> selects, with the
  saved program counter moved behind the instruction. When the routine returns and the process has not been killed,
  the hart goes back to user mode with interrupts on, at the saved program counter of the process and in its page
  table, with the result in \<^verbatim>\<open>a0\<close>, all other user registers as the routine left them, and the trap frame ready for the next trap.
\<close>

theorem system_call_returns:
  assumes "sstatus s AND SSTATUS_SPP = 0" "scause s = 8" "\<not> p_killed (curproc (kern s))"
    and "syscalls (sint (ucast (get_tf (curproc (kern s)) TF_a7 (kern s)) :: uint)) = Some f"
    and "f (set_tf (curproc (kern s)) TF_epc (sepc s + 4) (kern s)) = Ok (SRet v, k)" "\<not> p_killed (curproc k)"
  shows "\<exists>s'. usertrap disk_intr L s =
      Ok (ToUser (TRAMPOLINE + (userret L - trampoline_addr L)) TRAPFRAME (MAKE_SATP (p_pagetable (curproc k))), s') \<and>
    user_mode_next L (get_tf (curproc k) TF_epc k) s' \<and> trapframe_ready L s' \<and> curproc (kern s') = curproc k \<and>
    get_tf (curproc k) TF_a0 (kern s') = v \<and>
    (\<forall>i. 5 \<le> i \<and> i < 36 \<and> i \<noteq> 14 \<longrightarrow> get_tf (curproc k) (8 * of_nat i) (kern s') = get_tf (curproc k) (8 * of_nat i) k)"
proof -
  let ?p = "curproc (kern s)"
  define s1 where "s1 = s\<lparr>stvec := kernelvec L, kern := set_tf ?p TF_epc (sepc s + 4) (kern s), sstatus := sstatus s OR SSTATUS_SIE\<rparr>"
  define s2 where "s2 = s1\<lparr>kern := set_tf (curproc k) TF_a0 v k\<rparr>"
  have "syscall (kern s1) = Ok (SRet v, set_tf (curproc k) TF_a0 v k)" using assms(4,5) by (simp add: syscall_def s1_def Let_def)
  then have u: "usertrap disk_intr L s = Ok (usertrapret L s2)"
    using assms by (simp add: usertrap_def Let_def intr_enable_def usertrap_end_def s1_def s2_def)
  define s' where "s' = snd (usertrapret L s2)"
  have k2: "curproc (kern s2) = curproc k" "kern s2 = set_tf (curproc k) TF_a0 v k" by (simp_all add: s2_def)
  note r = usertrapret_spec [where L = L and s = s2, folded s'_def, unfolded k2(1)]
  have "usertrapret L s2 = (ToUser (TRAMPOLINE + (userret L - trampoline_addr L)) TRAPFRAME (MAKE_SATP (p_pagetable (curproc k))), s')"
    using r(1) by (simp add: s'_def prod_eq_iff)
  moreover have "get_tf (curproc k) TF_a0 (kern s') = v" using r(5) [of 14] k2(2) by (simp add: tf_slots(6) [symmetric, simplified])
  moreover have "get_tf (curproc k) (8 * of_nat i) (kern s') = get_tf (curproc k) (8 * of_nat i) k" if "5 \<le> i" "i < 36" "i \<noteq> 14" for i
    using r(5) [of i] that k2(2) get_tf_slot [of i 14 "curproc k" v k] by (simp add: tf_slots(6))
  moreover have "user_mode_next L (get_tf (curproc k) TF_epc k) s'" using r(3) k2(2) by simp
  ultimately show ?thesis using u r(2,4) by auto
qed

text \<open>A trap with a given cause and status: the process of \<^term>\<open>boot_kernel\<close> has the number of \<^verbatim>\<open>getpid\<close> in register \<^verbatim>\<open>a7\<close>.\<close>

definition trap_boot :: "uint64 \<Rightarrow> uint64 \<Rightarrow> tstate" where
  "trap_boot cause st = \<lparr>kern = set_tf (curproc boot_kernel) TF_a7 11 boot_kernel, sepc = 0x20, scause = cause, stval = 0, sstatus = st,
    stvec = 0, satp = 0, sip = 2, plic_reg = \<lambda>_. 0, plic_irqs = [1], plic_completed = []\<rparr>"

definition no_labels :: labels where
  "no_labels = \<lparr>kernelvec = 0, usertrap_addr = 0, uservec = 0, userret = 0, trampoline_addr = 0\<rparr>"

theorem system_call_returns_witness:
  "\<exists>e s'. usertrap Ok no_labels (trap_boot 8 0) = Ok (e, s') \<and> sepc s' = 0x24 \<and> get_tf (curproc boot_kernel) TF_a0 (kern s') = 1"
proof -
  let ?s = "trap_boot 8 0" and ?p = "curproc boot_kernel"
  let ?k = "set_tf ?p TF_epc 0x24 (kern ?s)"
  have k: "curproc (kern ?s) = ?p" "get_tf ?p TF_a7 (kern ?s) = 11" by (simp_all add: trap_boot_def del: boot_curproc)
  have n: "\<not> p_killed ?p" "sint (p_pid ?p) = 1" by (simp_all add: fresh_proc_def)
  have "syscalls (sint (ucast (11 :: uint64) :: uint)) = Some sys_getpid" by (simp add: syscalls_def)
  moreover have "sys_getpid ?k = Ok (SRet 1, ?k)" using n k(1) by (simp add: sys_getpid_def sys_ret_def del: boot_curproc)
  moreover have "sepc ?s + 4 = 0x24" by (simp add: trap_boot_def)
  ultimately have "\<exists>s'. usertrap Ok no_labels ?s = Ok (ToUser (TRAMPOLINE + (userret no_labels - trampoline_addr no_labels)) TRAPFRAME (MAKE_SATP (p_pagetable (curproc ?k))), s') \<and>
      user_mode_next no_labels (get_tf (curproc ?k) TF_epc ?k) s' \<and> get_tf (curproc ?k) TF_a0 (kern s') = 1"
    using system_call_returns [of ?s sys_getpid 1 ?k Ok no_labels] k n(1) by (auto simp: trap_boot_def simp del: boot_curproc)
  then show ?thesis using k(1) by (auto simp: user_mode_next_def simp del: boot_curproc)
qed

section \<open>Interrupts in the kernel\<close>



text \<open>
  Claim C31. The timer preempts the kernel. At a timer interrupt hart 0 advances the clock and wakes every process that
  sleeps for it; every hart acknowledges the interrupt, makes its running process runnable and gives the CPU to the
  scheduler. When the process runs again it goes on at the interrupted instruction with its status register,
  whatever other traps have left in these registers.
\<close>

theorem timer_preempts:
  assumes "sstatus s AND SSTATUS_SPP \<noteq> 0" "\<not> intr_enabled s" "scause s = 0x8000000000000001"
    and "myproc (kern s) = Some i" "i < length (procs (kern s))" "hart (kern s) < length (cpus (kern s))"
    and "p_state (procs (kern s) ! i) = RUNNING"
  shows "\<exists>s'. kerneltrap disk_intr s = Ok (Some (sepc s, sstatus s), s') \<and>
    ticks (kern s') = ticks (kern s) + (if hart (kern s) = 0 then 1 else 0) \<and> myproc (kern s') = None \<and>
    p_state (procs (kern s') ! i) = RUNNABLE \<and> (hart (kern s) = 0 \<longrightarrow> no_sleeper ChTicks (kern s')) \<and> \<not> bit (sip s') 1 \<and>
    (\<forall>t. sepc (kerneltrap_return (sepc s) (sstatus s) t) = sepc s \<and> sstatus (kerneltrap_return (sepc s) (sstatus s) t) = sstatus s)"
proof -
  define k where "k = (if hart (kern s) = 0 then clockintr (kern s) else kern s)"
  define k' where "k' = (set_proc i (\<lambda>p. p\<lparr>p_state := RUNNABLE\<rparr>) k)\<lparr>cpus := (cpus k)[hart k := None]\<rparr>"
  define s1 where "s1 = s\<lparr>kern := k, sip := sip s AND NOT 2\<rparr>"
  have e: "myproc k = Some i" "cur k = i" "length (procs k) = length (procs (kern s))" "hart k = hart (kern s)" "cpus k = cpus (kern s)"
    "procs k ! i = procs (kern s) ! i" using assms(4-7) by (auto simp: k_def clockintr_def wakeup_def myproc_def cur_def)
  have d: "devintr disk_intr s = Ok (2, s1)" using assms(3) by (simp add: devintr_def s1_def k_def Let_def)
  have y: "yield k = Ok k'" using e assms(5) by (simp add: yield_def sched_def k'_def curproc_def cur_def myproc_def set_proc_def)
  have "kerneltrap disk_intr s = Ok (Some (sepc s, sstatus s), s1\<lparr>kern := k'\<rparr>)"
    using assms(1,2,7) d y e by (simp add: kerneltrap_def Let_def on_kernel_def s1_def curproc_def)
  moreover have "ticks k' = ticks (kern s) + (if hart (kern s) = 0 then 1 else 0)" by (simp add: k'_def k_def clockintr_def wakeup_def set_proc_def)
  moreover have "myproc k' = None" "p_state (procs k' ! i) = RUNNABLE" using e assms(5,6) by (simp_all add: k'_def myproc_def set_proc_def)
  moreover have "no_sleeper ChTicks k'" if "hart (kern s) = 0"
    using that e assms(5) by (auto simp: k'_def k_def clockintr_def wakeup_def set_proc_def no_sleeper_def list_all_length nth_list_update)
  moreover have "\<not> bit (sip s AND NOT 2) 1" by (simp add: bit_simps)
  ultimately show ?thesis by (intro exI [of _ "s1\<lparr>kern := k'\<rparr>"]) (simp add: kerneltrap_return_def s1_def)
qed

theorem timer_preempts_witness:
  "\<exists>s. kerneltrap Ok (trap_boot 0x8000000000000001 SSTATUS_SPP) = Ok (Some (0x20, SSTATUS_SPP), s) \<and> ticks (kern s) = 1"
proof -
  let ?s = "trap_boot 0x8000000000000001 SSTATUS_SPP"
  have "sstatus ?s AND SSTATUS_SPP \<noteq> 0" "\<not> intr_enabled ?s"
    by (simp_all add: trap_boot_def intr_enabled_def SSTATUS_SPP_def SSTATUS_SIE_def)
  moreover have "myproc (kern ?s) = Some 0" "hart (kern ?s) = 0" "0 < length (cpus (kern ?s))" "ticks (kern ?s) = 0"
    by (simp_all add: trap_boot_def set_tf_def myproc_def boot_defs binit_def Let_def)
  moreover have "p_state (procs (kern ?s) ! 0) = RUNNING" "0 < length (procs (kern ?s))" by (simp_all add: trap_boot_def set_tf_def)
  ultimately show ?thesis using timer_preempts [of ?s 0 Ok] by (auto simp: trap_boot_def)
qed

section \<open>Delivery\<close>

text \<open>
  The controller delivers an interrupt to a hart if its priority is above the threshold of the hart and its bit in
  the hart's enable registers is set.
\<close>

definition plic_delivers :: "tstate \<Rightarrow> nat \<Rightarrow> uint \<Rightarrow> bool" where
  "plic_delivers s h irq \<longleftrightarrow> plic_reg s (PLIC + ucast irq * 4) > plic_reg s (PLIC_SPRIORITY h) \<and>
    bit (plic_reg s (PLIC_SENABLE h + 4 * ucast (irq div 32))) (unat (irq mod 32))"

lemma plic_fold:
  "kern (fold (\<lambda>irq. set_plic (PLIC + of_nat irq * 4) 1) irqs s) = kern s"
  "plic_reg (fold (\<lambda>irq. set_plic (PLIC + of_nat irq * 4) 1) irqs s) a =
    (if \<exists>i \<in> set irqs. a = PLIC + of_nat i * 4 then 1 else plic_reg s a)"
  by (induction irqs arbitrary: s) (auto simp: set_plic_def)

lemma plicinit_priority: "0 < i \<Longrightarrow> i < 0x35 \<Longrightarrow> plic_reg (plicinit s) (PLIC + of_nat i * 4) = 1"
  by (auto simp: plicinit_def plic_fold Let_def)

lemma plicinit_kern [simp]: "kern (plicinit s) = kern s"
  by (simp add: plicinit_def plic_fold Let_def set_plic_def)

lemma plic_registers_apart:
  assumes "h < NCPU" "i < 0x35"
  shows "PLIC_SENABLE h \<noteq> PLIC + of_nat i * 4" "PLIC_SENABLE h + 4 \<noteq> PLIC + of_nat i * 4" "PLIC_SPRIORITY h \<noteq> PLIC + of_nat i * 4"
    "PLIC_SPRIORITY h \<noteq> PLIC_SENABLE h" "PLIC_SPRIORITY h \<noteq> PLIC_SENABLE h + 4"
proof -
  have a: "PLIC_SENABLE h = PLIC + of_nat (0x2080 + h * 0x100)" "PLIC_SENABLE h + 4 = PLIC + of_nat (0x2084 + h * 0x100)"
    "PLIC_SPRIORITY h = PLIC + of_nat (0x201000 + h * 0x2000)" "PLIC + of_nat i * 4 = PLIC + of_nat (i * 4)"
    by (simp_all add: PLIC_SENABLE_def PLIC_SPRIORITY_def)
  have b: "h < 8" using assms(1) by (simp add: NCPU_def)
  show "PLIC_SENABLE h \<noteq> PLIC + of_nat i * 4" "PLIC_SENABLE h + 4 \<noteq> PLIC + of_nat i * 4" "PLIC_SPRIORITY h \<noteq> PLIC + of_nat i * 4"
    "PLIC_SPRIORITY h \<noteq> PLIC_SENABLE h" "PLIC_SPRIORITY h \<noteq> PLIC_SENABLE h + 4"
    unfolding a(2) unfolding a(1,3,4) add_left_cancel using b assms(2) by (subst of_nat64_eq_iff; simp; linarith)+
qed

text \<open>
  Claim C33. After \<^verbatim>\<open>plicinit\<close>, a hart that runs \<^verbatim>\<open>plicinithart\<close> gets the interrupts of the serial port, the disk and the
  network card.
\<close>

theorem plic_delivers_devices:
  assumes "hart (kern s) < NCPU" "irq \<in> {UART0_IRQ, VIRTIO0_IRQ, E1000_IRQ}"
  shows "plic_delivers (plicinithart (plicinit s)) (hart (kern s)) irq"
proof -
  let ?h = "hart (kern s)" and ?t = "plicinithart (plicinit s)"
  obtain i where i: "irq = of_nat i" "i \<in> {1, 10, 33}" using assms(2)
    by (auto simp: UART0_IRQ_def VIRTIO0_IRQ_def E1000_IRQ_def intro: that [of 1] that [of 10] that [of 33])
  note apart = plic_registers_apart [OF assms(1), of i] plic_registers_apart [OF assms(1), of 0]
  have "plic_reg ?t (PLIC + of_nat i * 4) = 1" using i(2) apart plicinit_priority [of i s]
    by (auto simp: plicinithart_def Let_def set_plic_def)
  moreover have "plic_reg ?t (PLIC_SPRIORITY ?h) = 0" by (simp add: plicinithart_def Let_def set_plic_def)
  moreover have "plic_reg ?t (PLIC_SENABLE ?h) = 0x402" "plic_reg ?t (PLIC_SENABLE ?h + 4) = 0xffffffff"
    using apart by (simp_all add: plicinithart_def Let_def set_plic_def UART0_IRQ_def VIRTIO0_IRQ_def)
  ultimately show ?thesis using i by (auto simp: plic_delivers_def)
qed

theorem plic_delivers_devices_witness:
  "plic_delivers (plicinithart (plicinit (trap_boot 0 0))) 0 E1000_IRQ"
proof -
  have "hart (kern (trap_boot 0 0)) = 0" by (simp add: trap_boot_def set_tf_def boot_defs binit_def Let_def)
  then show ?thesis using plic_delivers_devices [of "trap_boot 0 0" E1000_IRQ] by (simp add: NCPU_def)
qed

end
