(* ===== verification/Grep.thy ===== *)
theory Grep
  imports Base
begin

text \<open>
  The user program \<^verbatim>\<open>user/grep.c\<close>.  A C string is the list of its bytes before the zero byte.

  The matcher is compared with the usual meaning of its patterns: a pattern is a sequence of items, each a
  character or a starred character, with \<^verbatim>\<open>.\<close> for any character, and it may be tied to the start and to the
  end of the text.  The loop that reads a file through a buffer of 1024 bytes is compared with a filter on
  the lines of the whole input.
\<close>

section \<open>The matcher\<close>

abbreviation (input) star :: uchar where "star \<equiv> 42"
abbreviation (input) dollar :: uchar where "dollar \<equiv> 36"
abbreviation (input) dot :: uchar where "dot \<equiv> 46"
abbreviation (input) caret :: uchar where "caret \<equiv> 94"

text \<open>
  \<^verbatim>\<open>matchhere\<close> and \<^verbatim>\<open>matchstar\<close> call each other.  The loop of \<^verbatim>\<open>matchstar\<close> tries the rest of the
  pattern before it goes to the next character of the text.
\<close>

function matchhere :: "uchar list \<Rightarrow> uchar list \<Rightarrow> bool"
  and matchstar :: "uchar \<Rightarrow> uchar list \<Rightarrow> uchar list \<Rightarrow> bool" where
  "matchhere [] str = True"
| "matchhere (c # re) str =
    (if re \<noteq> [] \<and> hd re = star then matchstar c (tl re) str
     else if c = dollar \<and> re = [] then str = []
     else if str \<noteq> [] \<and> (c = dot \<or> c = hd str) then matchhere re (tl str)
     else False)"
| "matchstar c re str =
    (if matchhere re str then True
     else if str \<noteq> [] \<and> (hd str = c \<or> c = dot) then matchstar c re (tl str)
     else False)"
  by pat_completeness auto
termination
  by (relation "measures [\<lambda>x. case x of Inl (re, str) \<Rightarrow> length re | Inr (c, re, str) \<Rightarrow> Suc (length re),
      \<lambda>x. case x of Inl (re, str) \<Rightarrow> length str | Inr (c, re, str) \<Rightarrow> length str]") (auto simp: neq_Nil_conv)

declare matchhere.simps(2) [simp del]
declare matchstar.simps [simp del]

text \<open>The loop of \<^verbatim>\<open>match\<close> tries every end of the text, the empty one included.\<close>

fun match_loop :: "uchar list \<Rightarrow> uchar list \<Rightarrow> bool" where
  "match_loop re [] = matchhere re []"
| "match_loop re (c # str) = (if matchhere re (c # str) then True else match_loop re str)"

definition match :: "uchar list \<Rightarrow> uchar list \<Rightarrow> bool" where
  "match re str = (if re \<noteq> [] \<and> hd re = caret then matchhere (tl re) str else match_loop re str)"

section \<open>The meaning of patterns\<close>

datatype item = One uchar | Many uchar

definition accepts :: "uchar \<Rightarrow> uchar \<Rightarrow> bool" where
  "accepts c x \<longleftrightarrow> c = dot \<or> c = x"

text \<open>The items of a pattern, and whether it is tied to the end of the text.\<close>

fun items :: "uchar list \<Rightarrow> item list \<times> bool" where
  "items [] = ([], False)"
| "items [c] = (if c = dollar then ([], True) else ([One c], False))"
| "items (c # d # re) =
    (if d = star then (case items re of (its, e) \<Rightarrow> (Many c # its, e))
     else (case items (d # re) of (its, e) \<Rightarrow> (One c # its, e)))"

fun lang :: "item list \<Rightarrow> uchar list set" where
  "lang [] = {[]}"
| "lang (One c # its) = {x # w | x w. accepts c x \<and> w \<in> lang its}"
| "lang (Many c # its) = {u @ w | u w. list_all (accepts c) u \<and> w \<in> lang its}"

definition matches_at :: "item list \<times> bool \<Rightarrow> uchar list \<Rightarrow> bool" where
  "matches_at p str \<longleftrightarrow> (\<exists>u v. str = u @ v \<and> u \<in> lang (fst p) \<and> (snd p \<longrightarrow> v = []))"

definition matches :: "uchar list \<Rightarrow> uchar list \<Rightarrow> bool" where
  "matches re str \<longleftrightarrow>
    (if re \<noteq> [] \<and> hd re = caret then matches_at (items (tl re)) str
     else \<exists>t0 t1. str = t0 @ t1 \<and> matches_at (items re) t1)"

lemma matches_at_Nil: "matches_at ([], e) str \<longleftrightarrow> \<not> e \<or> str = []"
  by (auto simp: matches_at_def)

lemma matches_at_One: "matches_at (One c # its, e) str \<longleftrightarrow> str \<noteq> [] \<and> accepts c (hd str) \<and> matches_at (its, e) (tl str)"
  by (cases str) (auto simp: matches_at_def Cons_eq_append_conv)

lemma matches_at_star:
  "matches_at (Many c # its, e) str \<longleftrightarrow> (\<exists>u v. str = u @ v \<and> list_all (accepts c) u \<and> matches_at (its, e) v)"
proof
  assume "matches_at (Many c # its, e) str"
  then obtain a v where "str = a @ v" "a \<in> lang (Many c # its)" "e \<longrightarrow> v = []" by (auto simp: matches_at_def)
  moreover from this obtain u w where "a = u @ w" "list_all (accepts c) u" "w \<in> lang its" by auto
  ultimately show "\<exists>u v. str = u @ v \<and> list_all (accepts c) u \<and> matches_at (its, e) v"
    by (intro exI [of _ u] exI [of _ "w @ v"]) (auto simp: matches_at_def)
next
  assume "\<exists>u v. str = u @ v \<and> list_all (accepts c) u \<and> matches_at (its, e) v"
  then obtain u w v where "str = u @ w @ v" "list_all (accepts c) u" "w \<in> lang its" "e \<longrightarrow> v = []" by (auto simp: matches_at_def)
  moreover from this have "u @ w \<in> lang (Many c # its)" by auto
  ultimately show "matches_at (Many c # its, e) str" unfolding matches_at_def by (intro exI [of _ "u @ w"] exI [of _ v]) auto
qed

lemma matches_at_Many:
  "matches_at (Many c # its, e) str \<longleftrightarrow> matches_at (its, e) str \<or>
    str \<noteq> [] \<and> accepts c (hd str) \<and> matches_at (Many c # its, e) (tl str)" (is "?l \<longleftrightarrow> ?r")
proof
  assume ?l
  then obtain u v where t: "str = u @ v" "list_all (accepts c) u" "matches_at (its, e) v" by (auto simp: matches_at_star)
  then show ?r by (cases u) (auto simp: matches_at_star)
next
  assume ?r
  then show ?l
  proof
    assume "matches_at (its, e) str"
    then show ?l unfolding matches_at_star by (intro exI [of _ "[]"] exI [of _ str]) auto
  next
    assume r: "str \<noteq> [] \<and> accepts c (hd str) \<and> matches_at (Many c # its, e) (tl str)"
    then obtain u v where "tl str = u @ v" "list_all (accepts c) u" "matches_at (its, e) v" by (auto simp: matches_at_star)
    then show ?l using r unfolding matches_at_star by (intro exI [of _ "hd str # u"] exI [of _ v]) (auto simp: neq_Nil_conv)
  qed
qed

lemma items_star: "items (c # star # re) = (Many c # fst (items re), snd (items re))"
  by (simp add: case_prod_beta)

lemma items_one: "re = [] \<longrightarrow> c \<noteq> dollar \<Longrightarrow> re = [] \<or> hd re \<noteq> star \<Longrightarrow> items (c # re) = (One c # fst (items re), snd (items re))"
  by (cases re) (auto simp: case_prod_beta)

lemma matchhere_items:
  "matchhere re str \<longleftrightarrow> matches_at (items re) str"
  "matchstar c re str \<longleftrightarrow> matches_at (Many c # fst (items re), snd (items re)) str"
proof (induction re str and c re str rule: matchhere_matchstar.induct)
  case (1 str)
  then show ?case by (simp add: matches_at_Nil)
next
  case (2 c re str)
  show ?case
  proof (cases "re \<noteq> [] \<and> hd re = star")
    case True
    then have "items (c # re) = (Many c # fst (items (tl re)), snd (items (tl re)))" using items_star [of c "tl re"] by (cases re) auto
    then show ?thesis using 2 True by (simp add: matchhere.simps(2))
  next
    case False
    show ?thesis
    proof (cases "c = dollar \<and> re = []")
      case True
      then show ?thesis by (simp add: matchhere.simps(2) matches_at_Nil)
    next
      case False': False
      have "items (c # re) = (One c # fst (items re), snd (items re))" by (rule items_one) (use False False' in auto)
      then show ?thesis using 2(2) False False' by (auto simp: matchhere.simps(2) matches_at_One accepts_def)
    qed
  qed
next
  case (3 c re str)
  show ?case using 3 by (subst matchstar.simps, subst matches_at_Many) (auto simp: accepts_def)
qed

lemma match_loop_ends: "match_loop re str \<longleftrightarrow> (\<exists>t0 t1. str = t0 @ t1 \<and> matchhere re t1)"
proof (induction str)
  case (Cons c str)
  have "(\<exists>t0 t1. c # str = t0 @ t1 \<and> matchhere re t1) \<longleftrightarrow> matchhere re (c # str) \<or> (\<exists>t0 t1. str = t0 @ t1 \<and> matchhere re t1)"
    by (auto simp: Cons_eq_append_conv)
  then show ?case using Cons by auto
qed simp

lemma match_matches: "match re str \<longleftrightarrow> matches re str"
  by (simp add: match_def matches_def matchhere_items match_loop_ends)

section \<open>The loop over the input\<close>

text \<open>\<^verbatim>\<open>strchr\<close> of \<^verbatim>\<open>user/ulib.c\<close>: it gives up at the zero byte.  The answer is an offset.\<close>

fun strchr :: "uchar list \<Rightarrow> uchar \<Rightarrow> nat option" where
  "strchr [] c = None"
| "strchr (x # s) c = (if x = 0 then None else if x = c then Some 0 else map_option Suc (strchr s c))"

lemma strchr_less: "strchr p c = Some q \<Longrightarrow> q < length p"
  by (induction p arbitrary: q) (auto split: if_splits)

text \<open>
  The inner loop of \<^verbatim>\<open>grep\<close> over the bytes \<^verbatim>\<open>p\<close> of the buffer: what it writes to the standard output, and
  the bytes that \<^verbatim>\<open>p\<close> points to at its end.  The byte that \<^verbatim>\<open>*q = 0\<close> overwrites is behind \<^verbatim>\<open>p\<close> from
  then on.
\<close>

function grep_lines :: "uchar list \<Rightarrow> uchar list \<Rightarrow> uchar list \<times> uchar list" where
  "grep_lines pattern p =
    (case strchr p 10 of
       None \<Rightarrow> ([], p)
     | Some q \<Rightarrow>
        (case grep_lines pattern (drop (q + 1) p) of
           (out, rest) \<Rightarrow> ((if match pattern (take q p) then take (q + 1) p else []) @ out, rest)))"
  by pat_completeness auto
termination
  by (relation "measure (\<lambda>(pattern, p). length p)") (auto dest: strchr_less)

declare grep_lines.simps [simp del]

text \<open>
  A read from a file, a pipe or the console gives at least one byte while there are bytes and room for them;
  how many is up to \<^term>\<open>more\<close>, indexed by the number of the read.  \<^verbatim>\<open>held\<close> is the first \<^verbatim>\<open>m\<close> bytes of
  the buffer.
\<close>

definition read_size :: "(nat \<Rightarrow> nat) \<Rightarrow> nat \<Rightarrow> uchar list \<Rightarrow> uchar list \<Rightarrow> nat" where
  "read_size more i held inp = min (Suc (more i)) (min (1024 - length held - 1) (length inp))"

function grep_loop :: "(nat \<Rightarrow> nat) \<Rightarrow> uchar list \<Rightarrow> nat \<Rightarrow> uchar list \<Rightarrow> uchar list \<Rightarrow> uchar list" where
  "grep_loop more pattern i held inp =
    (let n = read_size more i held inp in
     if n = 0 then []
     else (case grep_lines pattern (held @ take n inp) of
             (out, rest) \<Rightarrow> out @ grep_loop more pattern (Suc i) rest (drop n inp)))"
  by pat_completeness auto
termination
  by (relation "measure (\<lambda>(more, pattern, i, held, inp). length inp)") (auto simp: read_size_def)

declare grep_loop.simps [simp del]

definition grep :: "(nat \<Rightarrow> nat) \<Rightarrow> uchar list \<Rightarrow> uchar list \<Rightarrow> uchar list" where
  "grep more pattern inp = grep_loop more pattern 0 [] inp"

text \<open>The lines of an input that a newline ends, and what follows the last newline.\<close>

fun ended_lines :: "uchar list \<Rightarrow> uchar list \<Rightarrow> uchar list list" where
  "ended_lines acc [] = []"
| "ended_lines acc (x # s) = (if x = 10 then acc # ended_lines [] s else ended_lines (acc @ [x]) s)"

fun open_line :: "uchar list \<Rightarrow> uchar list \<Rightarrow> uchar list" where
  "open_line acc [] = acc"
| "open_line acc (x # s) = (if x = 10 then open_line [] s else open_line (acc @ [x]) s)"

definition print_matching :: "uchar list \<Rightarrow> uchar list list \<Rightarrow> uchar list" where
  "print_matching pattern ls = concat (map (\<lambda>l. l @ [10]) (filter (matches pattern) ls))"

lemma print_matching_simps [simp]:
  "print_matching pattern [] = []"
  "print_matching pattern (l # ls) = (if matches pattern l then l @ [10] else []) @ print_matching pattern ls"
  "print_matching pattern (ls @ ms) = print_matching pattern ls @ print_matching pattern ms"
  by (auto simp: print_matching_def)

lemma ended_lines_append: "ended_lines acc (s @ t) = ended_lines acc s @ ended_lines (open_line acc s) t"
  by (induction acc s rule: ended_lines.induct) auto

lemma open_line_append: "open_line acc (s @ t) = open_line (open_line acc s) t"
  by (induction acc s rule: open_line.induct) auto

lemma ended_lines_none: "10 \<notin> set s \<Longrightarrow> ended_lines acc s = []"
  by (induction s arbitrary: acc) auto

lemma open_line_none: "10 \<notin> set s \<Longrightarrow> open_line acc s = acc @ s"
  by (induction s arbitrary: acc) auto

lemma ended_lines_held: "10 \<notin> set held \<Longrightarrow> ended_lines [] (held @ s) = ended_lines held s"
  by (simp add: ended_lines_append ended_lines_none open_line_none)

lemma open_line_bytes: "set (open_line acc s) \<subseteq> set acc \<union> set s"
  by (induction acc s rule: open_line.induct) auto

lemma open_line_no_newline: "10 \<notin> set acc \<Longrightarrow> 10 \<notin> set (open_line acc s)"
  by (induction acc s rule: open_line.induct) auto

lemma ended_lines_length: "l \<in> set (ended_lines acc s) \<Longrightarrow> \<exists>l \<in> set (ended_lines acc s). length acc \<le> length l"
proof (induction acc s rule: ended_lines.induct)
  case (2 acc x s)
  show ?case
  proof (cases "x = 10")
    case False
    then have "\<exists>l \<in> set (ended_lines (acc @ [x]) s). length (acc @ [x]) \<le> length l" using 2 by simp
    then obtain k where "k \<in> set (ended_lines (acc @ [x]) s)" "length (acc @ [x]) \<le> length k" by blast
    then show ?thesis using False by (intro bexI [of _ k]) auto
  qed simp
qed simp

lemma strchr_None: "strchr p c = None \<Longrightarrow> 0 \<notin> set p \<Longrightarrow> c \<notin> set p"
  by (induction p) (auto split: if_splits)

lemma strchr_Some: "strchr p c = Some q \<Longrightarrow> \<exists>u v. p = u @ c # v \<and> length u = q \<and> c \<notin> set u"
proof (induction p arbitrary: q)
  case (Cons x p)
  show ?case
  proof (cases "x = c")
    case True
    then show ?thesis using Cons by (intro exI [of _ "[]"] exI [of _ p]) (auto split: if_splits)
  next
    case False
    then obtain r where r: "strchr p c = Some r" "q = Suc r" using Cons(2) by (auto split: if_splits)
    then obtain u v where "p = u @ c # v" "length u = r" "c \<notin> set u" using Cons(1) by blast
    then show ?thesis using r False by (intro exI [of _ "x # u"] exI [of _ v]) auto
  qed
qed simp

lemma grep_lines_filter:
  "0 \<notin> set p \<Longrightarrow> grep_lines pattern p = (print_matching pattern (ended_lines [] p), open_line [] p)"
proof (induction pattern p rule: grep_lines.induct)
  case (1 pattern p)
  show ?case
  proof (cases "strchr p 10")
    case None
    then show ?thesis using 1(2) strchr_None [OF None] by (simp add: grep_lines.simps [of pattern p] ended_lines_none open_line_none)
  next
    case (Some q)
    then obtain u v where p: "p = u @ 10 # v" "length u = q" "10 \<notin> set u" using strchr_Some by blast
    have "open_line [] p = open_line [] v" using p by (simp add: open_line_append open_line_none)
    moreover have "grep_lines pattern v = (print_matching pattern (ended_lines [] v), open_line [] v)" using 1(1) [OF Some] 1(2) p by simp
    ultimately show ?thesis using Some p by (subst grep_lines.simps) (simp add: ended_lines_held match_matches)
  qed
qed

lemma grep_loop_filter:
  assumes "0 \<notin> set (held @ inp)" "10 \<notin> set held" "\<forall>l \<in> set (ended_lines held inp). length l < 1023"
  shows "grep_loop more pattern i held inp = print_matching pattern (ended_lines held inp)"
  using assms
proof (induction more pattern i held inp rule: grep_loop.induct)
  case (1 more pattern i held inp)
  define n where "n = read_size more i held inp"
  show ?case
  proof (cases "n = 0")
    case True
    then have "1023 \<le> length held \<or> inp = []" by (auto simp: n_def read_size_def min_def split: if_splits)
    then have "ended_lines held inp = []" using 1(4) ended_lines_length [of _ held inp] by (cases "ended_lines held inp") fastforce+
    then show ?thesis using True by (simp add: grep_loop.simps [of _ _ i] n_def)
  next
    case False
    let ?p = "held @ take n inp"
    have b: "0 \<notin> set ?p" using 1(2) by (auto dest: in_set_takeD)
    have g: "grep_lines pattern ?p = (print_matching pattern (ended_lines [] ?p), open_line [] ?p)" by (rule grep_lines_filter [OF b])
    have s: "ended_lines held inp = ended_lines [] ?p @ ended_lines (open_line [] ?p) (drop n inp)"
      using ended_lines_append [of "[]" ?p "drop n inp"] ended_lines_held [OF 1(3), of inp] by simp
    have "grep_loop more pattern (Suc i) (open_line [] ?p) (drop n inp) = print_matching pattern (ended_lines (open_line [] ?p) (drop n inp))"
    proof (rule 1(1) [OF n_def False g [symmetric]])
      show "0 \<notin> set (open_line [] ?p @ drop n inp)" using b 1(2) open_line_bytes [of "[]" ?p] by (auto dest: in_set_dropD)
      show "10 \<notin> set (open_line [] ?p)" by (rule open_line_no_newline) simp
      show "\<forall>l \<in> set (ended_lines (open_line [] ?p) (drop n inp)). length l < 1023" using 1(4) s by simp
    qed
    then show ?thesis using False g s by (simp add: grep_loop.simps [of _ _ i] n_def [symmetric])
  qed
qed

section \<open>What grep prints\<close>

text \<open>
  Claim C34. The matcher finds exactly the texts that its pattern describes: \<^verbatim>\<open>match\<close> answers yes if and only if some
  part of the text, at the start of it after \<^verbatim>\<open>^\<close> and up to the end of it before a last \<^verbatim>\<open>$\<close>, is in the language of
  the pattern's sequence of characters and starred characters.
\<close>

theorem match_equivalent: "match re str \<longleftrightarrow> matches re str"
  by (rule match_matches)

text \<open>
  Claim C35. Reading through the buffer is invisible. Whatever number of bytes each read delivers, \<^verbatim>\<open>grep\<close> ends and
  prints, in order, the lines of its input that match the pattern: the ones that a newline ends, for an input
  without zero bytes whose lines fit the buffer. A last line with no newline is not among them.
\<close>

theorem grep_filters_lines:
  assumes "0 \<notin> set inp" "\<forall>l \<in> set (ended_lines [] inp). length l < 1023"
  shows "grep more pattern inp = print_matching pattern (ended_lines [] inp)"
  unfolding grep_def by (rule grep_loop_filter) (use assms in auto)

theorem grep_filters_lines_witness:
  "grep (\<lambda>i. i) [97, 42, 98, 36] [99, 98, 10, 98, 99, 10, 97, 98, 10, 98] = [99, 98, 10, 97, 98, 10]"
  using grep_filters_lines [of "[99, 98, 10, 98, 99, 10, 97, 98, 10, 98]" "\<lambda>i. i" "[97, 42, 98, 36]"]
  by (simp add: match_matches [symmetric] match_def matchhere.simps matchstar.simps)

end
